(* ===== verification/Go_Prelude.thy ===== *)
theory Go_Prelude
  imports Main "HOL-Library.Word" "HOL-Library.Monad_Syntax" "HOL-Library.List_Lexorder"
    "HOL-Library.Product_Lexorder" "HOL-Library.Signed_Division" "HOL-Library.Multiset"
begin

text \<open>
  The Go language as the components use it.

  \<^item> A call that may panic returns \<open>'a go\<close>: \<open>Ret x\<close> is a normal return, \<open>Panic\<close> a panic (an
    explicit \<^verbatim>\<open>panic\<close>, an index out of range, a nil dereference). Calls are sequenced with the
    \<open>do\<close> notation of the option monad. An \<^verbatim>\<open>error\<close> result is an ordinary value of the result.
  \<^item> \<open>int64\<close>, \<open>int32\<close> and \<open>int\<close> are integers of type \<^typ>\<open>int\<close> with \<open>wrap64\<close> and \<open>wrap32\<close> written
    at every operation that can leave the range; \<open>uint64\<close> and \<open>uint32\<close> are words.
  \<^item> A byte slice is a list of 8-bit words; where the code tells \<^verbatim>\<open>nil\<close> from the empty slice it is
    an option. \<^verbatim>\<open>bytes.Compare\<close> is the lexicographic order of lists.
  \<^item> \<open>sort.Sort\<close> is an insertion sort that only sees the \<^verbatim>\<open>Less\<close> method. The locale \<open>sort_interface\<close>
    states what the code relies on: \<^verbatim>\<open>Less\<close> compares a key.
\<close>

named_theorems go_simps \<open>rewrite rules for machine arithmetic in range\<close>

section \<open>Panics\<close>

type_synonym 'a go = "'a option"

abbreviation (input) Ret :: "'a \<Rightarrow> 'a go" where "Ret \<equiv> Some"
abbreviation (input) Panic :: "'a go" where "Panic \<equiv> None"

text \<open>An index expression \<^verbatim>\<open>xs[i]\<close>, which panics out of range, and an index assignment.\<close>

definition index :: "'a list \<Rightarrow> int \<Rightarrow> 'a go" where
  "index xs i = (if 0 \<le> i \<and> i < int (length xs) then Ret (xs ! nat i) else Panic)"

definition assign :: "'a list \<Rightarrow> int \<Rightarrow> 'a \<Rightarrow> 'a list go" where
  "assign xs i v = (if 0 \<le> i \<and> i < int (length xs) then Ret (xs[nat i := v]) else Panic)"

lemma index_eq_Some [simp]:
  "index xs i = Some x \<longleftrightarrow> 0 \<le> i \<and> i < int (length xs) \<and> x = xs ! nat i"
  by (auto simp: index_def)

lemma index_in: "0 \<le> i \<Longrightarrow> i < int (length xs) \<Longrightarrow> index xs i = Some (xs ! nat i)"
  by (simp add: index_def)

lemma assign_eq_Some [simp]:
  "assign xs i v = Some ys \<longleftrightarrow> 0 \<le> i \<and> i < int (length xs) \<and> ys = xs[nat i := v]"
  by (auto simp: assign_def)

lemma assign_in: "0 \<le> i \<Longrightarrow> i < int (length xs) \<Longrightarrow> assign xs i v = Some (xs[nat i := v])"
  by (simp add: assign_def)

text \<open>A loop that builds a slice from a slice, element by element; the first panic ends it.\<close>

fun map_go :: "('a \<Rightarrow> 'b go) \<Rightarrow> 'a list \<Rightarrow> 'b list go" where
  "map_go f [] = Ret []"
| "map_go f (x # xs) = do { y \<leftarrow> f x; ys \<leftarrow> map_go f xs; Ret (y # ys) }"

lemma map_go_map: "(\<And>x. x \<in> set xs \<Longrightarrow> f x = Ret (g x)) \<Longrightarrow> map_go f xs = Ret (map g xs)"
  by (induction xs) auto

lemma map_go_length: "map_go f xs = Some ys \<Longrightarrow> length ys = length xs"
  by (induction xs arbitrary: ys) (auto split: bind_splits)

text \<open>The positions of a slice of pointers that are not nil.\<close>

definition occupied :: "'a option list \<Rightarrow> nat set" where
  "occupied xs = {i. i < length xs \<and> xs ! i \<noteq> None}"

lemma occupied_new [simp]: "occupied (replicate n None) = {}"
  by (simp add: occupied_def)

lemma occupied_update: "i < length xs \<Longrightarrow> occupied (xs[i := Some v]) = insert i (occupied xs)"
  by (auto simp: occupied_def nth_list_update)

lemma finite_occupied [simp]: "finite (occupied xs)"
  by (simp add: occupied_def)

lemma occupied_bound: "occupied xs \<subseteq> {..<length xs}"
  by (auto simp: occupied_def)

section \<open>Machine integers\<close>

type_synonym int64 = int
type_synonym int32 = int
type_synonym int8 = int
type_synonym uint64 = "64 word"
type_synonym uint32 = "32 word"
type_synonym byte = "8 word"
type_synonym bytes = "byte list"
type_synonym Time = int

definition MaxInt64 :: int64 where "MaxInt64 = 9223372036854775807"
definition MinInt64 :: int64 where "MinInt64 = -9223372036854775808"
definition MaxInt32 :: int32 where "MaxInt32 = 2147483647"
definition MinInt32 :: int32 where "MinInt32 = -2147483648"

definition wrap64 :: "int \<Rightarrow> int64" where
  "wrap64 x = (x + 9223372036854775808) mod 18446744073709551616 - 9223372036854775808"

definition wrap32 :: "int \<Rightarrow> int32" where
  "wrap32 x = (x + 2147483648) mod 4294967296 - 2147483648"

definition in64 :: "int \<Rightarrow> bool" where
  "in64 x \<longleftrightarrow> MinInt64 \<le> x \<and> x \<le> MaxInt64"

definition in32 :: "int \<Rightarrow> bool" where
  "in32 x \<longleftrightarrow> MinInt32 \<le> x \<and> x \<le> MaxInt32"

lemmas int_limits = MaxInt64_def MinInt64_def MaxInt32_def MinInt32_def

lemma in64_wrap64 [simp]: "in64 (wrap64 x)"
proof -
  have "0 \<le> (x + 9223372036854775808) mod 18446744073709551616"
    and "(x + 9223372036854775808) mod 18446744073709551616 < 18446744073709551616"
    by simp_all
  then show ?thesis unfolding in64_def wrap64_def int_limits by linarith
qed

lemma in32_wrap32 [simp]: "in32 (wrap32 x)"
proof -
  have "0 \<le> (x + 2147483648) mod 4294967296"
    and "(x + 2147483648) mod 4294967296 < 4294967296"
    by simp_all
  then show ?thesis unfolding in32_def wrap32_def int_limits by linarith
qed

lemma wrap64_id [go_simps]: "in64 x \<Longrightarrow> wrap64 x = x"
  unfolding in64_def wrap64_def int_limits by (simp add: mod_pos_pos_trivial)

lemma wrap64_add: "wrap64 (wrap64 a + b) = wrap64 (a + b)" "wrap64 (a + wrap64 b) = wrap64 (a + b)"
  by (simp_all add: wrap64_def mod_diff_left_eq mod_simps algebra_simps)

lemma wrap32_id [go_simps]: "in32 x \<Longrightarrow> wrap32 x = x"
  unfolding in32_def wrap32_def int_limits by (simp add: mod_pos_pos_trivial)

text \<open>Go's \<^verbatim>\<open>/\<close> truncates towards zero and panics on a zero divisor.\<close>

definition go_div :: "int64 \<Rightarrow> int64 \<Rightarrow> int64 go" where
  "go_div a b = (if b = 0 then Panic else Ret (wrap64 (a sdiv b)))"

lemma sdiv_nonneg: "0 \<le> a \<Longrightarrow> 0 \<le> b \<Longrightarrow> a sdiv b = a div (b::int)"
  by (simp add: signed_divide_int_def sgn_if)

lemma sdiv_neg: "a < 0 \<Longrightarrow> 0 < b \<Longrightarrow> a sdiv b = - ((- a) div (b::int))"
  by (simp add: signed_divide_int_def sgn_if)

section \<open>Sorting\<close>

fun insert_by :: "('a \<Rightarrow> 'a \<Rightarrow> bool) \<Rightarrow> 'a \<Rightarrow> 'a list \<Rightarrow> 'a list" where
  "insert_by lt x [] = [x]"
| "insert_by lt x (y # ys) = (if lt x y then x # y # ys else y # insert_by lt x ys)"

definition sort_by :: "('a \<Rightarrow> 'a \<Rightarrow> bool) \<Rightarrow> 'a list \<Rightarrow> 'a list" where
  "sort_by lt xs = fold (insert_by lt) xs []"

lemma mset_insert_by [simp]: "mset (insert_by lt x ys) = add_mset x (mset ys)"
  by (induction ys) auto

lemma set_insert_by [simp]: "set (insert_by lt x ys) = insert x (set ys)"
  by (metis mset_insert_by set_mset_add_mset_insert set_mset_mset)

lemma mset_sort_by [simp]: "mset (sort_by lt xs) = mset xs"
proof -
  have "mset (fold (insert_by lt) xs acc) = mset xs + mset acc" for acc
    by (induction xs arbitrary: acc) auto
  then show ?thesis by (simp add: sort_by_def)
qed

lemma set_sort_by [simp]: "set (sort_by lt xs) = set xs"
  by (metis mset_sort_by set_mset_mset)

lemma length_sort_by [simp]: "length (sort_by lt xs) = length xs"
  by (metis mset_sort_by size_mset)

lemma sort_by_Nil [simp]: "sort_by lt [] = []"
  by (simp add: sort_by_def)

lemma sum_list_sort_by [simp]:
  fixes f :: "'a \<Rightarrow> 'b::comm_monoid_add"
  shows "sum_list (map f (sort_by lt xs)) = sum_list (map f xs)"
  by (metis mset_map mset_sort_by sum_mset_sum_list)

lemma distinct_map_sort_by [simp]:
  "distinct (map f (sort_by lt xs)) = distinct (map f xs)"
  by (metis mset_map mset_sort_by mset_eq_imp_distinct_iff)

text \<open>
  The \<^verbatim>\<open>sort.Interface\<close> contract: on the elements to be sorted \<^verbatim>\<open>Less(i, j)\<close> is a strict comparison of
  a key in a linear order. \<open>sort_interface\<close> is the case where every value may be sorted.
\<close>

locale sort_on =
  fixes lt :: "'a \<Rightarrow> 'a \<Rightarrow> bool"
    and key :: "'a \<Rightarrow> 'k::linorder"
    and A :: "'a set"
  assumes less_on: "x \<in> A \<Longrightarrow> y \<in> A \<Longrightarrow> lt x y \<longleftrightarrow> key x < key y"
begin

lemma sorted_insert_by_on:
  "x \<in> A \<Longrightarrow> set ys \<subseteq> A \<Longrightarrow> sorted (map key ys) \<Longrightarrow> sorted (map key (insert_by lt x ys))"
  by (induction ys) (auto simp: less_on)

lemma sorted_sort_by_on: "set xs \<subseteq> A \<Longrightarrow> sorted (map key (sort_by lt xs))"
proof -
  have "set xs \<subseteq> A \<Longrightarrow> set acc \<subseteq> A \<Longrightarrow> sorted (map key acc) \<Longrightarrow> sorted (map key (fold (insert_by lt) xs acc))"
    for acc
    by (induction xs arbitrary: acc) (simp_all add: sorted_insert_by_on)
  then show "set xs \<subseteq> A \<Longrightarrow> sorted (map key (sort_by lt xs))" by (simp add: sort_by_def)
qed

end

locale sort_interface =
  fixes lt :: "'a \<Rightarrow> 'a \<Rightarrow> bool"
    and key :: "'a \<Rightarrow> 'k::linorder"
  assumes less_iff: "lt x y \<longleftrightarrow> key x < key y"

sublocale sort_interface \<subseteq> sort_on lt key UNIV
  by unfold_locales (rule less_iff)

context sort_interface
begin

lemma sorted_sort_by: "sorted (map key (sort_by lt xs))"
  by (rule sorted_sort_by_on) simp

text \<open>
  With distinct keys the result does not depend on the sorting algorithm: every sorted
  permutation of the input is the one computed here.
\<close>

lemma sort_by_unique:
  assumes "inj_on key (set xs)" and "mset ys = mset xs" and "sorted (map key ys)"
  shows "ys = sort_by lt xs"
proof -
  have "set ys = set xs" using assms(2) by (metis set_mset_mset)
  then have "inj_on key (set ys \<union> set (sort_by lt xs))" using assms(1) by simp
  moreover have "map key ys = map key (sort_by lt xs)"
    using assms(2,3) sorted_sort_by [of xs]
    by (metis mset_map mset_sort_by properties_for_sort)
  ultimately show ?thesis by (metis inj_on_map_eq_map)
qed

lemma sort_by_id: "sorted (map key xs) \<Longrightarrow> inj_on key (set xs) \<Longrightarrow> sort_by lt xs = xs"
  using sort_by_unique [of xs xs] by simp

lemma sort_by_strict:
  assumes "distinct (map key xs)"
  shows "sorted_wrt (<) (map key (sort_by lt xs))"
  using assms sorted_sort_by [of xs] by (simp add: strict_sorted_iff)

end

section \<open>Lists and options\<close>

lemma sum_list_int_mono:
  fixes f g :: "'a \<Rightarrow> int"
  shows "(\<And>x. x \<in> set xs \<Longrightarrow> f x \<le> g x) \<Longrightarrow> sum_list (map f xs) \<le> sum_list (map g xs)"
  by (induction xs) (auto intro: add_mono)

lemma sum_list_member_le:
  fixes f :: "'a \<Rightarrow> int"
  assumes "\<And>y. y \<in> set xs \<Longrightarrow> 0 \<le> f y" and "x \<in> set xs"
  shows "f x \<le> sum_list (map f xs)"
  using assms by (induction xs) (fastforce intro: sum_list_nonneg)+

lemma find_Some_iff_index:
  "distinct (map f xs) \<Longrightarrow> x \<in> set xs \<Longrightarrow> find (\<lambda>y. f y = f x) xs = Some x"
  by (induction xs) (auto simp: rev_image_eqI)

end
