(* ===== verification/Encoding.thy ===== *)
theory Encoding
  imports Go_Prelude
begin

text \<open>
  The encodings the code takes from the Go standard library and protobuf: unsigned varints, hexadecimal
  text and the percent encoding of URL path segments. Go strings are byte sequences. Each encoding is
  shown to be decodable: varints and length-prefixed slices are prefix free, the text encodings have
  their decoders as left inverses.
\<close>

section \<open>Varints and length-prefixed slices\<close>

text \<open>\<^verbatim>\<open>binary.PutUvarint\<close>: seven bits per byte, the top bit marks a continuation.\<close>

fun uvarint :: "nat \<Rightarrow> bytes" where
  "uvarint n = (if n < 128 then [word_of_nat n] else word_of_nat (n mod 128 + 128) # uvarint (n div 128))"

declare uvarint.simps [simp del]

lemma uvarint_not_Nil: "uvarint n \<noteq> []"
  by (subst uvarint.simps) simp

lemma byte_of_nat_eq: "\<lbrakk>a < 256; b < 256; (word_of_nat a :: byte) = word_of_nat b\<rbrakk> \<Longrightarrow> a = b"
  by (drule arg_cong [where f = unat]) (simp add: unsigned_of_nat take_bit_nat_def)

lemma uvarint_prefix_free: "uvarint a @ x = uvarint b @ y \<Longrightarrow> a = b \<and> x = y"
proof (induction a arbitrary: b rule: uvarint.induct)
  case (1 a)
  have m: "a mod 128 + 128 < 256" "b mod 128 + 128 < 256" by simp_all
  consider "a < 128" "b < 128" | "a < 128" "128 \<le> b" | "128 \<le> a" "b < 128" | "128 \<le> a" "128 \<le> b"
    by linarith
  then show ?case
  proof cases
    case 1
    then show ?thesis
      using "1.prems" byte_of_nat_eq [of a b] by (simp add: uvarint.simps [of a] uvarint.simps [of b])
  next
    case 2
    then show ?thesis
      using "1.prems" byte_of_nat_eq [of a "b mod 128 + 128"] m
      by (simp add: uvarint.simps [of a] uvarint.simps [of b])
  next
    case 3
    then show ?thesis
      using "1.prems" byte_of_nat_eq [of "a mod 128 + 128" b] m
      by (simp add: uvarint.simps [of a] uvarint.simps [of b])
  next
    case 4
    then have "(word_of_nat (a mod 128 + 128) :: byte) = word_of_nat (b mod 128 + 128)"
      and tl: "uvarint (a div 128) @ x = uvarint (b div 128) @ y"
      using "1.prems" by (simp_all add: uvarint.simps [of a] uvarint.simps [of b])
    then have "a mod 128 = b mod 128" using byte_of_nat_eq [OF m] by simp
    moreover have "a div 128 = b div 128 \<and> x = y" using "1.IH" [OF _ tl] 4 by simp
    ultimately show ?thesis by (metis div_mult_mod_eq)
  qed
qed

definition encodeByteSlice :: "bytes \<Rightarrow> bytes" where
  "encodeByteSlice bz = uvarint (length bz) @ bz"

lemma encodeByteSlice_prefix_free:
  "encodeByteSlice a @ x = encodeByteSlice b @ y \<Longrightarrow> a = b \<and> x = y"
  using uvarint_prefix_free [of "length a" "a @ x" "length b" "b @ y"]
  by (auto simp: encodeByteSlice_def append_eq_append_conv)

section \<open>Hexadecimal text\<close>

definition upperhex :: "nat \<Rightarrow> byte" where
  "upperhex n = word_of_nat (if n < 10 then 48 + n else 55 + n)"

definition unhex :: "byte \<Rightarrow> nat option" where
  "unhex c =
     (if 48 \<le> c \<and> c \<le> 57 then Some (unat c - 48)
      else if 97 \<le> c \<and> c \<le> 102 then Some (unat c - 87)
      else if 65 \<le> c \<and> c \<le> 70 then Some (unat c - 55)
      else None)"

definition hex_byte :: "byte \<Rightarrow> bytes" where
  "hex_byte b = [upperhex (unat b div 16), upperhex (unat b mod 16)]"

text \<open>\<^verbatim>\<open>fmt.Sprintf("%X", bz)\<close> and \<^verbatim>\<open>hex.DecodeString\<close>.\<close>

definition hex_EncodeUpper :: "bytes \<Rightarrow> bytes" where
  "hex_EncodeUpper bz = concat (map hex_byte bz)"

fun hex_DecodeString :: "bytes \<Rightarrow> bytes option" where
  "hex_DecodeString [] = Some []"
| "hex_DecodeString [x] = None"
| "hex_DecodeString (x # y # s) =
     (case (unhex x, unhex y) of
        (Some a, Some b) \<Rightarrow> map_option ((#) (word_of_nat (a * 16 + b))) (hex_DecodeString s)
      | _ \<Rightarrow> None)"

lemma unhex_upperhex: "n < 16 \<Longrightarrow> unhex (upperhex n) = Some n"
proof -
  have "\<forall>n \<in> set [0..<16]. unhex (upperhex n) = Some n" by code_simp
  then show "n < 16 \<Longrightarrow> unhex (upperhex n) = Some n" by simp
qed

lemma byte_nibbles: "(word_of_nat (unat b div 16 * 16 + unat b mod 16) :: byte) = b"
  by simp

lemma unat_byte: "unat (b :: byte) < 256"
  using unsigned_less [of b, where ?'a = nat] by simp

lemma unhex_hex_byte:
  "unhex (upperhex (unat (b :: byte) div 16)) = Some (unat b div 16)"
  "unhex (upperhex (unat (b :: byte) mod 16)) = Some (unat b mod 16)"
  using unhex_upperhex [of "unat b div 16"] unhex_upperhex [of "unat b mod 16"] unat_byte [of b]
  by simp_all

lemma hex_DecodeString_EncodeUpper: "hex_DecodeString (hex_EncodeUpper bz) = Some bz"
proof (induction bz)
  case (Cons b bz)
  then show ?case
    using unhex_hex_byte [of b] byte_nibbles [of b] by (simp add: hex_EncodeUpper_def hex_byte_def)
qed (simp add: hex_EncodeUpper_def)

text \<open>The JSON form of \<^verbatim>\<open>HexBytes\<close>: the upper-case digits in double quotes.\<close>

definition HexBytes_MarshalJSON :: "bytes \<Rightarrow> bytes" where
  "HexBytes_MarshalJSON bz = 34 # hex_EncodeUpper bz @ [34]"

definition HexBytes_UnmarshalJSON :: "bytes \<Rightarrow> bytes option" where
  "HexBytes_UnmarshalJSON data =
     (if length data < 2 \<or> hd data \<noteq> 34 \<or> last data \<noteq> 34 then None
      else hex_DecodeString (butlast (tl data)))"

lemma HexBytes_JSON_roundtrip: "HexBytes_UnmarshalJSON (HexBytes_MarshalJSON bz) = Some bz"
  by (simp add: HexBytes_UnmarshalJSON_def HexBytes_MarshalJSON_def hex_DecodeString_EncodeUpper)

section \<open>Percent encoding of path segments\<close>

text \<open>\<^verbatim>\<open>shouldEscape\<close>, \<^verbatim>\<open>PathEscape\<close> and \<^verbatim>\<open>PathUnescape\<close> of \<^verbatim>\<open>net/url\<close>.\<close>

definition alphanumeric :: "byte \<Rightarrow> bool" where
  "alphanumeric c \<longleftrightarrow> 97 \<le> c \<and> c \<le> 122 \<or> 65 \<le> c \<and> c \<le> 90 \<or> 48 \<le> c \<and> c \<le> 57"

definition shouldEscape :: "byte \<Rightarrow> bool" where
  "shouldEscape c \<longleftrightarrow> \<not> alphanumeric c \<and> c \<notin> set [45, 95, 46, 126, 36, 38, 43, 58, 61, 64]"

definition escape_byte :: "byte \<Rightarrow> bytes" where
  "escape_byte c = (if shouldEscape c then 37 # hex_byte c else [c])"

definition PathEscape :: "bytes \<Rightarrow> bytes" where
  "PathEscape s = concat (map escape_byte s)"

fun PathUnescape :: "bytes \<Rightarrow> bytes option" where
  "PathUnescape [] = Some []"
| "PathUnescape (c # s) =
     (if c = 37 then
        (case s of
           x # y # s' \<Rightarrow>
             (case (unhex x, unhex y) of
                (Some a, Some b) \<Rightarrow> map_option ((#) (word_of_nat (a * 16 + b))) (PathUnescape s')
              | _ \<Rightarrow> None)
         | _ \<Rightarrow> None)
      else map_option ((#) c) (PathUnescape s))"

lemma shouldEscape_percent: "shouldEscape 37"
  by code_simp

lemma PathUnescape_PathEscape: "PathUnescape (PathEscape s) = Some s"
proof (induction s)
  case (Cons c s)
  have "PathEscape (c # s) = escape_byte c @ PathEscape s" by (simp add: PathEscape_def)
  moreover have "c \<noteq> 37" if "\<not> shouldEscape c" using that shouldEscape_percent by auto
  ultimately show ?case
    using Cons unhex_hex_byte [of c] byte_nibbles [of c]
    by (cases "shouldEscape c") (auto simp: escape_byte_def hex_byte_def)
qed (simp add: PathEscape_def)

lemma upperhex_not_slash: "upperhex n \<noteq> 47" if "n < 16"
proof -
  have "\<forall>n \<in> set [0..<16]. upperhex n \<noteq> 47" by code_simp
  then show ?thesis using that by simp
qed

lemma shouldEscape_slash: "shouldEscape 47"
  by code_simp

text \<open>Neither encoding produces a slash, so the parts of a path can be told apart.\<close>

lemma hex_byte_no_slash: "47 \<notin> set (hex_byte b)"
  using upperhex_not_slash [of "unat b div 16"] upperhex_not_slash [of "unat b mod 16"] unat_byte [of b]
  by (auto simp: hex_byte_def)

lemma PathEscape_no_slash: "47 \<notin> set (PathEscape s)"
  using hex_byte_no_slash shouldEscape_slash by (auto simp: PathEscape_def escape_byte_def)

lemma hex_EncodeUpper_no_slash: "47 \<notin> set (hex_EncodeUpper s)"
  using hex_byte_no_slash by (auto simp: hex_EncodeUpper_def)

end
