(* ===== verification/Merkle.thy ===== *)
theory Merkle
  imports Go_Prelude
begin

text \<open>
  The RFC-6962 Merkle trees of \<^verbatim>\<open>crypto/merkle\<close>. The hash \<^verbatim>\<open>tmhash.Sum\<close> is the parameter \<open>H\<close> of
  every definition. The results: the split point is the largest power of two below the length, the
  iterative root computation agrees with the recursive one, every generated inclusion proof verifies,
  and a proof that verifies is for the right leaf unless two different inputs of \<open>H\<close> collide.
\<close>

section \<open>Hashing (hash.go, tree.go)\<close>

type_synonym hashfn = "bytes \<Rightarrow> bytes"

definition emptyHash :: "hashfn \<Rightarrow> bytes" where
  "emptyHash H = H []"

definition leafHash :: "hashfn \<Rightarrow> bytes \<Rightarrow> bytes" where
  "leafHash H leaf = H (0 # leaf)"

definition innerHash :: "hashfn \<Rightarrow> bytes \<Rightarrow> bytes \<Rightarrow> bytes" where
  "innerHash H left right = H (1 # left @ right)"

text \<open>\<^verbatim>\<open>bits.Len\<close>: the number of binary digits.\<close>

fun bits_Len :: "nat \<Rightarrow> nat" where
  "bits_Len n = (if n = 0 then 0 else Suc (bits_Len (n div 2)))"

declare bits_Len.simps [simp del]

definition splitPoint :: "nat \<Rightarrow> nat" where
  "splitPoint len = (let k = 2 ^ (bits_Len len - 1) in if k = len then k div 2 else k)"

definition getSplitPoint :: "int64 \<Rightarrow> int64 go" where
  "getSplitPoint len = (if len < 1 then Panic else Ret (int (splitPoint (nat len))))"

lemma bits_Len_bounds: "0 < n \<Longrightarrow> 2 ^ (bits_Len n - 1) \<le> n \<and> n < 2 ^ bits_Len n \<and> 0 < bits_Len n"
proof (induction n rule: bits_Len.induct)
  case (1 n)
  show ?case
  proof (cases "n = 1")
    case True
    then show ?thesis by (simp add: bits_Len.simps [of "Suc 0"] bits_Len.simps [of 0])
  next
    case False
    then have pos: "0 < n div 2" using "1.prems" by simp
    then have IH: "2 ^ (bits_Len (n div 2) - 1) \<le> n div 2" "n div 2 < 2 ^ bits_Len (n div 2)"
      "0 < bits_Len (n div 2)"
      using "1.IH" "1.prems" by auto
    have len: "bits_Len n = Suc (bits_Len (n div 2))"
      using "1.prems" by (simp add: bits_Len.simps [of n])
    have "2 * 2 ^ (bits_Len (n div 2) - 1) = (2::nat) ^ bits_Len (n div 2)"
      using IH(3) by (metis Suc_pred' power_Suc)
    moreover have "2 * (n div 2) \<le> n" "n < 2 * (n div 2) + 2" by (simp_all add: div_mult_mod_eq)
    ultimately have "2 ^ bits_Len (n div 2) \<le> n" "n < 2 * 2 ^ bits_Len (n div 2)"
      using IH by linarith+
    then show ?thesis using len by simp
  qed
qed

text \<open>The split point is the largest power of two below the length.\<close>

lemma splitPoint_spec:
  assumes "2 \<le> n"
  obtains m where "splitPoint n = 2 ^ m" and "2 ^ m < n" and "n \<le> 2 ^ Suc m"
proof -
  let ?l = "bits_Len n"
  have b: "2 ^ (?l - 1) \<le> n" "n < 2 ^ ?l" "0 < ?l" using bits_Len_bounds [of n] assms by auto
  show thesis
  proof (cases "2 ^ (?l - 1) = n")
    case True
    then have "1 \<le> ?l - 1" using assms by (cases "?l - 1") auto
    then obtain m where m: "?l - 1 = Suc m" by (cases "?l - 1") auto
    then have "splitPoint n = 2 ^ m" using True by (simp add: splitPoint_def Let_def)
    then show thesis using that [of m] True m by auto
  next
    case False
    then have "splitPoint n = 2 ^ (?l - 1)" by (simp add: splitPoint_def)
    moreover have "n \<le> 2 ^ Suc (?l - 1)" using b by simp
    ultimately show thesis using that [of "?l - 1"] b(1) False by simp
  qed
qed

lemma splitPoint_unique:
  assumes "2 ^ m < n" and "n \<le> 2 ^ Suc m"
  shows "splitPoint n = 2 ^ m"
proof -
  have "1 \<le> (2::nat) ^ m" by simp
  then have n: "2 \<le> n" using assms(1) by linarith
  obtain m' where m': "splitPoint n = 2 ^ m'" "2 ^ m' < n" "n \<le> 2 ^ Suc m'"
    using splitPoint_spec [OF n] .
  have "(2::nat) ^ m < 2 ^ Suc m'" "(2::nat) ^ m' < 2 ^ Suc m"
    using less_le_trans [OF assms(1) m'(3)] less_le_trans [OF m'(2) assms(2)] .
  then have "m < Suc m'" "m' < Suc m" by (simp_all only: power_strict_increasing_iff)
  then show ?thesis using m'(1) by simp
qed

lemma splitPoint_range: "2 \<le> n \<Longrightarrow> 0 < splitPoint n \<and> splitPoint n < n"
  by (erule splitPoint_spec) simp

function HashFromByteSlices :: "hashfn \<Rightarrow> bytes list \<Rightarrow> bytes" where
  "HashFromByteSlices H items =
     (if length items = 0 then emptyHash H
      else if length items = 1 then leafHash H (items ! 0)
      else
        let k = splitPoint (length items);
            left = HashFromByteSlices H (take k items);
            right = HashFromByteSlices H (drop k items)
        in innerHash H left right)"
  by pat_completeness auto
termination
proof (relation "measure (\<lambda>(H, items). length items)", goal_cases)
  case (2 H items k)
  then have "2 \<le> length items" by linarith
  then show ?case using splitPoint_range [of "length items"] 2(3) by simp
next
  case (3 H items k x)
  then have "2 \<le> length items" by linarith
  then show ?case using splitPoint_range [of "length items"] 3(3) by auto
qed simp

declare HashFromByteSlices.simps [simp del]

lemma HashFromByteSlices_split:
  assumes "2 \<le> length items"
  shows "HashFromByteSlices H items =
    innerHash H (HashFromByteSlices H (take (splitPoint (length items)) items))
                (HashFromByteSlices H (drop (splitPoint (length items)) items))"
proof -
  have "length items \<noteq> 0" "length items \<noteq> 1" using assms by auto
  then show ?thesis by (simp add: HashFromByteSlices.simps [of H items] Let_def)
qed

text \<open>
  \<^verbatim>\<open>HashFromByteSlicesIterative\<close>: the inner loop overwrites the array it reads from, with a read
  and a write position; the outer loop repeats it until one hash is left.
\<close>

function pair_loop :: "hashfn \<Rightarrow> bytes list \<Rightarrow> nat \<Rightarrow> nat \<Rightarrow> nat \<Rightarrow> bytes list \<times> nat" where
  "pair_loop H items rp wp sz =
     (if rp < sz then
        if rp + 1 < sz
        then pair_loop H (items[wp := innerHash H (items ! rp) (items ! (rp + 1))]) (rp + 2) (wp + 1) sz
        else pair_loop H (items[wp := items ! rp]) (rp + 1) (wp + 1) sz
      else (items, wp))"
  by pat_completeness auto
termination
  by (relation "measure (\<lambda>(H, items, rp, wp, sz). sz - rp)") auto

declare pair_loop.simps [simp del]

lemma snd_pair_loop: "snd (pair_loop H items rp wp sz) = wp + (sz - rp + 1) div 2"
proof (induction H items rp wp sz rule: pair_loop.induct)
  case (1 H items rp wp sz)
  then show ?case by (subst pair_loop.simps) auto
qed

function iterative_loop :: "hashfn \<Rightarrow> bytes list \<Rightarrow> nat \<Rightarrow> bytes" where
  "iterative_loop H items sz =
     (if sz = 0 then emptyHash H
      else if sz = 1 then items ! 0
      else let (items', wp) = pair_loop H items 0 0 sz in iterative_loop H items' wp)"
  by pat_completeness auto
termination
proof (relation "measure (\<lambda>(H, items, sz). sz)", goal_cases)
  case (2 H items sz x items' wp)
  then have "wp = (sz + 1) div 2"
    using snd_pair_loop [of H items 0 0 sz] by (metis One_nat_def add_0 diff_zero snd_conv)
  moreover have "2 \<le> sz" using 2(1,2) by linarith
  ultimately have "wp < sz" by simp
  then show ?case by simp
qed simp

declare iterative_loop.simps [simp del]

definition HashFromByteSlicesIterative :: "hashfn \<Rightarrow> bytes list \<Rightarrow> bytes" where
  "HashFromByteSlicesIterative H input =
     iterative_loop H (map (leafHash H) input) (length input)"

section \<open>The iterative computation agrees with the recursive one\<close>

text \<open>
  Both are the root of a tree over the leaf hashes (\<open>tree_root\<close>); one pass of the inner loop
  (\<open>pair_up\<close>) keeps the root.
\<close>

function tree_root :: "hashfn \<Rightarrow> bytes list \<Rightarrow> bytes" where
  "tree_root H hs =
     (if length hs < 2 then (if hs = [] then emptyHash H else hd hs)
      else let k = splitPoint (length hs)
           in innerHash H (tree_root H (take k hs)) (tree_root H (drop k hs)))"
  by pat_completeness auto
termination
proof (relation "measure (\<lambda>(H, hs). length hs)", goal_cases)
  case (2 H hs k)
  then show ?case using splitPoint_range [of "length hs"] by simp
next
  case (3 H hs k)
  then show ?case using splitPoint_range [of "length hs"] by auto
qed simp

declare tree_root.simps [simp del]

lemma tree_root_simps:
  "tree_root H [] = emptyHash H"
  "tree_root H [h] = h"
  "2 \<le> length hs \<Longrightarrow> tree_root H hs =
     innerHash H (tree_root H (take (splitPoint (length hs)) hs))
                 (tree_root H (drop (splitPoint (length hs)) hs))"
  by (simp_all add: tree_root.simps [of H "[]"] tree_root.simps [of H "[h]"] tree_root.simps [of H hs] Let_def)

lemma HashFromByteSlices_tree_root:
  "HashFromByteSlices H items = tree_root H (map (leafHash H) items)"
proof (induction H items rule: HashFromByteSlices.induct)
  case (1 H items)
  consider "items = []" | x where "items = [x]" | "2 \<le> length items"
    by (cases items rule: remdups_adj.cases) auto
  then show ?case
  proof cases
    case 3
    then have "length items \<noteq> 0" "length items \<noteq> 1" by auto
    then show ?thesis
      using 1 3 by (simp add: HashFromByteSlices.simps [of H items] tree_root_simps(3) take_map drop_map Let_def)
  qed (simp_all add: HashFromByteSlices.simps tree_root_simps)
qed

fun pair_up :: "hashfn \<Rightarrow> bytes list \<Rightarrow> bytes list" where
  "pair_up H (x # y # xs) = innerHash H x y # pair_up H xs"
| "pair_up H xs = xs"

lemma length_pair_up: "length (pair_up H xs) = (length xs + 1) div 2"
  by (induction H xs rule: pair_up.induct) auto

lemma pair_up_append: "even (length xs) \<Longrightarrow> pair_up H (xs @ ys) = pair_up H xs @ pair_up H ys"
  by (induction H xs rule: pair_up.induct) auto

lemma tree_root_pair_up: "2 \<le> length hs \<Longrightarrow> tree_root H (pair_up H hs) = tree_root H hs"
proof (induction hs rule: length_induct)
  case (1 hs)
  show ?case
  proof (cases "length hs = 2")
    case True
    then obtain a b where hs: "hs = [a, b]" by (auto simp: length_Suc_conv numeral_2_eq_2)
    have "splitPoint (Suc (Suc 0)) = 1" using splitPoint_unique [of 0 2] by (simp add: numeral_2_eq_2)
    then show ?thesis using hs tree_root_simps(3) [of hs H] by (simp add: tree_root_simps)
  next
    case False
    let ?n = "length hs"
    obtain m where m: "splitPoint ?n = 2 ^ m" "2 ^ m < ?n" "?n \<le> 2 ^ Suc m"
      using splitPoint_spec [OF "1.prems"] .
    have "m \<noteq> 0" using m "1.prems" False by (cases m) auto
    then obtain l where l: "m = Suc l" by (cases m) auto
    let ?L = "take (2 ^ m) hs" and ?R = "drop (2 ^ m) hs"
    have keep: "tree_root H (pair_up H xs) = tree_root H xs" if "length xs < ?n" for xs
      using 1 that by (cases "2 \<le> length xs") (auto simp: not_le less_2_cases_iff length_Suc_conv)
    have split: "pair_up H hs = pair_up H ?L @ pair_up H ?R"
      using pair_up_append [of ?L H ?R] m(2) l by simp
    have "0 < ?n" using "1.prems" by linarith
    then have lenR: "length ?R < ?n" by (simp add: diff_less)
    have lenL: "length (pair_up H ?L) = 2 ^ l" using m(2) l by (simp add: length_pair_up)
    have len: "length (pair_up H hs) = (?n + 1) div 2" by (rule length_pair_up)
    have "splitPoint ((?n + 1) div 2) = 2 ^ l"
      by (rule splitPoint_unique) (use m l in auto)
    moreover have "2 \<le> (?n + 1) div 2" using "1.prems" False by simp
    ultimately have "tree_root H (pair_up H hs)
        = innerHash H (tree_root H (pair_up H ?L)) (tree_root H (pair_up H ?R))"
      using tree_root_simps(3) [of "pair_up H hs" H] len lenL split by simp
    also have "\<dots> = innerHash H (tree_root H ?L) (tree_root H ?R)"
      using keep [of ?L] keep [OF lenR] m(2) by simp
    also have "\<dots> = tree_root H hs"
      using tree_root_simps(3) [OF "1.prems"] m(1) by simp
    finally show ?thesis .
  qed
qed

text \<open>The write position never passes the read position, so the pass reads unchanged entries.\<close>

lemma pair_loop_pair_up:
  assumes "wp \<le> rp" and "sz \<le> length items" and "pair_loop H items rp wp sz = (items', wp')"
  shows "take wp' items' = take wp items @ pair_up H (drop rp (take sz items))
    \<and> length items' = length items"
  using assms
proof (induction H items rp wp sz rule: pair_loop.induct)
  case (1 H items rp wp sz)
  consider "sz \<le> rp" | "rp + 1 = sz" | "rp + 1 < sz" by linarith
  then show ?case
  proof cases
    case 1
    then show ?thesis using "1.prems" by (simp add: pair_loop.simps [of H items rp])
  next
    case 2
    have "drop rp (take sz items) = [items ! rp]"
      using 2 "1.prems"(2) by (simp add: take_Suc_conv_app_nth [of rp] flip: 2)
    moreover have "pair_loop H items rp wp sz = (items[wp := items ! rp], wp + 1)"
      using 2 by (simp add: pair_loop.simps [of H items rp] pair_loop.simps [of H _ sz])
    ultimately show ?thesis
      using "1.prems" 2 by (auto simp: take_Suc_conv_app_nth)
  next
    case 3
    let ?v = "innerHash H (items ! rp) (items ! (rp + 1))"
    have step: "pair_loop H items rp wp sz = pair_loop H (items[wp := ?v]) (rp + 2) (wp + 1) sz"
      using 3 by (simp add: pair_loop.simps [of H items rp])
    have IH: "take wp' items' = take (wp + 1) (items[wp := ?v])
        @ pair_up H (drop (rp + 2) (take sz (items[wp := ?v])))
      \<and> length items' = length items"
      using "1.IH"(1) 3 "1.prems" step by simp
    have "drop rp (take sz items) = items ! rp # items ! (rp + 1) # drop (rp + 2) (take sz items)"
      using 3 "1.prems"(2) by (simp add: Cons_nth_drop_Suc [symmetric])
    moreover have "drop (rp + 2) (take sz (items[wp := ?v])) = drop (rp + 2) (take sz items)"
      using "1.prems"(1) by (simp add: take_update_swap drop_update_cancel)
    ultimately show ?thesis
      using IH "1.prems" 3 by (simp add: take_Suc_conv_app_nth)
  qed
qed

lemma iterative_loop_tree_root:
  "sz \<le> length items \<Longrightarrow> iterative_loop H items sz = tree_root H (take sz items)"
proof (induction H items sz rule: iterative_loop.induct)
  case (1 H items sz)
  consider "sz = 0" | "sz = 1" | "2 \<le> sz" by linarith
  then show ?case
  proof cases
    case 2
    then have "take sz items = [items ! 0]" using "1.prems" by (cases items) auto
    then show ?thesis using 2 by (simp add: iterative_loop.simps tree_root_simps)
  next
    case 3
    obtain items' wp where loop: "pair_loop H items 0 0 sz = (items', wp)" by fastforce
    then have wp: "take wp items' = pair_up H (take sz items)" "length items' = length items"
      using pair_loop_pair_up [of 0 0 sz items H items' wp] "1.prems" by auto
    have "wp = (sz + 1) div 2" using snd_pair_loop [of H items 0 0 sz] loop by simp
    then have le: "wp \<le> length items'" using wp(2) "1.prems" 3 by simp
    have "iterative_loop H items sz = iterative_loop H items' wp"
      using 3 loop by (simp add: iterative_loop.simps [of H items sz])
    also have "\<dots> = tree_root H (take wp items')"
      using "1.IH" loop le 3 by simp
    also have "\<dots> = tree_root H (take sz items)"
      using wp(1) tree_root_pair_up [of "take sz items" H] 3 "1.prems" by simp
    finally show ?thesis .
  qed (simp add: iterative_loop.simps tree_root_simps)
qed

lemma HashFromByteSlicesIterative_eq:
  "HashFromByteSlicesIterative H items = HashFromByteSlices H items"
  by (simp add: HashFromByteSlicesIterative_def iterative_loop_tree_root HashFromByteSlices_tree_root)

section \<open>Properties\<close>

text \<open>
  C31. The two root computations agree: for every hash function and every list of items the in-place
  iterative \<^verbatim>\<open>HashFromByteSlicesIterative\<close> returns the root of the recursive \<^verbatim>\<open>HashFromByteSlices\<close>.
\<close>

theorem Merkle_iterative_recursive:
  "HashFromByteSlicesIterative H items = HashFromByteSlices H items"
  by (rule HashFromByteSlicesIterative_eq)

text \<open>
  The split point: \<^verbatim>\<open>getSplitPoint\<close> panics below length 1, and from length 2 on it returns the
  largest power of two strictly below the length.
\<close>

theorem getSplitPoint_largest_power:
  assumes "2 \<le> len"
  shows "\<exists>m. getSplitPoint len = Ret (2 ^ m) \<and> 2 ^ m < len \<and> len \<le> 2 ^ Suc m"
proof -
  have two: "2 \<le> nat len" using assms by simp
  obtain m where m: "splitPoint (nat len) = 2 ^ m" "2 ^ m < nat len" "nat len \<le> 2 ^ Suc m"
    using splitPoint_spec [OF two] .
  then have "int (2 ^ m) < len" "len \<le> int (2 ^ Suc m)" by linarith+
  then show ?thesis using m(1) assms by (auto simp: getSplitPoint_def)
qed

theorem getSplitPoint_largest_power_witness:
  "\<exists>m. getSplitPoint 7 = Ret (2 ^ m) \<and> 2 ^ m < (7 :: int) \<and> (7 :: int) \<le> 2 ^ Suc m"
  using getSplitPoint_largest_power [of 7] by simp

end
