(* ===== verification/Merkle_Proof.thy ===== *)
theory Merkle_Proof
  imports Merkle
begin

text \<open>
  The inclusion proofs of \<^verbatim>\<open>crypto/merkle/proof.go\<close>. A nil hash is \<open>None\<close>. The graph of
  \<^verbatim>\<open>ProofNode\<close>s that \<^verbatim>\<open>trailsFromByteSlices\<close> builds with parent pointers is kept as one path per leaf:
  the leaf's node, its parent, and so on up to the current root. Linking a root to its new parent
  changes the last node of every path of that half.
\<close>

definition tmhash_Size :: nat where
  "tmhash_Size = 32"

definition MaxAunts :: nat where
  "MaxAunts = 100"

record Proof =
  Total :: int64
  Index :: int64
  LeafHash :: bytes
  Aunts :: "bytes list"

datatype proof_error =
    NegativeTotal
  | NegativeIndex
  | InvalidLeafHash bytes bytes
  | InvalidRootHash bytes "bytes option"
  | BadLeafHashSize nat
  | TooManyAunts nat
  | BadAuntSize nat nat
  | NilProof

function computeHashFromAunts :: "hashfn \<Rightarrow> int64 \<Rightarrow> int64 \<Rightarrow> bytes \<Rightarrow> bytes list \<Rightarrow> bytes option" where
  "computeHashFromAunts H idx tot leaf innerHashes =
     (if idx \<ge> tot \<or> idx < 0 \<or> tot \<le> 0 then None
      else if tot = 1 then (if length innerHashes \<noteq> 0 then None else Some leaf)
      else if length innerHashes = 0 then None
      else
        let numLeft = int (splitPoint (nat tot)) in
        if idx < numLeft then
          (case computeHashFromAunts H idx numLeft leaf (butlast innerHashes) of
             None \<Rightarrow> None
           | Some leftHash \<Rightarrow> Some (innerHash H leftHash (last innerHashes)))
        else
          (case computeHashFromAunts H (idx - numLeft) (tot - numLeft) leaf (butlast innerHashes) of
             None \<Rightarrow> None
           | Some rightHash \<Rightarrow> Some (innerHash H (last innerHashes) rightHash)))"
  by pat_completeness auto
termination
  by (relation "measure (\<lambda>(H, i, t, l, hs). length hs)") auto

declare computeHashFromAunts.simps [simp del]

definition Proof_ComputeRootHash :: "hashfn \<Rightarrow> Proof \<Rightarrow> bytes option" where
  "Proof_ComputeRootHash H sp = computeHashFromAunts H (Index sp) (Total sp) (LeafHash sp) (Aunts sp)"

text \<open>\<^verbatim>\<open>bytes.Equal\<close> on a slice that may be nil: nil equals the empty slice.\<close>

definition bytes_Equal :: "bytes option \<Rightarrow> bytes \<Rightarrow> bool" where
  "bytes_Equal a b = (case a of None \<Rightarrow> b = [] | Some x \<Rightarrow> x = b)"

definition Proof_Verify :: "hashfn \<Rightarrow> Proof \<Rightarrow> bytes \<Rightarrow> bytes \<Rightarrow> proof_error option" where
  "Proof_Verify H sp rootHash leaf =
     (let lh = leafHash H leaf in
      if Total sp < 0 then Some NegativeTotal
      else if Index sp < 0 then Some NegativeIndex
      else if LeafHash sp \<noteq> lh then Some (InvalidLeafHash lh (LeafHash sp))
      else
        let computedHash = Proof_ComputeRootHash H sp in
        if \<not> bytes_Equal computedHash rootHash then Some (InvalidRootHash rootHash computedHash)
        else None)"

fun check_aunts :: "nat \<Rightarrow> bytes list \<Rightarrow> proof_error option" where
  "check_aunts i [] = None"
| "check_aunts i (aunt # aunts) =
     (if length aunt \<noteq> tmhash_Size then Some (BadAuntSize i (length aunt)) else check_aunts (Suc i) aunts)"

definition Proof_ValidateBasic :: "Proof \<Rightarrow> proof_error option" where
  "Proof_ValidateBasic sp =
     (if Total sp < 0 then Some NegativeTotal
      else if Index sp < 0 then Some NegativeIndex
      else if length (LeafHash sp) \<noteq> tmhash_Size then Some (BadLeafHashSize (length (LeafHash sp)))
      else if length (Aunts sp) > MaxAunts then Some (TooManyAunts (length (Aunts sp)))
      else check_aunts 0 (Aunts sp))"

text \<open>The protobuf message has the same four fields.\<close>

record ProofPB =
  pb_Total :: int64
  pb_Index :: int64
  pb_LeafHash :: bytes
  pb_Aunts :: "bytes list"

definition Proof_ToProto :: "Proof option \<Rightarrow> ProofPB option" where
  "Proof_ToProto sp = (case sp of None \<Rightarrow> None
     | Some sp \<Rightarrow> Some \<lparr>pb_Total = Total sp, pb_Index = Index sp, pb_LeafHash = LeafHash sp, pb_Aunts = Aunts sp\<rparr>)"

definition ProofFromProto :: "ProofPB option \<Rightarrow> Proof option \<times> proof_error option" where
  "ProofFromProto pb = (case pb of None \<Rightarrow> (None, Some NilProof)
     | Some pb \<Rightarrow>
         let sp = \<lparr>Total = pb_Total pb, Index = pb_Index pb, LeafHash = pb_LeafHash pb, Aunts = pb_Aunts pb\<rparr>
         in (Some sp, Proof_ValidateBasic sp))"

section \<open>Generating the proofs\<close>

record ProofNode =
  pn_Hash :: bytes
  pn_Left :: "bytes option"
  pn_Right :: "bytes option"

type_synonym trail = "ProofNode list"

definition new_node :: "bytes \<Rightarrow> ProofNode" where
  "new_node h = \<lparr>pn_Hash = h, pn_Left = None, pn_Right = None\<rparr>"

definition link_left :: "bytes \<Rightarrow> ProofNode \<Rightarrow> trail \<Rightarrow> trail" where
  "link_left rightHash root t = butlast t @ [(last t)\<lparr>pn_Right := Some rightHash\<rparr>, root]"

definition link_right :: "bytes \<Rightarrow> ProofNode \<Rightarrow> trail \<Rightarrow> trail" where
  "link_right leftHash root t = butlast t @ [(last t)\<lparr>pn_Left := Some leftHash\<rparr>, root]"

fun FlattenAunts :: "trail \<Rightarrow> bytes list" where
  "FlattenAunts [] = []"
| "FlattenAunts (spn # parents) =
     (case pn_Left spn of
        Some h \<Rightarrow> h # FlattenAunts parents
      | None \<Rightarrow> (case pn_Right spn of
          Some h \<Rightarrow> h # FlattenAunts parents
        | None \<Rightarrow> FlattenAunts parents))"

function trailsFromByteSlices :: "hashfn \<Rightarrow> bytes list \<Rightarrow> trail list \<times> ProofNode" where
  "trailsFromByteSlices H items =
     (if length items = 0 then ([], new_node (emptyHash H))
      else if length items = 1 then
        let trail = new_node (leafHash H (items ! 0)) in ([[trail]], trail)
      else
        let k = splitPoint (length items);
            (lefts, leftRoot) = trailsFromByteSlices H (take k items);
            (rights, rightRoot) = trailsFromByteSlices H (drop k items);
            root = new_node (innerHash H (pn_Hash leftRoot) (pn_Hash rightRoot))
        in (map (link_left (pn_Hash rightRoot) root) lefts
              @ map (link_right (pn_Hash leftRoot) root) rights, root))"
  by pat_completeness auto
termination
proof (relation "measure (\<lambda>(H, items). length items)", goal_cases)
  case (2 H items k)
  then have "2 \<le> length items" by linarith
  then show ?case using splitPoint_range [of "length items"] 2(3) by simp
next
  case (3 H items k)
  then have "2 \<le> length items" by linarith
  then show ?case using splitPoint_range [of "length items"] 3(3) by auto
qed simp

declare trailsFromByteSlices.simps [simp del]

definition trail_proof :: "nat \<Rightarrow> nat \<Rightarrow> trail \<Rightarrow> Proof" where
  "trail_proof tot i t =
     \<lparr>Total = int tot, Index = int i, LeafHash = pn_Hash (hd t), Aunts = FlattenAunts t\<rparr>"

definition ProofsFromByteSlices :: "hashfn \<Rightarrow> bytes list \<Rightarrow> bytes \<times> Proof list" where
  "ProofsFromByteSlices H items =
     (let (trails, rootSPN) = trailsFromByteSlices H items
      in (pn_Hash rootSPN, map (\<lambda>(i, t). trail_proof (length items) i t) (List.enumerate 0 trails)))"

section \<open>Every generated proof verifies\<close>

lemma FlattenAunts_append: "FlattenAunts (xs @ ys) = FlattenAunts xs @ FlattenAunts ys"
  by (induction xs) (auto split: option.splits)

lemma FlattenAunts_new_node: "FlattenAunts [new_node h] = []"
  by (simp add: new_node_def)

text \<open>A trail of a finished subtree ends in its root, which has no siblings yet.\<close>

definition ends_in :: "ProofNode \<Rightarrow> trail \<Rightarrow> bool" where
  "ends_in root t \<longleftrightarrow> t \<noteq> [] \<and> last t = root"

lemma ends_in_split: "ends_in root t \<Longrightarrow> t = butlast t @ [root]"
  by (metis append_butlast_last_id ends_in_def)

lemma FlattenAunts_link:
  assumes "ends_in (new_node h) t"
  shows "FlattenAunts (link_left r (new_node h') t) = FlattenAunts t @ [r]"
    and "FlattenAunts (link_right r (new_node h') t) = FlattenAunts t @ [r]"
proof -
  have "FlattenAunts t = FlattenAunts (butlast t)"
    using ends_in_split [OF assms] FlattenAunts_append [of "butlast t" "[new_node h]"]
    by (simp only: FlattenAunts_new_node append_Nil2)
  moreover have "last t = new_node h" using assms by (simp add: ends_in_def)
  ultimately show "FlattenAunts (link_left r (new_node h') t) = FlattenAunts t @ [r]"
    and "FlattenAunts (link_right r (new_node h') t) = FlattenAunts t @ [r]"
    by (simp_all add: link_left_def link_right_def FlattenAunts_append new_node_def)
qed

lemma link_shape:
  assumes "ends_in (new_node h) t"
  shows "ends_in root (link_left r root t)" "ends_in root (link_right r root t)"
    "pn_Hash (hd (link_left r root t)) = pn_Hash (hd t)"
    "pn_Hash (hd (link_right r root t)) = pn_Hash (hd t)"
  using assms by (cases t; cases "tl t"; simp add: ends_in_def link_left_def link_right_def)+

lemma computeHashFromAunts_left:
  assumes "2 \<le> tot" and "0 \<le> i" and "i < int (splitPoint (nat tot))"
    and "computeHashFromAunts H i (int (splitPoint (nat tot))) leaf aunts = Some l"
  shows "computeHashFromAunts H i tot leaf (aunts @ [a]) = Some (innerHash H l a)"
proof -
  have "splitPoint (nat tot) < nat tot" using splitPoint_range [of "nat tot"] assms(1) by simp
  then have "i < tot" using assms(3) by simp
  then show ?thesis using assms by (subst computeHashFromAunts.simps) (simp add: Let_def)
qed

lemma computeHashFromAunts_right:
  assumes "2 \<le> tot" and "int (splitPoint (nat tot)) \<le> i" and "i < tot"
    and "computeHashFromAunts H (i - int (splitPoint (nat tot))) (tot - int (splitPoint (nat tot)))
           leaf aunts = Some r"
  shows "computeHashFromAunts H i tot leaf (aunts @ [a]) = Some (innerHash H a r)"
  using assms by (subst computeHashFromAunts.simps) (simp add: Let_def)

lemma HashFromByteSlices_length: "\<forall>x. length (H x) = n \<Longrightarrow> length (HashFromByteSlices H items) = n"
  by (subst HashFromByteSlices.simps) (simp add: emptyHash_def leafHash_def innerHash_def Let_def)

definition trail_ok :: "hashfn \<Rightarrow> bytes list \<Rightarrow> nat \<Rightarrow> trail \<Rightarrow> bool" where
  "trail_ok H items i t \<longleftrightarrow>
     ends_in (new_node (HashFromByteSlices H items)) t
     \<and> pn_Hash (hd t) = leafHash H (items ! i)
     \<and> computeHashFromAunts H (int i) (int (length items)) (leafHash H (items ! i)) (FlattenAunts t)
         = Some (HashFromByteSlices H items)
     \<and> (\<forall>b. length items \<le> 2 ^ b \<longrightarrow> length (FlattenAunts t) \<le> b)
     \<and> (\<forall>n. (\<forall>x. length (H x) = n) \<longrightarrow> (\<forall>a \<in> set (FlattenAunts t). length a = n))"

lemma link_left_ok:
  assumes len: "2 \<le> length items" and k: "k = splitPoint (length items)"
    and ok: "trail_ok H (take k items) i t" and i: "i < k"
  shows "trail_ok H items i
    (link_left (HashFromByteSlices H (drop k items)) (new_node (HashFromByteSlices H items)) t)"
proof -
  let ?L = "HashFromByteSlices H (take k items)" and ?R = "HashFromByteSlices H (drop k items)"
  have k': "0 < k" "k < length items" using splitPoint_range [OF len] k by auto
  have root: "HashFromByteSlices H items = innerHash H ?L ?R"
    using HashFromByteSlices_split [OF len] k by simp
  have t: "ends_in (new_node ?L) t" "pn_Hash (hd t) = leafHash H (items ! i)"
    using ok i by (auto simp: trail_ok_def)
  note flat = FlattenAunts_link(1) [OF t(1)]
  have "computeHashFromAunts H (int i) (int k) (leafHash H (items ! i)) (FlattenAunts t) = Some ?L"
    using ok i k' by (simp add: trail_ok_def)
  then have comp: "computeHashFromAunts H (int i) (int (length items)) (leafHash H (items ! i)) (FlattenAunts t @ [?R])
      = Some (innerHash H ?L ?R)"
    by (intro computeHashFromAunts_left) (use len k i in simp_all)
  have depth: "length (FlattenAunts t) < b" if "length items \<le> 2 ^ b" for b
  proof -
    obtain m where m: "k = 2 ^ m" by (rule splitPoint_spec [OF len]) (simp add: k)
    then have "(2::nat) ^ m < 2 ^ b" using less_le_trans [OF k'(2) that] by simp
    then have "m < b" by simp
    moreover have "length (FlattenAunts t) \<le> m" using ok m k' by (simp add: trail_ok_def)
    ultimately show ?thesis by simp
  qed
  have size: "\<forall>a \<in> set (FlattenAunts t @ [?R]). length a = n" if "\<forall>x. length (H x) = n" for n
    using ok that HashFromByteSlices_length [of H n] by (auto simp: trail_ok_def)
  show ?thesis
    unfolding trail_ok_def flat root
    by (intro conjI allI impI link_shape [OF t(1)] comp size)
      (simp_all add: link_shape [OF t(1)] t(2) Suc_le_eq depth)
qed

lemma link_right_ok:
  assumes len: "2 \<le> length items" and k: "k = splitPoint (length items)"
    and ok: "trail_ok H (drop k items) i t" and i: "i < length items - k"
  shows "trail_ok H items (k + i)
    (link_right (HashFromByteSlices H (take k items)) (new_node (HashFromByteSlices H items)) t)"
proof -
  let ?L = "HashFromByteSlices H (take k items)" and ?R = "HashFromByteSlices H (drop k items)"
  have k': "0 < k" "k < length items" using splitPoint_range [OF len] k by auto
  have root: "HashFromByteSlices H items = innerHash H ?L ?R"
    using HashFromByteSlices_split [OF len] k by simp
  have t: "ends_in (new_node ?R) t" "pn_Hash (hd t) = leafHash H (items ! (k + i))"
    using ok i k' by (auto simp: trail_ok_def)
  note flat = FlattenAunts_link(2) [OF t(1)]
  have "computeHashFromAunts H (int i) (int (length items - k)) (leafHash H (items ! (k + i))) (FlattenAunts t)
      = Some ?R"
    using ok i k' by (simp add: trail_ok_def)
  then have comp: "computeHashFromAunts H (int (k + i)) (int (length items)) (leafHash H (items ! (k + i)))
      (FlattenAunts t @ [?L]) = Some (innerHash H ?L ?R)"
    by (intro computeHashFromAunts_right) (use len k k' i in \<open>simp_all add: of_nat_diff\<close>)
  have depth: "length (FlattenAunts t) < b" if "length items \<le> 2 ^ b" for b
  proof -
    obtain m where m: "k = 2 ^ m" "length items \<le> 2 ^ Suc m"
      by (rule splitPoint_spec [OF len]) (simp add: k)
    then have "(2::nat) ^ m < 2 ^ b" using less_le_trans [OF k'(2) that] by simp
    then have "m < b" by simp
    moreover have "length (FlattenAunts t) \<le> m" using ok m k' by (simp add: trail_ok_def)
    ultimately show ?thesis by simp
  qed
  have size: "\<forall>a \<in> set (FlattenAunts t @ [?L]). length a = n" if "\<forall>x. length (H x) = n" for n
    using ok that HashFromByteSlices_length [of H n] by (auto simp: trail_ok_def)
  show ?thesis
    unfolding trail_ok_def flat root
    by (intro conjI allI impI link_shape [OF t(1)] comp size)
      (simp_all add: link_shape [OF t(1)] t(2) Suc_le_eq depth)
qed

lemma trailsFromByteSlices_split:
  assumes "2 \<le> length items" and "trailsFromByteSlices H (take (splitPoint (length items)) items) = (ls, lr)"
    and "trailsFromByteSlices H (drop (splitPoint (length items)) items) = (rs, rr)"
  shows "trailsFromByteSlices H items =
    (let root = new_node (innerHash H (pn_Hash lr) (pn_Hash rr))
     in (map (link_left (pn_Hash rr) root) ls @ map (link_right (pn_Hash lr) root) rs, root))"
proof -
  have "length items \<noteq> 0" "length items \<noteq> 1" using assms(1) by auto
  then show ?thesis using assms by (simp add: trailsFromByteSlices.simps [of H items] Let_def)
qed

lemma trailsFromByteSlices_ok:
  assumes "trailsFromByteSlices H items = (trails, root)"
  shows "root = new_node (HashFromByteSlices H items) \<and> length trails = length items
    \<and> (\<forall>i < length items. trail_ok H items i (trails ! i))"
  using assms
proof (induction H items arbitrary: trails root rule: trailsFromByteSlices.induct)
  case (1 H items)
  consider "items = []" | x where "items = [x]" | "2 \<le> length items"
    by (cases items rule: remdups_adj.cases) auto
  then show ?case
  proof cases
    case 1
    then show ?thesis
      using "1.prems" by (auto simp: trailsFromByteSlices.simps HashFromByteSlices.simps)
  next
    case 2
    then show ?thesis
      using "1.prems"
      by (auto simp: trailsFromByteSlices.simps HashFromByteSlices.simps trail_ok_def ends_in_def
          new_node_def computeHashFromAunts.simps Let_def)
  next
    case 3
    define k where "k = splitPoint (length items)"
    have k: "0 < k" "k < length items" using splitPoint_range [OF 3] k_def by auto
    obtain ls lr where L: "trailsFromByteSlices H (take k items) = (ls, lr)" by fastforce
    obtain rs rr where R: "trailsFromByteSlices H (drop k items) = (rs, rr)" by fastforce
    have ne: "length items \<noteq> 0" "length items \<noteq> 1" using 3 by auto
    have IHL: "lr = new_node (HashFromByteSlices H (take k items))" "length ls = k"
        "\<And>i. i < k \<Longrightarrow> trail_ok H (take k items) i (ls ! i)"
      using "1.IH"(1) [OF ne k_def L] k by auto
    have IHR: "rr = new_node (HashFromByteSlices H (drop k items))" "length rs = length items - k"
        "\<And>i. i < length items - k \<Longrightarrow> trail_ok H (drop k items) i (rs ! i)"
      using "1.IH"(2) [OF ne k_def L [symmetric] refl R] k by auto
    have root: "HashFromByteSlices H items
        = innerHash H (HashFromByteSlices H (take k items)) (HashFromByteSlices H (drop k items))"
      using HashFromByteSlices_split [OF 3] k_def by simp
    let ?root = "new_node (HashFromByteSlices H items)"
    let ?ts = "map (link_left (HashFromByteSlices H (drop k items)) ?root) ls
      @ map (link_right (HashFromByteSlices H (take k items)) ?root) rs"
    have res: "trails = ?ts" "root = ?root"
      using "1.prems" trailsFromByteSlices_split [OF 3 L [unfolded k_def] R [unfolded k_def]]
        IHL(1) IHR(1) root k_def
      by (auto simp: new_node_def Let_def)
    have "trail_ok H items i (?ts ! i)" if i: "i < length items" for i
    proof (cases "i < k")
      case True
      then show ?thesis using link_left_ok [OF 3 k_def IHL(3)] IHL(2) by (simp add: nth_append)
    next
      case False
      then show ?thesis
        using link_right_ok [OF 3 k_def IHR(3) , of "i - k"] IHL(2) IHR(2) i by (simp add: nth_append)
    qed
    then show ?thesis using res IHL(2) IHR(2) k by simp
  qed
qed

lemma check_aunts_ok: "check_aunts i aunts = None \<longleftrightarrow> (\<forall>a \<in> set aunts. length a = tmhash_Size)"
  by (induction i aunts rule: check_aunts.induct) auto

lemma ProofsFromByteSlices_root: "fst (ProofsFromByteSlices H items) = HashFromByteSlices H items"
proof -
  obtain ts root where "trailsFromByteSlices H items = (ts, root)" by fastforce
  then show ?thesis
    using trailsFromByteSlices_ok [of H items ts root] by (simp add: ProofsFromByteSlices_def new_node_def)
qed

lemma ProofsFromByteSlices_nth:
  assumes "i < length items"
  obtains t where "snd (ProofsFromByteSlices H items) ! i = trail_proof (length items) i t"
    and "trail_ok H items i t"
proof -
  obtain ts root where "trailsFromByteSlices H items = (ts, root)" by fastforce
  then show thesis
    using trailsFromByteSlices_ok [of H items ts root] that [of "ts ! i"] assms
    by (simp add: ProofsFromByteSlices_def nth_enumerate_eq)
qed

lemma length_ProofsFromByteSlices: "length (snd (ProofsFromByteSlices H items)) = length items"
proof -
  obtain ts root where "trailsFromByteSlices H items = (ts, root)" by fastforce
  then show ?thesis
    using trailsFromByteSlices_ok [of H items ts root] by (simp add: ProofsFromByteSlices_def)
qed

lemma generated_proof_Verify:
  assumes "i < length items"
  shows "Proof_Verify H (snd (ProofsFromByteSlices H items) ! i) (HashFromByteSlices H items) (items ! i) = None"
  by (rule ProofsFromByteSlices_nth [OF assms, of H])
    (simp add: Proof_Verify_def trail_proof_def trail_ok_def Proof_ComputeRootHash_def bytes_Equal_def Let_def)

lemma generated_proof_ValidateBasic:
  assumes "i < length items" and "length items \<le> 2 ^ MaxAunts" and "\<forall>x. length (H x) = tmhash_Size"
  shows "Proof_ValidateBasic (snd (ProofsFromByteSlices H items) ! i) = None"
proof -
  obtain t where t: "snd (ProofsFromByteSlices H items) ! i = trail_proof (length items) i t"
    "trail_ok H items i t"
    using ProofsFromByteSlices_nth [OF assms(1), of H] .
  then have "length (FlattenAunts t) \<le> MaxAunts" "pn_Hash (hd t) = leafHash H (items ! i)"
    "\<forall>a \<in> set (FlattenAunts t). length a = tmhash_Size"
    using assms by (auto simp: trail_ok_def)
  then show ?thesis
    using t(1) assms(3) by (simp add: Proof_ValidateBasic_def trail_proof_def check_aunts_ok leafHash_def)
qed

section \<open>A verified proof is for the right leaf\<close>

text \<open>
  Every hash of fixed size has collisions, so what is excluded is a concrete one: two different byte strings
  with the same hash, one hashed while the root was computed and one hashed while the proof was checked.
\<close>

definition clash :: "hashfn \<Rightarrow> bytes list \<Rightarrow> bytes list \<Rightarrow> bool" where
  "clash H xs ys \<longleftrightarrow> (\<exists>x \<in> set xs. \<exists>y \<in> set ys. x \<noteq> y \<and> H x = H y)"

function tree_inputs :: "hashfn \<Rightarrow> bytes list \<Rightarrow> bytes list" where
  "tree_inputs H hs =
     (if length hs < 2 then []
      else let k = splitPoint (length hs)
           in (1 # tree_root H (take k hs) @ tree_root H (drop k hs)) # tree_inputs H (take k hs) @ tree_inputs H (drop k hs))"
  by pat_completeness auto
termination
proof (relation "measure (\<lambda>(H, hs). length hs)", goal_cases)
  case (2 H hs k)
  then show ?case using splitPoint_range [of "length hs"] by simp
next
  case (3 H hs k)
  then show ?case using splitPoint_range [of "length hs"] by auto
qed simp

declare tree_inputs.simps [simp del]

lemma tree_inputs_step:
  "2 \<le> length hs \<Longrightarrow> tree_inputs H hs =
     (1 # tree_root H (take (splitPoint (length hs)) hs) @ tree_root H (drop (splitPoint (length hs)) hs))
       # tree_inputs H (take (splitPoint (length hs)) hs) @ tree_inputs H (drop (splitPoint (length hs)) hs)"
  by (simp add: tree_inputs.simps [of H hs] Let_def)

function aunt_inputs :: "hashfn \<Rightarrow> int64 \<Rightarrow> int64 \<Rightarrow> bytes \<Rightarrow> bytes list \<Rightarrow> bytes list" where
  "aunt_inputs H idx tot leaf aunts =
     (if aunts = [] then []
      else
        let numLeft = int (splitPoint (nat tot)) in
        if idx < numLeft then
          (case computeHashFromAunts H idx numLeft leaf (butlast aunts) of
             None \<Rightarrow> []
           | Some l \<Rightarrow> (1 # l @ last aunts) # aunt_inputs H idx numLeft leaf (butlast aunts))
        else
          (case computeHashFromAunts H (idx - numLeft) (tot - numLeft) leaf (butlast aunts) of
             None \<Rightarrow> []
           | Some r \<Rightarrow> (1 # last aunts @ r) # aunt_inputs H (idx - numLeft) (tot - numLeft) leaf (butlast aunts)))"
  by pat_completeness auto
termination
  by (relation "measure (\<lambda>(H, i, t, l, hs). length hs)") auto

declare aunt_inputs.simps [simp del]

text \<open>The byte strings hashed for the root of a list of items, and for the check of a proof.\<close>

definition root_inputs :: "hashfn \<Rightarrow> bytes list \<Rightarrow> bytes list" where
  "root_inputs H items = map (\<lambda>x. 0 # x) items @ tree_inputs H (map (leafHash H) items)"

definition proof_inputs :: "hashfn \<Rightarrow> Proof \<Rightarrow> bytes \<Rightarrow> bytes list" where
  "proof_inputs H sp leaf = (0 # leaf) # aunt_inputs H (Index sp) (Total sp) (leafHash H leaf) (Aunts sp)"

lemma clash_mono: "clash H xs ys \<Longrightarrow> set xs \<subseteq> set xs' \<Longrightarrow> set ys \<subseteq> set ys' \<Longrightarrow> clash H xs' ys'"
  unfolding clash_def by blast

lemma clashI: "x \<in> set xs \<Longrightarrow> y \<in> set ys \<Longrightarrow> H x = H y \<Longrightarrow> x = y \<or> clash H xs ys"
  unfolding clash_def by blast

lemma tree_root_length:
  "\<lbrakk>\<forall>x. length (H x) = n; \<forall>h \<in> set hs. length h = n\<rbrakk> \<Longrightarrow> length (tree_root H hs) = n"
  by (subst tree_root.simps) (auto simp: emptyHash_def innerHash_def Let_def)

lemma computeHashFromAunts_length:
  "\<lbrakk>computeHashFromAunts H i t lh aunts = Some h; \<forall>x. length (H x) = n; length lh = n\<rbrakk> \<Longrightarrow> length h = n"
  by (subst (asm) computeHashFromAunts.simps)
    (auto simp: innerHash_def Let_def split: if_splits option.splits)

lemma computeHashFromAunts_range:
  "computeHashFromAunts H i t lh aunts = Some h \<Longrightarrow> 0 \<le> i \<and> i < t"
  by (subst (asm) computeHashFromAunts.simps) (auto split: if_splits)

lemma computeHashFromAunts_Nil:
  "computeHashFromAunts H i t lh [] = Some h \<longleftrightarrow> i = 0 \<and> t = 1 \<and> h = lh"
  by (subst computeHashFromAunts.simps) auto

lemma computeHashFromAunts_one: "aunts \<noteq> [] \<Longrightarrow> computeHashFromAunts H i 1 lh aunts = None"
  by (subst computeHashFromAunts.simps) auto

lemma computeHashFromAunts_SomeE:
  assumes "computeHashFromAunts H i t lh aunts = Some h" and "aunts \<noteq> []"
  obtains (left) l where "i < int (splitPoint (nat t))" and "h = H (1 # l @ last aunts)"
      and "computeHashFromAunts H i (int (splitPoint (nat t))) lh (butlast aunts) = Some l"
      and "aunt_inputs H i t lh aunts = (1 # l @ last aunts) # aunt_inputs H i (int (splitPoint (nat t))) lh (butlast aunts)"
  | (right) r where "int (splitPoint (nat t)) \<le> i" and "h = H (1 # last aunts @ r)"
      and "computeHashFromAunts H (i - int (splitPoint (nat t))) (t - int (splitPoint (nat t))) lh
             (butlast aunts) = Some r"
      and "aunt_inputs H i t lh aunts = (1 # last aunts @ r)
             # aunt_inputs H (i - int (splitPoint (nat t))) (t - int (splitPoint (nat t))) lh (butlast aunts)"
proof (cases "i < int (splitPoint (nat t))")
  case True
  obtain l where "computeHashFromAunts H i (int (splitPoint (nat t))) lh (butlast aunts) = Some l" "h = H (1 # l @ last aunts)"
    using assms True by (subst (asm) computeHashFromAunts.simps) (auto simp: Let_def innerHash_def split: if_splits option.splits)
  then show thesis using left True assms(2) by (simp add: aunt_inputs.simps [of H i t lh aunts])
next
  case False
  obtain r where "computeHashFromAunts H (i - int (splitPoint (nat t))) (t - int (splitPoint (nat t))) lh (butlast aunts) = Some r"
      "h = H (1 # last aunts @ r)"
    using assms False by (subst (asm) computeHashFromAunts.simps) (auto simp: Let_def innerHash_def split: if_splits option.splits)
  then show thesis using right False assms(2) by (simp add: aunt_inputs.simps [of H i t lh aunts] Let_def)
qed

lemma node_inj:
  assumes "H (1 # a @ b) = H (1 # c @ d)" and "1 # a @ b \<in> set xs" and "1 # c @ d \<in> set ys" and "\<not> clash H xs ys"
    and "length a = length c \<or> length b = length d"
  shows "a = c \<and> b = d"
  using clashI [OF assms(2,3,1)] assms(4,5) by auto

lemma computeHashFromAunts_sound:
  assumes "computeHashFromAunts H i (int (length hs)) lh aunts = Some (tree_root H hs)"
    and "\<forall>x. length (H x) = n" and "\<forall>h \<in> set hs. length h = n" and "\<forall>a \<in> set aunts. length a = n"
    and "\<not> clash H (tree_inputs H hs) (aunt_inputs H i (int (length hs)) lh aunts)"
  shows "lh = hs ! nat i"
  using assms
proof (induction "length aunts" arbitrary: aunts i hs)
  case 0
  then have "length hs = 1" "i = 0" "lh = tree_root H hs"
    by (auto simp: computeHashFromAunts_Nil)
  then show ?case by (auto simp: length_Suc_conv tree_root_simps)
next
  case (Suc m)
  let ?k = "splitPoint (length hs)"
  have ne: "aunts \<noteq> []" using Suc.hyps(2) by auto
  have i: "0 \<le> i" "i < int (length hs)" using computeHashFromAunts_range Suc.prems(1) by auto
  have two: "2 \<le> length hs"
    using Suc.prems(1) i ne by (cases "length hs = 1") (auto simp: computeHashFromAunts_one)
  have k: "0 < ?k" "?k < length hs" using splitPoint_range [OF two] by auto
  note root = tree_root_simps(3) [OF two, of H, unfolded innerHash_def] and ins = tree_inputs_step [OF two, of H]
  have len: "length (tree_root H (take ?k hs)) = n" "length (tree_root H (drop ?k hs)) = n"
    by (rule tree_root_length; use Suc.prems(2,3) in \<open>auto dest: in_set_takeD in_set_dropD\<close>)+
  have m: "m = length (butlast aunts)" "\<forall>a \<in> set (butlast aunts). length a = n" "length (last aunts) = n"
    using Suc.hyps(2) Suc.prems(4) ne by (auto dest: in_set_butlastD)
  have nc: "\<not> clash H (tree_inputs H hs) ys" if "set ys \<subseteq> set (aunt_inputs H i (int (length hs)) lh aunts)" for ys
    using Suc.prems(5) clash_mono that by blast
  have sub: "\<not> clash H (tree_inputs H (take ?k hs)) ys" "\<not> clash H (tree_inputs H (drop ?k hs)) ys"
    if "set ys \<subseteq> set (aunt_inputs H i (int (length hs)) lh aunts)" for ys
    using nc [OF that] clash_mono [of H _ ys "tree_inputs H hs" ys] unfolding ins by auto
  from Suc.prems(1) ne show ?case
  proof (cases rule: computeHashFromAunts_SomeE)
    case (left l)
    have eq: "tree_root H (take ?k hs) = l"
      using node_inj [OF _ _ _ Suc.prems(5), of "tree_root H (take ?k hs)" "tree_root H (drop ?k hs)" l "last aunts"]
        left(2,4) root ins len m(3) by simp
    have "lh = take ?k hs ! nat i"
      by (rule Suc.hyps(1) [OF m(1)])
        (use left(3,4) eq k m(2) Suc.prems(2,3) sub(1) in \<open>auto dest: in_set_takeD\<close>)
    then show ?thesis using left(1) i by simp
  next
    case (right r)
    have eq: "tree_root H (drop ?k hs) = r"
      using node_inj [OF _ _ _ Suc.prems(5), of "tree_root H (take ?k hs)" "tree_root H (drop ?k hs)" "last aunts" r]
        right(2,4) root ins len m(3) by simp
    have "lh = drop ?k hs ! nat (i - int ?k)"
      by (rule Suc.hyps(1) [OF m(1)])
        (use right(3,4) eq k m(2) Suc.prems(2,3) sub(2) in \<open>auto simp: of_nat_diff dest: in_set_dropD\<close>)
    then show ?thesis using right(1) i k by (simp add: nat_diff_distrib)
  qed
qed

text \<open>Whatever index and total a proof states, what it proves is one of the items.\<close>

lemma computeHashFromAunts_member:
  assumes "computeHashFromAunts H i t (leafHash H leaf) aunts = Some (tree_root H (map (leafHash H) items))"
    and "items \<noteq> []" and "\<forall>x. length (H x) = n" and "\<forall>a \<in> set aunts. length a = n"
    and "\<not> clash H (root_inputs H items) ((0 # leaf) # aunt_inputs H i t (leafHash H leaf) aunts)"
  shows "leaf \<in> set items"
  using assms
proof (induction "length aunts" arbitrary: aunts i t items)
  case 0
  then have root: "leafHash H leaf = tree_root H (map (leafHash H) items)" by (auto simp: computeHashFromAunts_Nil)
  show ?case
  proof (cases "2 \<le> length items")
    case True
    let ?k = "splitPoint (length items)" and ?hs = "map (leafHash H) items"
    let ?y = "1 # tree_root H (take ?k ?hs) @ tree_root H (drop ?k ?hs)"
    have "?y \<in> set (root_inputs H items)" using True tree_inputs_step [of ?hs H] by (simp add: root_inputs_def)
    moreover have "H (0 # leaf) = H ?y"
      using root tree_root_simps(3) [of ?hs H] True by (simp add: leafHash_def innerHash_def)
    ultimately show ?thesis using 0(6) by (force simp: clash_def)
  next
    case False
    then obtain x where x: "items = [x]" using 0(3) by (cases items; cases "tl items") auto
    then have "H (0 # x) = H (0 # leaf)" using root by (simp add: tree_root_simps leafHash_def)
    then show ?thesis using 0(6) x by (auto simp: clash_def root_inputs_def)
  qed
next
  case (Suc m)
  let ?k = "splitPoint (length items)" and ?hs = "map (leafHash H) items"
  have ne: "aunts \<noteq> []" using Suc.hyps(2) by auto
  have m: "m = length (butlast aunts)" "\<forall>a \<in> set (butlast aunts). length a = n" "length (last aunts) = n"
    using Suc.hyps(2) Suc.prems(4) ne by (auto dest: in_set_butlastD)
  have two: "2 \<le> length items"
  proof (rule ccontr)
    assume "\<not> 2 \<le> length items"
    then obtain x where x: "items = [x]" using Suc.prems(2) by (cases items; cases "tl items") auto
    obtain c where c: "1 # c \<in> set (aunt_inputs H i t (leafHash H leaf) aunts)" "H (0 # x) = H (1 # c)"
    proof (rule computeHashFromAunts_SomeE [OF Suc.prems(1) ne])
      fix l assume "tree_root H ?hs = H (1 # l @ last aunts)"
        "aunt_inputs H i t (leafHash H leaf) aunts = (1 # l @ last aunts)
          # aunt_inputs H i (int (splitPoint (nat t))) (leafHash H leaf) (butlast aunts)"
      then show thesis using that [of "l @ last aunts"] x by (simp add: tree_root_simps leafHash_def)
    next
      fix r assume "tree_root H ?hs = H (1 # last aunts @ r)"
        "aunt_inputs H i t (leafHash H leaf) aunts = (1 # last aunts @ r)
          # aunt_inputs H (i - int (splitPoint (nat t))) (t - int (splitPoint (nat t))) (leafHash H leaf) (butlast aunts)"
      then show thesis using that [of "last aunts @ r"] x by (simp add: tree_root_simps leafHash_def)
    qed
    then show False using Suc.prems(5) x by (auto simp: clash_def root_inputs_def)
  qed
  then have k: "0 < ?k" "?k < length items" using splitPoint_range [OF two] by auto
  have two': "2 \<le> length ?hs" using two by simp
  note root = tree_root_simps(3) [OF two', of H, unfolded innerHash_def] and ins = tree_inputs_step [OF two', of H]
  have all: "\<forall>h \<in> set ?hs. length h = n" using Suc.prems(3) by (auto simp: leafHash_def)
  have len: "length (tree_root H (take ?k ?hs)) = n" "length (tree_root H (drop ?k ?hs)) = n"
    using all Suc.prems(3) by (meson tree_root_length in_set_takeD in_set_dropD)+
  have sub: "\<not> clash H (root_inputs H (take ?k items)) ((0 # leaf) # ys)" "\<not> clash H (root_inputs H (drop ?k items)) ((0 # leaf) # ys)"
    if "set ys \<subseteq> set (aunt_inputs H i t (leafHash H leaf) aunts)" for ys
  proof -
    have a: "set ((0 # leaf) # ys) \<subseteq> set ((0 # leaf) # aunt_inputs H i t (leafHash H leaf) aunts)" using that by auto
    have b: "set (root_inputs H (take ?k items)) \<subseteq> set (root_inputs H items)"
        "set (root_inputs H (drop ?k items)) \<subseteq> set (root_inputs H items)"
      unfolding root_inputs_def ins using take_map [of ?k "leafHash H" items] drop_map [of ?k "leafHash H" items]
      by (auto dest: in_set_takeD in_set_dropD)
    show "\<not> clash H (root_inputs H (take ?k items)) ((0 # leaf) # ys)" using clash_mono [OF _ b(1) a] Suc.prems(5) by blast
    show "\<not> clash H (root_inputs H (drop ?k items)) ((0 # leaf) # ys)" using clash_mono [OF _ b(2) a] Suc.prems(5) by blast
  qed
  from Suc.prems(1) ne show ?case
  proof (cases rule: computeHashFromAunts_SomeE)
    case (left l)
    have eq: "tree_root H (take ?k ?hs) = l"
      using node_inj [OF _ _ _ Suc.prems(5), of "tree_root H (take ?k ?hs)" "tree_root H (drop ?k ?hs)" l "last aunts"]
        left(2,4) root ins len m(3) by (simp add: root_inputs_def)
    have "leaf \<in> set (take ?k items)"
      by (rule Suc.hyps(1) [OF m(1)]) (use left(3,4) eq k m(2) Suc.prems(3) sub(1) in \<open>auto simp: take_map\<close>)
    then show ?thesis by (rule in_set_takeD)
  next
    case (right r)
    have eq: "tree_root H (drop ?k ?hs) = r"
      using node_inj [OF _ _ _ Suc.prems(5), of "tree_root H (take ?k ?hs)" "tree_root H (drop ?k ?hs)" "last aunts" r]
        right(2,4) root ins len m(3) by (simp add: root_inputs_def)
    have "leaf \<in> set (drop ?k items)"
      by (rule Suc.hyps(1) [OF m(1)]) (use right(3,4) eq k m(2) Suc.prems(3) sub(2) in \<open>auto simp: drop_map\<close>)
    then show ?thesis by (rule in_set_dropD)
  qed
qed

lemma Proof_Verify_root:
  assumes "\<forall>x. length (H x) = tmhash_Size" and "Proof_Verify H sp (HashFromByteSlices H items) leaf = None"
  shows "LeafHash sp = leafHash H leaf"
    and "computeHashFromAunts H (Index sp) (Total sp) (leafHash H leaf) (Aunts sp) = Some (tree_root H (map (leafHash H) items))"
proof -
  show lh: "LeafHash sp = leafHash H leaf" using assms(2) by (auto simp: Proof_Verify_def Let_def split: if_splits)
  have "HashFromByteSlices H items \<noteq> []"
    using HashFromByteSlices_length [OF assms(1), of items] by (auto simp: tmhash_Size_def)
  then show "computeHashFromAunts H (Index sp) (Total sp) (leafHash H leaf) (Aunts sp) = Some (tree_root H (map (leafHash H) items))"
    using assms(2) lh
    by (auto simp: Proof_Verify_def Let_def bytes_Equal_def Proof_ComputeRootHash_def
        HashFromByteSlices_tree_root split: if_splits option.splits)
qed

lemma Proof_Verify_member:
  assumes "\<forall>x. length (H x) = tmhash_Size" and "Proof_ValidateBasic sp = None" and "items \<noteq> []"
    and "Proof_Verify H sp (HashFromByteSlices H items) leaf = None"
  shows "leaf \<in> set items \<or> clash H (root_inputs H items) (proof_inputs H sp leaf)"
  using computeHashFromAunts_member [OF Proof_Verify_root(2) [OF assms(1,4)] assms(3,1)] assms(2)
  by (auto simp: proof_inputs_def Proof_ValidateBasic_def check_aunts_ok split: if_splits)

text \<open>
  A proof that passes \<^verbatim>\<open>ValidateBasic\<close> and \<^verbatim>\<open>Verify\<close> against the root of the items, for their
  number, is for the item at its index, unless it shows a collision of the hash.
\<close>

lemma Proof_Verify_sound:
  assumes size: "\<forall>x. length (H x) = tmhash_Size"
    and valid: "Proof_ValidateBasic sp = None"
    and tot: "Total sp = int (length items)"
    and ver: "Proof_Verify H sp (HashFromByteSlices H items) leaf = None"
  shows "0 \<le> Index sp \<and> Index sp < Total sp
    \<and> (leaf = items ! nat (Index sp) \<or> clash H (root_inputs H items) (proof_inputs H sp leaf))"
proof -
  note root = Proof_Verify_root(2) [OF size ver]
  note range = computeHashFromAunts_range [OF root]
  have "leaf = items ! nat (Index sp)" if nc: "\<not> clash H (root_inputs H items) (proof_inputs H sp leaf)"
  proof -
    have "\<not> clash H (tree_inputs H (map (leafHash H) items)) (aunt_inputs H (Index sp) (Total sp) (leafHash H leaf) (Aunts sp))"
      using nc clash_mono [of H _ _ "root_inputs H items" "proof_inputs H sp leaf"] by (auto simp: root_inputs_def proof_inputs_def)
    then have "leafHash H leaf = map (leafHash H) items ! nat (Index sp)"
      using computeHashFromAunts_sound [of H "Index sp" "map (leafHash H) items" "leafHash H leaf" "Aunts sp" tmhash_Size]
        root tot size valid by (auto simp: Proof_ValidateBasic_def check_aunts_ok leafHash_def split: if_splits)
    then have "H (0 # items ! nat (Index sp)) = H (0 # leaf)" using range tot by (simp add: nat_less_iff leafHash_def)
    then show ?thesis
      using nc range tot clashI [of "0 # items ! nat (Index sp)" "root_inputs H items" "0 # leaf" "proof_inputs H sp leaf" H]
      by (auto simp: root_inputs_def proof_inputs_def nat_less_iff)
  qed
  then show ?thesis using range by auto
qed

section \<open>Properties\<close>

text \<open>
  C32. Generated proofs are accepted: \<^verbatim>\<open>ProofsFromByteSlices\<close> returns the Merkle root and one proof per
  item; every proof passes \<^verbatim>\<open>Verify\<close> against that root and its own item, and with a 32-byte hash
  and at most \<open>2 ^ 100\<close> items it passes \<^verbatim>\<open>ValidateBasic\<close>, the limit on the number of aunts included.
\<close>

theorem Merkle_proofs_complete:
  assumes "i < length items" and "length items \<le> 2 ^ MaxAunts" and "\<forall>x. length (H x) = tmhash_Size"
  shows "fst (ProofsFromByteSlices H items) = HashFromByteSlices H items
    \<and> length (snd (ProofsFromByteSlices H items)) = length items
    \<and> Proof_Verify H (snd (ProofsFromByteSlices H items) ! i) (HashFromByteSlices H items) (items ! i) = None
    \<and> Proof_ValidateBasic (snd (ProofsFromByteSlices H items) ! i) = None"
  using ProofsFromByteSlices_root length_ProofsFromByteSlices generated_proof_Verify [OF assms(1)] generated_proof_ValidateBasic [OF assms]
  by simp

text \<open>A concrete function with 32-byte results.\<close>

definition pad_hash :: hashfn where
  "pad_hash x = take 32 (x @ replicate 32 0)"

lemma pad_hash_size: "\<forall>x. length (pad_hash x) = tmhash_Size"
  by (auto simp: pad_hash_def tmhash_Size_def)

theorem Merkle_proofs_complete_witness:
  "Proof_Verify pad_hash (snd (ProofsFromByteSlices pad_hash [[1], [2], [3]]) ! 2)
     (HashFromByteSlices pad_hash [[1], [2], [3]]) [3] = None"
proof -
  have "length [[1], [2], [3 :: byte]] \<le> 2 ^ MaxAunts" by (simp add: MaxAunts_def)
  then show ?thesis
    using Merkle_proofs_complete [of 2 "[[1], [2], [3]]", OF _ _ pad_hash_size] by simp
qed

text \<open>
  C2. Verification is sound: a proof that passes \<^verbatim>\<open>ValidateBasic\<close> and \<^verbatim>\<open>Verify\<close> against the root of a list
  of items, with the number of items as its total, has an index in range and is for the item at that
  index, unless two different byte strings, one hashed for the root and one hashed in the check, have the
  same hash.
\<close>

theorem Merkle_proof_sound:
  assumes "\<forall>x. length (H x) = tmhash_Size" and "Proof_ValidateBasic sp = None"
    and "Total sp = int (length items)" and "Proof_Verify H sp (HashFromByteSlices H items) leaf = None"
  shows "0 \<le> Index sp \<and> Index sp < Total sp
    \<and> (leaf = items ! nat (Index sp) \<or> clash H (root_inputs H items) (proof_inputs H sp leaf))"
  using Proof_Verify_sound [OF assms] .

theorem Merkle_proof_sound_witness:
  "let items = [[1], [2 :: byte]]; sp = snd (ProofsFromByteSlices pad_hash items) ! 1 in
   Index sp < Total sp \<and> (items ! 1 = items ! nat (Index sp) \<or> clash pad_hash (root_inputs pad_hash items) (proof_inputs pad_hash sp (items ! 1)))"
proof -
  let ?items = "[[1], [2 :: byte]]"
  let ?sp = "snd (ProofsFromByteSlices pad_hash ?items) ! 1"
  have i: "1 < length ?items" and le: "length ?items \<le> 2 ^ MaxAunts" by (simp_all add: MaxAunts_def)
  obtain t where "?sp = trail_proof (length ?items) 1 t"
    using ProofsFromByteSlices_nth [OF i, of pad_hash] by blast
  then have tot: "Total ?sp = int (length ?items)" by (simp only: trail_proof_def Proof.simps)
  note sound = Merkle_proof_sound [OF pad_hash_size generated_proof_ValidateBasic [OF i le pad_hash_size]
      tot generated_proof_Verify [OF i]]
  then show ?thesis unfolding Let_def by blast
qed

end
