(* ===== verification/Key_Path.thy ===== *)
theory Key_Path
  imports Encoding Merkle_Proof
begin

text \<open>
  Key paths and chained proof operators of \<^verbatim>\<open>crypto/merkle\<close> (\<^verbatim>\<open>proof_key_path.go\<close>, \<^verbatim>\<open>proof_op.go\<close>,
  \<^verbatim>\<open>proof_value.go\<close>). A path and a key are byte sequences. The generated protobuf codec of
  \<^verbatim>\<open>tmcrypto.ValueOp\<close> is the parameter \<open>unmarshal\<close> of the decoder.
\<close>

section \<open>Key paths\<close>

datatype keyEncoding = KeyEncodingURL | KeyEncodingHex

record Key =
  key_name :: bytes
  key_enc :: keyEncoding

type_synonym KeyPath = "Key list"

definition KeyPath_AppendKey :: "KeyPath \<Rightarrow> bytes \<Rightarrow> keyEncoding \<Rightarrow> KeyPath" where
  "KeyPath_AppendKey pth key enc = pth @ [\<lparr>key_name = key, key_enc = enc\<rparr>]"

definition key_part :: "Key \<Rightarrow> bytes" where
  "key_part key = (case key_enc key of
       KeyEncodingURL \<Rightarrow> PathEscape (key_name key)
     | KeyEncodingHex \<Rightarrow> [120, 58] @ hex_EncodeUpper (key_name key))"

definition KeyPath_String :: "KeyPath \<Rightarrow> bytes" where
  "KeyPath_String pth = concat (map (\<lambda>key. 47 # key_part key) pth)"

text \<open>\<^verbatim>\<open>strings.Split(s, "/")\<close>.\<close>

fun split_path :: "bytes \<Rightarrow> bytes list" where
  "split_path [] = [[]]"
| "split_path (c # s) =
     (if c = 47 then [] # split_path s
      else (case split_path s of p # ps \<Rightarrow> (c # p) # ps | [] \<Rightarrow> [[c]]))"

datatype path_error = NoLeadingSlash | BadHexPart nat | BadURLPart nat

definition decode_part :: "nat \<Rightarrow> bytes \<Rightarrow> path_error + bytes" where
  "decode_part i part =
     (if take 2 part = [120, 58] then
        (case hex_DecodeString (drop 2 part) of None \<Rightarrow> Inl (BadHexPart i) | Some key \<Rightarrow> Inr key)
      else
        (case PathUnescape part of None \<Rightarrow> Inl (BadURLPart i) | Some key \<Rightarrow> Inr key))"

fun decode_parts :: "nat \<Rightarrow> bytes list \<Rightarrow> path_error + bytes list" where
  "decode_parts i [] = Inr []"
| "decode_parts i (part # parts) =
     (case decode_part i part of
        Inl e \<Rightarrow> Inl e
      | Inr key \<Rightarrow> (case decode_parts (Suc i) parts of Inl e \<Rightarrow> Inl e | Inr keys \<Rightarrow> Inr (key # keys)))"

definition KeyPathToKeys :: "bytes \<Rightarrow> path_error + bytes list" where
  "KeyPathToKeys path =
     (case path of
        [] \<Rightarrow> Inl NoLeadingSlash
      | c # s \<Rightarrow> if c \<noteq> 47 then Inl NoLeadingSlash else decode_parts 0 (split_path s))"

subsection \<open>Round trip\<close>

lemma split_path_not_Nil: "split_path s \<noteq> []"
  by (induction s) (auto split: list.splits)

lemma split_path_no_slash: "47 \<notin> set s \<Longrightarrow> split_path s = [s]"
  by (induction s) auto

lemma split_path_append: "47 \<notin> set p \<Longrightarrow> split_path (p @ 47 # s) = p # split_path s"
  by (induction p) auto

lemma key_part_no_slash: "47 \<notin> set (key_part key)"
  using PathEscape_no_slash hex_EncodeUpper_no_slash
  by (auto simp: key_part_def split: keyEncoding.splits)

lemma split_KeyPath_String:
  "split_path (key_part key @ KeyPath_String pth) = key_part key # map key_part pth"
proof (induction pth arbitrary: key)
  case (Cons k pth)
  then show ?case
    using split_path_append [OF key_part_no_slash [of key]] by (simp add: KeyPath_String_def)
qed (simp add: KeyPath_String_def split_path_no_slash [OF key_part_no_slash])

text \<open>A URL-encoded key that starts with \<^verbatim>\<open>x:\<close> reads back as a hexadecimal one.\<close>

definition hex_lookalike :: "Key \<Rightarrow> bool" where
  "hex_lookalike key \<longleftrightarrow> key_enc key = KeyEncodingURL \<and> take 2 (key_name key) = [120, 58]"

lemma take2_escape:
  assumes "take 2 (PathEscape s) = [120, 58]"
  shows "take 2 s = [120, 58]"
proof -
  have plain: "escape_byte c = [c]" if "escape_byte c = d # r" "d \<noteq> 37" for c d r
    using that by (auto simp: escape_byte_def split: if_splits)
  have ne: "escape_byte c \<noteq> []" for c by (simp add: escape_byte_def)
  obtain c s' where s: "s = c # s'" using assms by (cases s) (auto simp: PathEscape_def)
  obtain d r where c: "escape_byte c = d # r" using ne [of c] by (cases "escape_byte c") auto
  then have d: "d = 120" using assms s by (simp add: PathEscape_def numeral_2_eq_2)
  then have ec: "escape_byte c = [c]" "c = 120" using plain [OF c] c by auto
  then obtain c' s'' where s': "s' = c' # s''"
    using assms s by (cases s') (auto simp: PathEscape_def)
  obtain d' r' where c': "escape_byte c' = d' # r'" using ne [of c'] by (cases "escape_byte c'") auto
  then have "d' = 58" using assms s s' ec by (simp add: PathEscape_def numeral_2_eq_2)
  then have "c' = 58" using plain [OF c'] c' by auto
  then show ?thesis using s s' ec by simp
qed

lemma decode_key_part: "\<not> hex_lookalike key \<Longrightarrow> decode_part i (key_part key) = Inr (key_name key)"
  using take2_escape [of "key_name key"]
  by (cases "key_enc key")
    (auto simp: decode_part_def key_part_def hex_lookalike_def PathUnescape_PathEscape
      hex_DecodeString_EncodeUpper)

lemma decode_key_parts:
  "\<forall>key \<in> set pth. \<not> hex_lookalike key \<Longrightarrow> decode_parts i (map key_part pth) = Inr (map key_name pth)"
  by (induction pth arbitrary: i) (auto simp: decode_key_part)

lemma KeyPath_roundtrip:
  assumes "pth \<noteq> []" and "\<forall>key \<in> set pth. \<not> hex_lookalike key"
  shows "KeyPathToKeys (KeyPath_String pth) = Inr (map key_name pth)"
proof (cases pth)
  case (Cons key pth')
  then have "KeyPath_String pth = 47 # key_part key @ KeyPath_String pth'"
    by (simp add: KeyPath_String_def)
  then show ?thesis
    using decode_key_parts [OF assms(2), of 0] Cons
    by (simp add: KeyPathToKeys_def split_KeyPath_String)
qed (use assms in simp)

section \<open>Chained proof operators\<close>

datatype op_error =
    PathError path_error
  | InsufficientKeys bytes
  | KeyMismatch nat bytes bytes
  | RunError string
  | CalculatedRootInvalid bytes bytes
  | KeypathNotConsumed
  | UnrecognizedProofType string
  | UnexpectedProofType string
  | DecodingData
  | ValueOpProofError proof_error
  | ExpectedOneArg nat
  | LeafHashMismatch bytes bytes

text \<open>The interface \<^verbatim>\<open>ProofOperator\<close>: its key and what it computes from the arguments.\<close>

record ProofOperator =
  op_GetKey :: bytes
  op_Run :: "bytes list \<Rightarrow> op_error + bytes list"

fun run_operators ::
  "nat \<Rightarrow> ProofOperator list \<Rightarrow> bytes list \<Rightarrow> bytes list \<Rightarrow> op_error + (bytes list \<times> bytes list)" where
  "run_operators i [] keys args = Inr (keys, args)"
| "run_operators i (p # poz) keys args =
     (let key = op_GetKey p in
      if length key \<noteq> 0 \<and> length keys = 0 then Inl (InsufficientKeys key)
      else if length key \<noteq> 0 \<and> last keys \<noteq> key then Inl (KeyMismatch i (last keys) key)
      else
        let keys' = (if length key \<noteq> 0 then butlast keys else keys) in
        (case op_Run p args of
           Inl err \<Rightarrow> Inl err
         | Inr args' \<Rightarrow> run_operators (Suc i) poz keys' args'))"

text \<open>\<open>args[0]\<close> panics when the last operator returned no hash, or when there is neither an operator nor an argument.\<close>

definition ProofOperators_Verify ::
  "ProofOperator list \<Rightarrow> bytes \<Rightarrow> bytes \<Rightarrow> bytes list \<Rightarrow> op_error option go" where
  "ProofOperators_Verify poz root keypath args =
     (case KeyPathToKeys keypath of
        Inl err \<Rightarrow> Ret (Some (PathError err))
      | Inr keys \<Rightarrow>
          (case run_operators 0 poz keys args of
             Inl err \<Rightarrow> Ret (Some err)
           | Inr (keys', args') \<Rightarrow>
               do {
                 a \<leftarrow> index args' 0;
                 if root \<noteq> a then Ret (Some (CalculatedRootInvalid root a))
                 else if length keys' \<noteq> 0 then Ret (Some KeypathNotConsumed)
                 else Ret None
               }))"

definition ProofOperators_VerifyValue ::
  "ProofOperator list \<Rightarrow> bytes \<Rightarrow> bytes \<Rightarrow> bytes \<Rightarrow> op_error option go" where
  "ProofOperators_VerifyValue poz root keypath v = ProofOperators_Verify poz root keypath [v]"

subsection \<open>The value operator\<close>

definition ProofOpValue :: string where
  "ProofOpValue = ''simple:v''"

record ValueOp =
  vo_key :: bytes
  vo_Proof :: Proof

definition NewValueOp :: "bytes \<Rightarrow> Proof \<Rightarrow> ValueOp" where
  "NewValueOp key pr = \<lparr>vo_key = key, vo_Proof = pr\<rparr>"

definition kv_leaf :: "hashfn \<Rightarrow> bytes \<Rightarrow> bytes \<Rightarrow> bytes" where
  "kv_leaf H key v = encodeByteSlice key @ encodeByteSlice (H v)"

definition nil_bytes :: "bytes option \<Rightarrow> bytes" where
  "nil_bytes b = (case b of None \<Rightarrow> [] | Some x \<Rightarrow> x)"

definition ValueOp_Run :: "hashfn \<Rightarrow> ValueOp \<Rightarrow> bytes list \<Rightarrow> op_error + bytes list" where
  "ValueOp_Run H p args =
     (if length args \<noteq> 1 then Inl (ExpectedOneArg (length args))
      else
        let v = args ! 0;
            kvhash = leafHash H (kv_leaf H (vo_key p) v)
        in if kvhash \<noteq> LeafHash (vo_Proof p) then Inl (LeafHashMismatch (LeafHash (vo_Proof p)) kvhash)
           else Inr [nil_bytes (Proof_ComputeRootHash H (vo_Proof p))])"

definition ValueOp_operator :: "hashfn \<Rightarrow> ValueOp \<Rightarrow> ProofOperator" where
  "ValueOp_operator H p = \<lparr>op_GetKey = vo_key p, op_Run = ValueOp_Run H p\<rparr>"

record ProofOp =
  po_Type :: string
  po_Key :: bytes
  po_Data :: bytes

definition ValueOpDecoder ::
  "hashfn \<Rightarrow> (bytes \<Rightarrow> ProofPB option option) \<Rightarrow> ProofOp \<Rightarrow> op_error + ProofOperator" where
  "ValueOpDecoder H unmarshal pop =
     (if po_Type pop \<noteq> ProofOpValue then Inl (UnexpectedProofType (po_Type pop))
      else (case unmarshal (po_Data pop) of
          None \<Rightarrow> Inl DecodingData
        | Some pb \<Rightarrow>
            (case ProofFromProto pb of
               (_, Some err) \<Rightarrow> Inl (ValueOpProofError err)
             | (Some sp, None) \<Rightarrow> Inr (ValueOp_operator H (NewValueOp (po_Key pop) sp))
             | (None, None) \<Rightarrow> Inl DecodingData)))"

subsection \<open>The proof runtime\<close>

type_synonym OpDecoder = "ProofOp \<Rightarrow> op_error + ProofOperator"

record ProofRuntime =
  decoders :: "string \<rightharpoonup> OpDecoder"

definition NewProofRuntime :: ProofRuntime where
  "NewProofRuntime = \<lparr>decoders = Map.empty\<rparr>"

definition RegisterOpDecoder :: "ProofRuntime \<Rightarrow> string \<Rightarrow> OpDecoder \<Rightarrow> ProofRuntime go" where
  "RegisterOpDecoder prt typ dec =
     (if decoders prt typ \<noteq> None then Panic
      else Ret (prt\<lparr>decoders := (decoders prt)(typ \<mapsto> dec)\<rparr>))"

definition ProofRuntime_Decode :: "ProofRuntime \<Rightarrow> ProofOp \<Rightarrow> op_error + ProofOperator" where
  "ProofRuntime_Decode prt pop =
     (case decoders prt (po_Type pop) of
        None \<Rightarrow> Inl (UnrecognizedProofType (po_Type pop))
      | Some decoder \<Rightarrow> decoder pop)"

fun ProofRuntime_DecodeProof :: "ProofRuntime \<Rightarrow> ProofOp list \<Rightarrow> op_error + ProofOperator list" where
  "ProofRuntime_DecodeProof prt [] = Inr []"
| "ProofRuntime_DecodeProof prt (pop # pops) =
     (case ProofRuntime_Decode prt pop of
        Inl err \<Rightarrow> Inl err
      | Inr operator \<Rightarrow>
          (case ProofRuntime_DecodeProof prt pops of
             Inl err \<Rightarrow> Inl err
           | Inr poz \<Rightarrow> Inr (operator # poz)))"

definition ProofRuntime_Verify ::
  "ProofRuntime \<Rightarrow> ProofOp list \<Rightarrow> bytes \<Rightarrow> bytes \<Rightarrow> bytes list \<Rightarrow> op_error option go" where
  "ProofRuntime_Verify prt ops root keypath args =
     (case ProofRuntime_DecodeProof prt ops of
        Inl err \<Rightarrow> Ret (Some err)
      | Inr poz \<Rightarrow> ProofOperators_Verify poz root keypath args)"

definition ProofRuntime_VerifyValue ::
  "ProofRuntime \<Rightarrow> ProofOp list \<Rightarrow> bytes \<Rightarrow> bytes \<Rightarrow> bytes \<Rightarrow> op_error option go" where
  "ProofRuntime_VerifyValue prt ops root keypath v = ProofRuntime_Verify prt ops root keypath [v]"

definition ProofRuntime_VerifyAbsence ::
  "ProofRuntime \<Rightarrow> ProofOp list \<Rightarrow> bytes \<Rightarrow> bytes \<Rightarrow> op_error option go" where
  "ProofRuntime_VerifyAbsence prt ops root keypath = ProofRuntime_Verify prt ops root keypath []"

definition DefaultProofRuntime :: "hashfn \<Rightarrow> (bytes \<Rightarrow> ProofPB option option) \<Rightarrow> ProofRuntime go" where
  "DefaultProofRuntime H unmarshal =
     RegisterOpDecoder NewProofRuntime ProofOpValue (ValueOpDecoder H unmarshal)"

subsection \<open>A verified value is in the map\<close>

lemma kv_leaf_inj:
  assumes "kv_leaf H k v = kv_leaf H k' v'"
  shows "k = k' \<and> H v = H v'"
proof -
  have "k = k' \<and> encodeByteSlice (H v) = encodeByteSlice (H v')"
    using encodeByteSlice_prefix_free [of k "encodeByteSlice (H v)" k' "encodeByteSlice (H v')"] assms
    by (simp add: kv_leaf_def)
  moreover from this have "H v = H v'"
    using encodeByteSlice_prefix_free [of "H v" "[]" "H v'" "[]"] by simp
  ultimately show ?thesis by simp
qed

text \<open>The byte strings hashed for the root of a map, and for the check of a value.\<close>

definition map_inputs :: "hashfn \<Rightarrow> (bytes \<times> bytes) list \<Rightarrow> bytes list" where
  "map_inputs H kvs = map snd kvs @ root_inputs H (map (\<lambda>(k, v). kv_leaf H k v) kvs)"

definition value_inputs :: "hashfn \<Rightarrow> Proof \<Rightarrow> bytes \<Rightarrow> bytes \<Rightarrow> bytes list" where
  "value_inputs H pr key v = v # proof_inputs H pr (kv_leaf H key v)"

lemma KeyPathToKeys_not_Nil: "KeyPathToKeys path = Inr keys \<Longrightarrow> keys \<noteq> []"
proof -
  have "decode_parts i ps = Inr keys \<Longrightarrow> ps \<noteq> [] \<Longrightarrow> keys \<noteq> []" for i ps
    by (cases ps) (auto split: sum.splits)
  then show "KeyPathToKeys path = Inr keys \<Longrightarrow> keys \<noteq> []"
    using split_path_not_Nil by (fastforce simp: KeyPathToKeys_def split: list.splits if_splits)
qed

lemma VerifyValue_single:
  assumes "ProofOperators_VerifyValue [ValueOp_operator H (NewValueOp key pr)] root keypath v = Ret None"
    and "root \<noteq> []"
  shows "KeyPathToKeys keypath = Inr [key] \<and> leafHash H (kv_leaf H key v) = LeafHash pr
    \<and> Proof_ComputeRootHash H pr = Some root"
proof -
  obtain keys where keys: "KeyPathToKeys keypath = Inr keys"
    using assms(1)
    by (auto simp: ProofOperators_VerifyValue_def ProofOperators_Verify_def split: sum.splits)
  have "keys = butlast keys @ [last keys]" using KeyPathToKeys_not_Nil [OF keys] by simp
  then show ?thesis
    using assms keys
    by (auto simp: ProofOperators_VerifyValue_def ProofOperators_Verify_def ValueOp_operator_def
        NewValueOp_def ValueOp_Run_def Let_def index_def nil_bytes_def
        split: if_splits option.splits)
qed

lemma VerifyValue_sound:
  assumes size: "\<forall>x. length (H x) = tmhash_Size"
    and valid: "Proof_ValidateBasic pr = None" and tot: "Total pr = int (length kvs)"
    and ver: "ProofOperators_VerifyValue [ValueOp_operator H (NewValueOp key pr)]
      (HashFromByteSlices H (map (\<lambda>(k, v). kv_leaf H k v) kvs)) keypath v = Ret None"
  shows "KeyPathToKeys keypath = Inr [key]
    \<and> ((key, v) \<in> set kvs \<or> clash H (map_inputs H kvs) (value_inputs H pr key v))"
proof -
  let ?items = "map (\<lambda>(k, v). kv_leaf H k v) kvs"
  have ne: "HashFromByteSlices H ?items \<noteq> []"
    using HashFromByteSlices_length [OF size, of ?items] by (auto simp: tmhash_Size_def)
  note single = VerifyValue_single [OF ver ne]
  have "0 \<le> Index pr" using valid by (auto simp: Proof_ValidateBasic_def split: if_splits)
  then have "Proof_Verify H pr (HashFromByteSlices H ?items) (kv_leaf H key v) = None"
    using single tot by (simp add: Proof_Verify_def bytes_Equal_def)
  from Proof_Verify_sound [OF size valid _ this] tot
  have i: "nat (Index pr) < length kvs" and leaf: "kv_leaf H key v = ?items ! nat (Index pr)
      \<or> clash H (root_inputs H ?items) (proof_inputs H pr (kv_leaf H key v))"
    by (auto simp: nat_less_iff)
  have "(key, v) \<in> set kvs" if nc: "\<not> clash H (map_inputs H kvs) (value_inputs H pr key v)"
  proof -
    have "\<not> clash H (root_inputs H ?items) (proof_inputs H pr (kv_leaf H key v))"
      using nc clash_mono [of H _ _ "map_inputs H kvs" "value_inputs H pr key v"]
      by (auto simp: map_inputs_def value_inputs_def)
    moreover obtain k' v' where kv: "kvs ! nat (Index pr) = (k', v')" by fastforce
    ultimately have eq: "key = k'" "H v' = H v" using leaf i kv_leaf_inj [of H key v k' v'] by auto
    have mem: "(k', v') \<in> set kvs" using i kv by (metis nth_mem)
    then have "v' \<in> set (map_inputs H kvs)" by (force simp: map_inputs_def)
    then have "v' = v" using clashI [of v' "map_inputs H kvs" v "value_inputs H pr key v" H] eq(2) nc
      by (simp add: value_inputs_def)
    then show ?thesis using eq mem by simp
  qed
  then show ?thesis using single by auto
qed

section \<open>Properties\<close>

text \<open>
  C37. Key paths round-trip: \<^verbatim>\<open>KeyPathToKeys\<close> recovers the keys of a printed non-empty path, whatever
  encoding each key uses, provided no URL-encoded key starts with \<^verbatim>\<open>x:\<close>. The condition is necessary:
  the URL-encoded key \<^verbatim>\<open>x:41\<close> reads back as the key \<^verbatim>\<open>A\<close>.
\<close>

theorem KeyPath_inverse:
  assumes "pth \<noteq> []" and "\<forall>key \<in> set pth. \<not> hex_lookalike key"
  shows "KeyPathToKeys (KeyPath_String pth) = Inr (map key_name pth)
    \<and> KeyPathToKeys (KeyPath_String [\<lparr>key_name = [120, 58, 52, 49], key_enc = KeyEncodingURL\<rparr>]) = Inr [[65]]"
proof -
  have "KeyPathToKeys (KeyPath_String [\<lparr>key_name = [120, 58, 52, 49], key_enc = KeyEncodingURL\<rparr>]) = Inr [[65]]"
    by code_simp
  then show ?thesis using KeyPath_roundtrip [OF assms] by simp
qed

theorem KeyPath_inverse_witness:
  "KeyPathToKeys (KeyPath_String
      [\<lparr>key_name = [65, 47], key_enc = KeyEncodingURL\<rparr>, \<lparr>key_name = [1, 2], key_enc = KeyEncodingHex\<rparr>])
   = Inr [[65, 47], [1, 2]]"
  using KeyPath_inverse [of "[\<lparr>key_name = [65, 47], key_enc = KeyEncodingURL\<rparr>, \<lparr>key_name = [1, 2], key_enc = KeyEncodingHex\<rparr>]"]
  by (simp add: hex_lookalike_def)

text \<open>
  C33. A verified value is in the map: if a proof operator for one key accepts a value under a key path
  against the Merkle root of a list of key-value pairs, then the path is that key, and the pair is in the
  list, unless two different byte strings, one hashed for the root of the map and one hashed in the check,
  have the same hash. The proof must pass \<^verbatim>\<open>ValidateBasic\<close> and state the
  number of pairs as its total.
\<close>

theorem VerifyValue_membership:
  assumes "\<forall>x. length (H x) = tmhash_Size" and "Proof_ValidateBasic pr = None"
    and "Total pr = int (length kvs)"
    and "ProofOperators_VerifyValue [ValueOp_operator H (NewValueOp key pr)]
      (HashFromByteSlices H (map (\<lambda>(k, v). kv_leaf H k v) kvs)) keypath v = Ret None"
  shows "KeyPathToKeys keypath = Inr [key]
    \<and> ((key, v) \<in> set kvs \<or> clash H (map_inputs H kvs) (value_inputs H pr key v))"
  using VerifyValue_sound [OF assms] .

definition ex_kv_proof :: Proof where
  "ex_kv_proof = \<lparr>Total = 1, Index = 0, LeafHash = leafHash pad_hash (kv_leaf pad_hash [65] [7]), Aunts = []\<rparr>"

theorem VerifyValue_membership_witness:
  "KeyPathToKeys [47, 65] = Inr [[65]] \<and> (([65 :: byte], [7 :: byte]) \<in> set [([65], [7])]
     \<or> clash pad_hash (map_inputs pad_hash [([65], [7])]) (value_inputs pad_hash ex_kv_proof [65] [7]))"
proof -
  have "Proof_ValidateBasic ex_kv_proof = None" "Total ex_kv_proof = int (length [([65 :: byte], [7 :: byte])])" by code_simp+
  moreover have "ProofOperators_VerifyValue [ValueOp_operator pad_hash (NewValueOp [65] ex_kv_proof)]
      (HashFromByteSlices pad_hash (map (\<lambda>(k, v). kv_leaf pad_hash k v) [([65], [7])])) [47, 65] [7] = Ret None"
    by code_simp
  ultimately show ?thesis using VerifyValue_membership [OF pad_hash_size] by blast
qed

end
