(* ===== verification/Safe_Math.thy ===== *)
theory Safe_Math
  imports Go_Prelude
begin

text \<open>
  Overflow-checked arithmetic: the \<^verbatim>\<open>safe*\<close> helpers at the end of \<^verbatim>\<open>types/validator_set.go\<close>, the
  panicking and error-returning conversions of \<^verbatim>\<open>libs/math/safemath.go\<close>, and the fractions of
  \<^verbatim>\<open>libs/math/fraction.go\<close> with their parser and printer. The lemmas give each operation's exact
  result: the mathematical one in range, the clipped one or the overflow flag outside.
\<close>

section \<open>Checked addition, subtraction and multiplication on \<open>int64\<close>\<close>

definition safeAdd :: "int64 \<Rightarrow> int64 \<Rightarrow> int64 \<times> bool" where
  "safeAdd a b =
     (if b > 0 \<and> a > wrap64 (MaxInt64 - b) then (-1, True)
      else if b < 0 \<and> a < wrap64 (MinInt64 - b) then (-1, True)
      else (wrap64 (a + b), False))"

definition safeSub :: "int64 \<Rightarrow> int64 \<Rightarrow> int64 \<times> bool" where
  "safeSub a b =
     (if b > 0 \<and> a < wrap64 (MinInt64 + b) then (-1, True)
      else if b < 0 \<and> a > wrap64 (MaxInt64 + b) then (-1, True)
      else (wrap64 (a - b), False))"

definition safeAddClip :: "int64 \<Rightarrow> int64 \<Rightarrow> int64" where
  "safeAddClip a b =
     (case safeAdd a b of (c, overflow) \<Rightarrow>
        if overflow then (if b < 0 then MinInt64 else MaxInt64) else c)"

definition safeSubClip :: "int64 \<Rightarrow> int64 \<Rightarrow> int64" where
  "safeSubClip a b =
     (case safeSub a b of (c, overflow) \<Rightarrow>
        if overflow then (if b > 0 then MinInt64 else MaxInt64) else c)"

definition safeMul :: "int64 \<Rightarrow> int64 \<Rightarrow> int64 \<times> bool" where
  "safeMul a b =
     (if a = 0 \<or> b = 0 then (0, False)
      else
        let absOfB = (if b < 0 then wrap64 (- b) else b);
            absOfA = (if a < 0 then wrap64 (- a) else a)
        in if absOfA > MaxInt64 sdiv absOfB then (0, True)
           else (wrap64 (a * b), False))"

definition clip64 :: "int \<Rightarrow> int64" where
  "clip64 x = (if x < MinInt64 then MinInt64 else if x > MaxInt64 then MaxInt64 else x)"

lemma safeAdd_eq:
  "in64 a \<Longrightarrow> in64 b \<Longrightarrow> safeAdd a b = (if in64 (a + b) then (a + b, False) else (-1, True))"
  unfolding safeAdd_def in64_def
  by (auto simp: wrap64_id in64_def int_limits)

lemma safeSub_eq:
  "in64 a \<Longrightarrow> in64 b \<Longrightarrow> safeSub a b = (if in64 (a - b) then (a - b, False) else (-1, True))"
  unfolding safeSub_def in64_def
  by (auto simp: wrap64_id in64_def int_limits)

lemma safeAddClip_eq: "in64 a \<Longrightarrow> in64 b \<Longrightarrow> safeAddClip a b = clip64 (a + b)"
  by (auto simp: safeAddClip_def safeAdd_eq clip64_def in64_def int_limits)

lemma safeSubClip_eq: "in64 a \<Longrightarrow> in64 b \<Longrightarrow> safeSubClip a b = clip64 (a - b)"
  by (auto simp: safeSubClip_def safeSub_eq clip64_def in64_def int_limits)

lemma in64_clip64 [simp]: "in64 (clip64 x)"
  by (auto simp: clip64_def in64_def int_limits)

lemma clip64_id [go_simps]: "in64 x \<Longrightarrow> clip64 x = x"
  by (auto simp: clip64_def in64_def)

lemma abs_mult_le_iff_div:
  fixes a b m :: int
  assumes "0 < b"
  shows "a > m div b \<longleftrightarrow> a * b > m"
proof
  assume "a > m div b"
  then have "b * (m div b + 1) \<le> b * a" using assms by (intro mult_left_mono) auto
  moreover have "m < b * (m div b) + b"
    using mult_div_mod_eq [of b m] pos_mod_bound [of b m] assms by linarith
  ultimately show "a * b > m" by (simp add: algebra_simps)
next
  assume *: "a * b > m"
  show "a > m div b"
  proof (rule ccontr)
    assume "\<not> a > m div b"
    then have "b * a \<le> b * (m div b)" using assms by (intro mult_left_mono) auto
    moreover have "b * (m div b) \<le> m"
      using mult_div_mod_eq [of b m] pos_mod_sign [of b m] assms by linarith
    ultimately show False using * by (simp add: algebra_simps)
  qed
qed

lemma safeMul_eq:
  assumes "in64 a" and "in64 b" and "a \<noteq> MinInt64" and "b \<noteq> MinInt64"
  shows "safeMul a b =
    (if \<bar>a * b\<bar> \<le> MaxInt64 then (a * b, False) else (0, True))"
proof (cases "a = 0 \<or> b = 0")
  case True
  then show ?thesis by (auto simp: safeMul_def int_limits)
next
  case False
  then have pos: "0 < \<bar>b\<bar>" by simp
  have absB: "(if b < 0 then wrap64 (- b) else b) = \<bar>b\<bar>"
    using assms(2,4) by (auto simp: wrap64_id in64_def int_limits)
  have absA: "(if a < 0 then wrap64 (- a) else a) = \<bar>a\<bar>"
    using assms(1,3) by (auto simp: wrap64_id in64_def int_limits)
  have "\<bar>a\<bar> > MaxInt64 sdiv \<bar>b\<bar> \<longleftrightarrow> \<bar>a * b\<bar> > MaxInt64"
    using abs_mult_le_iff_div [OF pos] by (simp add: sdiv_nonneg abs_mult MaxInt64_def)
  moreover have "\<bar>a * b\<bar> \<le> MaxInt64 \<Longrightarrow> wrap64 (a * b) = a * b"
    by (rule wrap64_id) (auto simp: in64_def int_limits)
  ultimately show ?thesis
    using False unfolding safeMul_def absA absB Let_def by auto
qed

section \<open>libs/math/safemath.go\<close>

datatype math_error = ErrOverflowInt32 | ErrOverflowUint8 | ErrOverflowInt8

definition SafeAddInt32 :: "int32 \<Rightarrow> int32 \<Rightarrow> int32 go" where
  "SafeAddInt32 a b =
     (if b > 0 \<and> a > wrap32 (MaxInt32 - b) then Panic
      else if b < 0 \<and> a < wrap32 (MinInt32 - b) then Panic
      else Ret (wrap32 (a + b)))"

definition SafeSubInt32 :: "int32 \<Rightarrow> int32 \<Rightarrow> int32 go" where
  "SafeSubInt32 a b =
     (if b > 0 \<and> a < wrap32 (MinInt32 + b) then Panic
      else if b < 0 \<and> a > wrap32 (MaxInt32 + b) then Panic
      else Ret (wrap32 (a - b)))"

definition SafeConvertInt32 :: "int64 \<Rightarrow> int32 go" where
  "SafeConvertInt32 a =
     (if a > MaxInt32 then Panic else if a < MinInt32 then Panic else Ret (wrap32 a))"

definition SafeConvertUint8 :: "int64 \<Rightarrow> math_error + byte" where
  "SafeConvertUint8 a =
     (if a > 255 then Inl ErrOverflowUint8 else if a < 0 then Inl ErrOverflowUint8
      else Inr (word_of_int a))"

definition SafeConvertInt8 :: "int64 \<Rightarrow> math_error + int8" where
  "SafeConvertInt8 a =
     (if a > 127 then Inl ErrOverflowInt8 else if a < -128 then Inl ErrOverflowInt8
      else Inr ((a + 128) mod 256 - 128))"

lemma SafeAddInt32_eq:
  "in32 a \<Longrightarrow> in32 b \<Longrightarrow> SafeAddInt32 a b = (if in32 (a + b) then Ret (a + b) else Panic)"
  unfolding SafeAddInt32_def in32_def by (auto simp: wrap32_id in32_def int_limits)

lemma SafeSubInt32_eq:
  "in32 a \<Longrightarrow> in32 b \<Longrightarrow> SafeSubInt32 a b = (if in32 (a - b) then Ret (a - b) else Panic)"
  unfolding SafeSubInt32_def in32_def by (auto simp: wrap32_id in32_def int_limits)

lemma SafeConvertInt32_eq: "SafeConvertInt32 a = (if in32 a then Ret a else Panic)"
  by (auto simp: SafeConvertInt32_def in32_def wrap32_id)

lemma SafeConvertUint8_Inr: "SafeConvertUint8 a = Inr w \<Longrightarrow> uint w = a"
  by (auto simp: SafeConvertUint8_def uint_word_of_int split: if_splits)

lemma SafeConvertInt8_Inr: "SafeConvertInt8 a = Inr i \<Longrightarrow> i = a"
  by (auto simp: SafeConvertInt8_def split: if_splits)

section \<open>libs/math/math.go\<close>

definition MaxInt64_of :: "int64 \<Rightarrow> int64 \<Rightarrow> int64" where
  "MaxInt64_of a b = (if a > b then a else b)"

definition MaxInt :: "int \<Rightarrow> int \<Rightarrow> int" where
  "MaxInt a b = (if a > b then a else b)"

definition MinInt64_of :: "int64 \<Rightarrow> int64 \<Rightarrow> int64" where
  "MinInt64_of a b = (if a < b then a else b)"

definition MinInt :: "int \<Rightarrow> int \<Rightarrow> int" where
  "MinInt a b = (if a < b then a else b)"

lemma MaxInt_eq [simp]: "MaxInt a b = max a b" "MaxInt64_of a b = max a b"
  by (auto simp: MaxInt_def MaxInt64_of_def)

lemma MinInt_eq [simp]: "MinInt a b = min a b" "MinInt64_of a b = min a b"
  by (auto simp: MinInt_def MinInt64_of_def)

section \<open>libs/math/fraction.go\<close>

text \<open>
  \<^verbatim>\<open>strconv.ParseUint(s, 10, 64)\<close> accepts a non-empty string of decimal digits whose value is
  below \<open>2 ^ 64\<close>; \<^verbatim>\<open>%d\<close> prints without leading zeros; \<^verbatim>\<open>strings.Split(f, "/")\<close> returns the pieces
  between the slashes.
\<close>

record Fraction =
  Numerator :: nat
  Denominator :: nat

definition digit :: "nat \<Rightarrow> char" where
  "digit n = char_of (n + 48)"

definition is_digit :: "char \<Rightarrow> bool" where
  "is_digit c \<longleftrightarrow> 48 \<le> (of_char c :: nat) \<and> (of_char c :: nat) \<le> 57"

definition digit_val :: "char \<Rightarrow> nat" where
  "digit_val c = of_char c - 48"

fun show_nat :: "nat \<Rightarrow> string" where
  "show_nat n = (if n < 10 then [digit n] else show_nat (n div 10) @ [digit (n mod 10)])"

declare show_nat.simps [simp del]

definition digits_val :: "string \<Rightarrow> nat" where
  "digits_val s = foldl (\<lambda>acc c. acc * 10 + digit_val c) 0 s"

definition ParseUint :: "string \<Rightarrow> nat option" where
  "ParseUint s =
     (if s = [] \<or> \<not> list_all is_digit s then None
      else if digits_val s \<ge> 2 ^ 64 then None
      else Some (digits_val s))"

fun split_slash :: "string \<Rightarrow> string list" where
  "split_slash [] = [[]]"
| "split_slash (c # cs) =
     (if c = CHR ''/'' then [] # split_slash cs
      else (case split_slash cs of [] \<Rightarrow> [[c]] | p # ps \<Rightarrow> (c # p) # ps))"

datatype fraction_error = IncorrectFormatting | DenominatorZero | ValueOverflow

definition Fraction_String :: "Fraction \<Rightarrow> string" where
  "Fraction_String fr = show_nat (Numerator fr) @ ''/'' @ show_nat (Denominator fr)"

definition ParseFraction :: "string \<Rightarrow> fraction_error + Fraction" where
  "ParseFraction f =
     (let o' = split_slash f in
      if length o' \<noteq> 2 then Inl IncorrectFormatting
      else
        case ParseUint (o' ! 0) of None \<Rightarrow> Inl IncorrectFormatting
        | Some numerator \<Rightarrow>
          (case ParseUint (o' ! 1) of None \<Rightarrow> Inl IncorrectFormatting
           | Some denominator \<Rightarrow>
             if denominator = 0 then Inl DenominatorZero
             else if int numerator > MaxInt64 \<or> int denominator > MaxInt64 then Inl ValueOverflow
             else Inr \<lparr>Numerator = numerator, Denominator = denominator\<rparr>))"

lemma of_char_digit: "n < 10 \<Longrightarrow> (of_char (digit n) :: nat) = n + 48"
  by (simp add: digit_def)

lemma digit_props: "n < 10 \<Longrightarrow> is_digit (digit n) \<and> digit_val (digit n) = n"
  by (simp add: is_digit_def digit_val_def of_char_digit)

lemma is_digit_no_slash: "is_digit c \<Longrightarrow> c \<noteq> CHR ''/''"
  by (auto simp: is_digit_def)

lemma digits_val_snoc: "digits_val (s @ [c]) = digits_val s * 10 + digit_val c"
  by (simp add: digits_val_def)

lemma show_nat_props:
  "show_nat n \<noteq> [] \<and> list_all is_digit (show_nat n) \<and> digits_val (show_nat n) = n"
proof (induction n rule: show_nat.induct)
  case (1 n)
  show ?case
  proof (cases "n < 10")
    case True
    then show ?thesis
      by (subst (1 2 3) show_nat.simps) (simp add: digit_props digits_val_def)
  next
    case False
    with "1.IH" show ?thesis
      by (simp add: show_nat.simps [of n] digit_props digits_val_snoc)
  qed
qed

lemma ParseUint_show_nat: "n < 2 ^ 64 \<Longrightarrow> ParseUint (show_nat n) = Some n"
  using show_nat_props [of n] by (simp add: ParseUint_def)

lemma split_slash_no_slash: "list_all is_digit s \<Longrightarrow> split_slash s = [s]"
  by (induction s) (auto dest: is_digit_no_slash)

lemma split_slash_append:
  "list_all is_digit s \<Longrightarrow> split_slash (s @ CHR ''/'' # t) = s # split_slash t"
  by (induction s) (auto dest: is_digit_no_slash)

lemma split_slash_Fraction_String:
  "split_slash (Fraction_String fr) = [show_nat (Numerator fr), show_nat (Denominator fr)]"
  using show_nat_props [of "Numerator fr"] show_nat_props [of "Denominator fr"]
  by (simp add: Fraction_String_def split_slash_append split_slash_no_slash)

lemma ParseFraction_String:
  assumes "0 < Denominator fr" and "int (Numerator fr) \<le> MaxInt64"
    and "int (Denominator fr) \<le> MaxInt64"
  shows "ParseFraction (Fraction_String fr) = Inr fr"
proof -
  have "ParseUint (show_nat (Numerator fr)) = Some (Numerator fr)"
    "ParseUint (show_nat (Denominator fr)) = Some (Denominator fr)"
    using assms(2,3) by (auto intro!: ParseUint_show_nat simp: MaxInt64_def)
  then show ?thesis
    using assms by (simp add: ParseFraction_def split_slash_Fraction_String)
qed

section \<open>Properties\<close>

text \<open>
  The clipped operations of the proposer priorities saturate: on int64 operands \<^verbatim>\<open>safeAddClip\<close>
  and \<^verbatim>\<open>safeSubClip\<close> return the exact sum and difference when it is an int64, and the nearer end of
  the int64 range otherwise.
\<close>

theorem clip_operations_saturate:
  assumes "in64 a" and "in64 b"
  shows "safeAddClip a b = max MinInt64 (min MaxInt64 (a + b))
    \<and> safeSubClip a b = max MinInt64 (min MaxInt64 (a - b))"
  using assms safeAddClip_eq [OF assms] safeSubClip_eq [OF assms]
  by (simp add: clip64_def in64_def int_limits max_def min_def)

theorem clip_operations_saturate_witness:
  "safeAddClip MaxInt64 1 = MaxInt64 \<and> safeSubClip MaxInt64 1 = MaxInt64 - 1"
  using clip_operations_saturate [of MaxInt64 1] by (simp add: in64_def int_limits)

text \<open>
  C40. \<^verbatim>\<open>safeMul\<close> is exact: away from the smallest int64 it returns the product exactly when the
  product's magnitude fits, and reports an overflow otherwise. The restriction is necessary: negating
  the smallest int64 wraps, and \<^verbatim>\<open>safeMul(math.MinInt64, 2)\<close> reports no overflow and the product 0.
\<close>

theorem safeMul_exact:
  assumes "in64 a" and "in64 b" and "a \<noteq> MinInt64" and "b \<noteq> MinInt64"
  shows "safeMul a b = (if \<bar>a * b\<bar> \<le> MaxInt64 then (a * b, False) else (0, True))
    \<and> safeMul MinInt64 2 = (0, False)"
proof -
  have "safeMul MinInt64 2 = (0, False)" by code_simp
  then show ?thesis using safeMul_eq [OF assms] by simp
qed

theorem safeMul_exact_witness:
  "safeMul 3037000500 3037000500 = (0, True) \<and> safeMul (-7) 6 = (-42, False)"
  using safeMul_exact [of 3037000500 3037000500] safeMul_exact [of "-7" 6]
  by (simp add: in64_def int_limits)

text \<open>
  A fraction prints and parses back to itself: \<^verbatim>\<open>ParseFraction\<close> inverts \<^verbatim>\<open>Fraction.String\<close> on every
  fraction with a positive denominator whose parts fit an int64.
\<close>

theorem Fraction_roundtrip:
  assumes "0 < Denominator fr" and "int (Numerator fr) \<le> MaxInt64" and "int (Denominator fr) \<le> MaxInt64"
  shows "ParseFraction (Fraction_String fr) = Inr fr"
  using ParseFraction_String [OF assms] .

theorem Fraction_roundtrip_witness:
  "ParseFraction (Fraction_String \<lparr>Numerator = 2, Denominator = 3\<rparr>) = Inr \<lparr>Numerator = 2, Denominator = 3\<rparr>"
  using Fraction_roundtrip [of "\<lparr>Numerator = 2, Denominator = 3\<rparr>"] by (simp add: int_limits)

end
