(* ===== verification/Sampling.thy ===== *)
theory Sampling
  imports Go_Prelude
begin

text \<open>
  Deterministic weighted sampling (\<^verbatim>\<open>libs/rand/sampling.go\<close>): the SplitMix64 generator on 64-bit words,
  random thresholds, and the selection of candidates by cumulative priority. The interface
  \<^verbatim>\<open>Candidate\<close> is a priority function \<open>pri\<close>. The result: with priorities that add up to the given
  total, sampling returns exactly the candidates whose cumulative interval holds each sorted threshold.
\<close>

unbundle bit_operations_syntax

section \<open>Random thresholds\<close>

definition uint64Mask :: uint64 where
  "uint64Mask = 0x7FFFFFFFFFFFFFFF"

text \<open>The generator returns its new state and the random number.\<close>

definition nextRandom :: "uint64 \<Rightarrow> uint64 \<times> uint64" where
  "nextRandom rand =
     (let rand = rand + 0x9e3779b97f4a7c15;
          z = rand;
          z = (z XOR drop_bit 30 z) * 0xbf58476d1ce4e5b9;
          z = (z XOR drop_bit 27 z) * 0x94d049bb133111eb
      in (rand, z XOR drop_bit 31 z))"

definition divider :: nat where
  "divider = 2 ^ 63"

definition RandomThreshold :: "uint64 \<Rightarrow> uint64 \<Rightarrow> uint64 \<times> uint64" where
  "RandomThreshold seed tot =
     (let (seed', r) = nextRandom seed;
          a = unat (r AND uint64Mask) * unat tot div divider
      in (seed', word_of_nat a))"

lemma unat_mask63: "unat (r AND uint64Mask) < divider"
proof -
  have "uint64Mask = mask 63" by (simp add: uint64Mask_def mask_eq_exp_minus_1)
  then have "r AND uint64Mask = take_bit 63 r" by (simp add: take_bit_eq_mask)
  then show ?thesis by (simp add: unsigned_take_bit_eq divider_def take_bit_nat_def)
qed

lemma unat_uint64: "unat (w :: uint64) < 2 ^ 64"
  using unsigned_less [of w, where ?'a = nat] by simp

lemma RandomThreshold_less:
  assumes "0 < tot"
  shows "snd (RandomThreshold seed tot) < tot"
proof -
  obtain seed' r where n: "nextRandom seed = (seed', r)" by fastforce
  let ?a = "unat (r AND uint64Mask) * unat tot div divider"
  have "0 < unat tot" using assms by (simp add: unat_gt_0 word_gt_0)
  then have "unat (r AND uint64Mask) * unat tot < unat tot * divider"
    using unat_mask63 [of r] by (simp add: mult.commute)
  then have lt: "?a < unat tot" by (rule less_mult_imp_div_less)
  then have "?a < 2 ^ 64" using unat_uint64 [of tot] by linarith
  then have "unat (word_of_nat ?a :: uint64) = ?a" by (simp add: unsigned_of_nat take_bit_nat_def)
  then show ?thesis using n lt by (simp add: RandomThreshold_def word_less_nat_alt)
qed

section \<open>Sampling\<close>

datatype priority_error = CandidatesEmpty | ZeroPriority | TotalMismatch

definition actualTotalPriority :: "('c \<Rightarrow> uint64) \<Rightarrow> 'c list \<Rightarrow> uint64" where
  "actualTotalPriority pri candidates = fold (\<lambda>c acc. acc + pri c) candidates 0"

definition checkInvalidPriority :: "('c \<Rightarrow> uint64) \<Rightarrow> 'c list \<Rightarrow> uint64 \<Rightarrow> priority_error option" where
  "checkInvalidPriority pri candidates totalPriority =
     (let actual = actualTotalPriority pri candidates in
      if length candidates = 0 then Some CandidatesEmpty
      else if totalPriority = 0 \<or> actual = 0 then Some ZeroPriority
      else if actual \<noteq> totalPriority then Some TotalMismatch
      else None)"

fun thresholds_from :: "uint64 \<Rightarrow> uint64 \<Rightarrow> nat \<Rightarrow> uint64 list" where
  "thresholds_from seed tot 0 = []"
| "thresholds_from seed tot (Suc n) =
     (let (seed', t) = RandomThreshold seed tot in t # thresholds_from seed' tot n)"

text \<open>
  The inner loop of the extraction gives the candidate to every leading threshold below the limit. The
  thresholds not yet drawn and the samples stored so far stand for the array position \<^verbatim>\<open>undrawn\<close>.
\<close>

fun draw :: "uint64 list \<Rightarrow> uint64 \<Rightarrow> 'c \<Rightarrow> 'c list \<Rightarrow> 'c list \<times> uint64 list" where
  "draw [] limit candidate samples = (samples, [])"
| "draw (t # ts) limit candidate samples =
     (if t < limit then draw ts limit candidate (samples @ [candidate]) else (samples, t # ts))"

fun extract_samples :: "('c \<Rightarrow> uint64) \<Rightarrow> 'c list \<Rightarrow> uint64 \<Rightarrow> uint64 list \<Rightarrow> 'c list \<Rightarrow> 'c list go" where
  "extract_samples pri [] cumulativePriority undrawn samples = Panic"
| "extract_samples pri (candidate # candidates) cumulativePriority undrawn samples =
     (if undrawn = [] then Panic
      else
        let (samples', undrawn') = draw undrawn (cumulativePriority + pri candidate) candidate samples in
        if undrawn' = [] then Ret samples'
        else extract_samples pri candidates (cumulativePriority + pri candidate) undrawn' samples')"

definition RandomSamplingWithPriority ::
  "('c \<Rightarrow> uint64) \<Rightarrow> uint64 \<Rightarrow> 'c list \<Rightarrow> int64 \<Rightarrow> uint64 \<Rightarrow> 'c list go" where
  "RandomSamplingWithPriority pri seed candidates sampleSize totalPriority =
     (if checkInvalidPriority pri candidates totalPriority \<noteq> None then Panic
      else if sampleSize < 0 then Panic
      else
        let thresholds = sort_by (<) (thresholds_from seed totalPriority (nat sampleSize))
        in extract_samples pri candidates 0 thresholds [])"

section \<open>What is sampled\<close>

text \<open>The candidate whose interval of cumulative priorities holds the threshold.\<close>

fun pick :: "('c \<Rightarrow> uint64) \<Rightarrow> 'c list \<Rightarrow> nat \<Rightarrow> 'c option" where
  "pick pri [] t = None"
| "pick pri (c # cs) t = (if t < unat (pri c) then Some c else pick pri cs (t - unat (pri c)))"

definition total_priority :: "('c \<Rightarrow> uint64) \<Rightarrow> 'c list \<Rightarrow> nat" where
  "total_priority pri cs = sum_list (map (\<lambda>c. unat (pri c)) cs)"

lemma pick_Some: "t < total_priority pri cs \<Longrightarrow> \<exists>c \<in> set cs. pick pri cs t = Some c \<and> 0 < pri c"
proof (induction cs arbitrary: t)
  case (Cons c cs)
  then show ?case
    by (cases "t < unat (pri c)") (auto simp: total_priority_def word_gt_0 unat_gt_0 intro: gr_zeroI)
qed (simp add: total_priority_def)

lemma fold_uint64_sum:
  "unat a + total_priority pri cs < 2 ^ 64 \<Longrightarrow>
   unat (fold (\<lambda>c acc. acc + pri c) cs a) = unat a + total_priority pri cs"
proof (induction cs arbitrary: a)
  case (Cons c cs)
  have "unat (a + pri c) = unat a + unat (pri c)"
    using Cons.prems by (simp add: total_priority_def unat_word_ariths)
  then show ?case using Cons by (simp add: total_priority_def)
qed (simp add: total_priority_def)

lemma draw_split:
  "sorted ts \<Longrightarrow> draw ts lim c acc =
     (acc @ map (\<lambda>_. c) (filter (\<lambda>t. t < lim) ts), filter (\<lambda>t. \<not> t < lim) ts)"
proof (induction ts lim c acc rule: draw.induct)
  case (2 t ts lim c acc)
  then have "\<forall>t' \<in> set ts. \<not> t < lim \<longrightarrow> \<not> t' < lim" by auto
  then show ?case using 2 by (auto simp: filter_empty_conv)
qed simp

lemma sorted_filter_split:
  "sorted (ts :: 'a :: linorder list) \<Longrightarrow> filter (\<lambda>t. t < lim) ts @ filter (\<lambda>t. \<not> t < lim) ts = ts"
proof (induction ts)
  case (Cons t ts)
  have "filter (\<lambda>t. t < lim) ts = []" if "\<not> t < lim"
    using that Cons.prems by (auto simp: filter_empty_conv)
  then show ?case using Cons by auto
qed simp

lemma extract_pick:
  assumes "sorted ts" and "ts \<noteq> []" and "\<forall>t \<in> set ts. cum \<le> t \<and> unat t < unat cum + total_priority pri cs"
    and "unat cum + total_priority pri cs < 2 ^ 64"
  shows "extract_samples pri cs cum ts acc
    = Ret (acc @ map (\<lambda>t. the (pick pri cs (unat t - unat cum))) ts)"
  using assms
proof (induction cs arbitrary: cum ts acc)
  case Nil
  then show ?case by (cases ts) (auto simp: total_priority_def word_le_nat_alt)
next
  case (Cons c cs)
  let ?lim = "cum + pri c" and ?in = "filter (\<lambda>t. t < cum + pri c) ts"
  let ?out = "filter (\<lambda>t. \<not> t < cum + pri c) ts"
  have lim: "unat ?lim = unat cum + unat (pri c)"
    using Cons.prems(4) by (simp add: total_priority_def unat_word_ariths)
  have order: "ts = ?in @ ?out"
    using sorted_filter_split [OF Cons.prems(1), of ?lim] by simp
  have "the (pick pri (c # cs) (unat t - unat cum)) = c" if "t \<in> set ?in" for t
    using that lim Cons.prems(3) by (auto simp: word_less_nat_alt word_le_nat_alt)
  then have ins: "map (\<lambda>_. c) ?in = map (\<lambda>t. the (pick pri (c # cs) (unat t - unat cum))) ?in" by simp
  have "pick pri (c # cs) (unat t - unat cum) = pick pri cs (unat t - unat ?lim)" if "t \<in> set ?out" for t
    using that lim Cons.prems(3) by (auto simp: word_less_nat_alt word_le_nat_alt)
  then have outs: "map (\<lambda>t. the (pick pri (c # cs) (unat t - unat cum))) ?out
      = map (\<lambda>t. the (pick pri cs (unat t - unat ?lim))) ?out" by simp
  show ?case
  proof (cases "?out = []")
    case True
    then show ?thesis
      using order ins Cons.prems(2) draw_split [OF Cons.prems(1), of ?lim c acc] by simp
  next
    case False
    have "extract_samples pri cs ?lim ?out (acc @ map (\<lambda>_. c) ?in)
        = Ret ((acc @ map (\<lambda>_. c) ?in) @ map (\<lambda>t. the (pick pri cs (unat t - unat ?lim))) ?out)"
      using Cons.prems(1,3,4) False lim
      by (intro Cons.IH) (auto simp: sorted_wrt_filter total_priority_def not_less)
    then show ?thesis
      using False Cons.prems(2) draw_split [OF Cons.prems(1), of ?lim c acc] ins outs
        arg_cong [OF order, of "map (\<lambda>t. the (pick pri (c # cs) (unat t - unat cum)))"]
      by simp
  qed
qed

interpretation threshold_sort: sort_interface "(<) :: uint64 \<Rightarrow> uint64 \<Rightarrow> bool" "\<lambda>t. t"
  by unfold_locales simp

lemma thresholds_less: "0 < tot \<Longrightarrow> t \<in> set (thresholds_from seed tot n) \<Longrightarrow> t < tot"
  using RandomThreshold_less by (induction n arbitrary: seed) (auto split: prod.splits, metis snd_conv)

lemma length_thresholds: "length (thresholds_from seed tot n) = n"
  by (induction n arbitrary: seed) (auto split: prod.splits)

text \<open>
  With priorities that add up to the total, sampling returns, and it returns the candidates picked by
  the sorted thresholds.
\<close>

lemma RandomSampling_eq:
  assumes "0 < totalPriority" and "total_priority pri cs = unat totalPriority" and "0 < n"
  shows "RandomSamplingWithPriority pri seed cs n totalPriority
    = Ret (map (\<lambda>t. the (pick pri cs (unat t))) (sort_by (<) (thresholds_from seed totalPriority (nat n))))"
proof -
  let ?ts = "sort_by (<) (thresholds_from seed totalPriority (nat n))"
  have "unat (actualTotalPriority pri cs) = unat totalPriority"
    using fold_uint64_sum [of 0 pri cs] assms(2) unat_uint64 [of totalPriority]
    by (simp add: actualTotalPriority_def)
  then have tot: "actualTotalPriority pri cs = totalPriority" by (simp add: word_unat_eq_iff)
  have "cs \<noteq> []" using assms(1,2) by (auto simp: total_priority_def word_less_nat_alt)
  then have ok: "checkInvalidPriority pri cs totalPriority = None"
    using tot assms(1) by (simp add: checkInvalidPriority_def word_gt_0)
  have "extract_samples pri cs 0 ?ts [] = Ret ([] @ map (\<lambda>t. the (pick pri cs (unat t - unat (0 :: uint64)))) ?ts)"
  proof (rule extract_pick)
    show "sorted ?ts" using threshold_sort.sorted_sort_by by simp
    have "length ?ts = nat n" by (simp add: length_thresholds)
    then show "?ts \<noteq> []" using assms(3) by (metis list.size(3) zero_less_nat_eq less_irrefl)
    show "\<forall>t \<in> set ?ts. 0 \<le> t \<and> unat t < unat (0 :: uint64) + total_priority pri cs"
      using thresholds_less [OF assms(1)] assms(2) by (auto simp: word_less_nat_alt)
    show "unat (0 :: uint64) + total_priority pri cs < 2 ^ 64"
      using assms(2) unat_uint64 [of totalPriority] by simp
  qed
  then show ?thesis using ok assms(3) by (simp add: RandomSamplingWithPriority_def Let_def)
qed

lemma RandomSampling_samples:
  assumes "0 < totalPriority" and "total_priority pri cs = unat totalPriority" and "0 < n"
  shows "\<exists>samples. RandomSamplingWithPriority pri seed cs n totalPriority = Ret samples
    \<and> length samples = nat n \<and> (\<forall>s \<in> set samples. s \<in> set cs \<and> 0 < pri s)"
proof -
  have "the (pick pri cs (unat t)) \<in> set cs \<and> 0 < pri (the (pick pri cs (unat t)))"
    if "t \<in> set (thresholds_from seed totalPriority (nat n))" for t
    using pick_Some [of "unat t" pri cs] thresholds_less [OF assms(1) that] assms(2)
    by (auto simp: word_less_nat_alt)
  then show ?thesis
    using RandomSampling_eq [OF assms] by (auto simp: length_thresholds)
qed

section \<open>Properties\<close>

text \<open>
  C36. Weighted sampling follows its specification: when the priorities add up to the given total, both
  positive, and at least one sample is asked for, \<^verbatim>\<open>RandomSamplingWithPriority\<close> does not panic and returns,
  for each sorted random threshold, the candidate whose interval of cumulative priorities holds it.
  There are as many samples as asked for and each is a candidate of positive priority.
\<close>

theorem Sampling_by_cumulative_priority:
  assumes "0 < totalPriority" and "total_priority pri cs = unat totalPriority" and "0 < n"
  shows "\<exists>samples. RandomSamplingWithPriority pri seed cs n totalPriority = Ret samples
    \<and> samples = map (\<lambda>t. the (pick pri cs (unat t))) (sort_by (<) (thresholds_from seed totalPriority (nat n)))
    \<and> length samples = nat n \<and> (\<forall>s \<in> set samples. s \<in> set cs \<and> 0 < pri s)"
  using RandomSampling_eq [OF assms, of seed] RandomSampling_samples [OF assms, of seed] by auto

theorem Sampling_by_cumulative_priority_witness:
  "\<exists>samples. RandomSamplingWithPriority (\<lambda>c. word_of_nat c) 42 [3, 0, 5] 2 8 = Ret samples \<and> length samples = 2"
proof -
  have "total_priority (\<lambda>c. word_of_nat c :: uint64) [3, 0, 5] = unat (8 :: uint64)" by code_simp
  then show ?thesis using Sampling_by_cumulative_priority [of 8 "\<lambda>c. word_of_nat c" "[3, 0, 5]" 2 42] by auto
qed

end
