(* ===== verification/Pub_Key.thy ===== *)
theory Pub_Key
  imports Encoding Merkle_Proof
begin

text \<open>
  The public keys of \<^verbatim>\<open>crypto\<close>: the key types of the packages \<^verbatim>\<open>ed25519\<close>, \<^verbatim>\<open>secp256k1\<close>, \<^verbatim>\<open>bls\<close>,
  \<^verbatim>\<open>sr25519\<close> and \<^verbatim>\<open>composite\<close> as one datatype, with the methods of the interface \<^verbatim>\<open>crypto.PubKey\<close>, the
  BLS signature aggregation and the protobuf codec. The hash functions and the curve arithmetic are
  not part of the repository: they are the fields of a record \<open>crypto_lib\<close> that the definitions take
  as an argument.
\<close>

section \<open>The libraries the keys call\<close>

record crypto_lib =
  sha256 :: "bytes \<Rightarrow> bytes"
  sha512_256 :: "bytes \<Rightarrow> bytes"
  ripemd160 :: "bytes \<Rightarrow> bytes"
  ed25519_Verify :: "bytes \<Rightarrow> bytes \<Rightarrow> bytes \<Rightarrow> bool"
  secp256k1_ParsePubKey :: "bytes \<Rightarrow> bool"
  secp256k1_Verify :: "bytes \<Rightarrow> bytes \<Rightarrow> nat \<times> nat \<Rightarrow> bool"
  secp256k1_N :: nat
  sr25519_Verify :: "bytes \<Rightarrow> bytes \<Rightarrow> bytes \<Rightarrow> bool"
  bls_DeserializeKey :: "bytes \<Rightarrow> bool"
  bls_DeserializeSign :: "bytes \<Rightarrow> bool"
  bls_VerifyHash :: "bytes \<Rightarrow> bytes \<Rightarrow> bytes \<Rightarrow> bool"
  bls_VerifyAggregateHashes :: "bytes \<Rightarrow> bytes list \<Rightarrow> bytes list \<Rightarrow> bool"
  bls_ZeroSign :: bytes
  bls_AddSign :: "bytes \<Rightarrow> bytes \<Rightarrow> bytes"
  vrf_Verify :: "bytes \<Rightarrow> bytes \<Rightarrow> bytes \<Rightarrow> bool option"
  vrf_ProofToHash :: "bytes \<Rightarrow> bytes option"

definition TruncatedSize :: nat where
  "TruncatedSize = 20"

definition AddressSize :: nat where
  "AddressSize = TruncatedSize"

definition SumTruncated :: "crypto_lib \<Rightarrow> bytes \<Rightarrow> bytes" where
  "SumTruncated C bz = take TruncatedSize (sha256 C bz)"

section \<open>Keys\<close>

datatype PubKey =
    PubKeyEd25519 bytes
  | PubKeySecp256k1 bytes
  | PubKeyBLS12 bytes
  | PubKeySr25519 bytes
  | PubKeyComposite (SignKey: PubKey) (VrfKey: PubKey)

definition ed25519_PubKeySize :: nat where "ed25519_PubKeySize = 32"
definition ed25519_SignatureSize :: nat where "ed25519_SignatureSize = 64"
definition secp256k1_PubKeySize :: nat where "secp256k1_PubKeySize = 33"
definition bls_PubKeySize :: nat where "bls_PubKeySize = 48"
definition bls_SignatureSize :: nat where "bls_SignatureSize = 96"
definition sr25519_SignatureSize :: nat where "sr25519_SignatureSize = 64"

fun PubKey_Bytes :: "PubKey \<Rightarrow> bytes" where
  "PubKey_Bytes (PubKeyEd25519 k) = k"
| "PubKey_Bytes (PubKeySecp256k1 k) = k"
| "PubKey_Bytes (PubKeyBLS12 k) = k"
| "PubKey_Bytes (PubKeySr25519 k) = k"
| "PubKey_Bytes (PubKeyComposite s v) = PubKey_Bytes s @ PubKey_Bytes v"

definition ed25519_Address :: "crypto_lib \<Rightarrow> bytes \<Rightarrow> bytes go" where
  "ed25519_Address C k = (if length k \<noteq> ed25519_PubKeySize then Panic else Ret (SumTruncated C k))"

definition secp256k1_Address :: "crypto_lib \<Rightarrow> bytes \<Rightarrow> bytes go" where
  "secp256k1_Address C k =
     (if length k \<noteq> secp256k1_PubKeySize then Panic else Ret (ripemd160 C (sha256 C k)))"

definition bls_Address :: "crypto_lib \<Rightarrow> bytes \<Rightarrow> bytes" where
  "bls_Address C k = SumTruncated C k"

definition sr25519_Address :: "crypto_lib \<Rightarrow> bytes \<Rightarrow> bytes" where
  "sr25519_Address C k = SumTruncated C k"

definition PubKey_Address :: "crypto_lib \<Rightarrow> PubKey \<Rightarrow> bytes go" where
  "PubKey_Address C pk = (case pk of
       PubKeyEd25519 k \<Rightarrow> ed25519_Address C k
     | PubKeySecp256k1 k \<Rightarrow> secp256k1_Address C k
     | PubKeyBLS12 k \<Rightarrow> Ret (bls_Address C k)
     | PubKeySr25519 k \<Rightarrow> Ret (sr25519_Address C k)
     | PubKeyComposite _ _ \<Rightarrow> Ret (SumTruncated C (PubKey_Bytes pk)))"

text \<open>\<^verbatim>\<open>big.Int.SetBytes\<close> and \<^verbatim>\<open>big.Int.Bytes\<close>: big-endian, without leading zeros.\<close>

definition SetBytes :: "bytes \<Rightarrow> nat" where
  "SetBytes bz = foldl (\<lambda>n b. n * 256 + unat b) 0 bz"

fun int_Bytes :: "nat \<Rightarrow> bytes" where
  "int_Bytes n = (if n = 0 then [] else int_Bytes (n div 256) @ [word_of_nat (n mod 256)])"

declare int_Bytes.simps [simp del]

definition signatureFromBytes :: "bytes \<Rightarrow> nat \<times> nat" where
  "signatureFromBytes sigStr = (SetBytes (take 32 sigStr), SetBytes (drop 32 (take 64 sigStr)))"

text \<open>A number of more than 32 bytes makes the slice bound negative, a panic.\<close>

definition serializeSig :: "nat \<times> nat \<Rightarrow> bytes go" where
  "serializeSig sig =
     (let rBytes = int_Bytes (fst sig); sBytes = int_Bytes (snd sig) in
      if length rBytes > 32 \<or> length sBytes > 64 then Panic
      else
        let sigBytes = replicate (32 - length rBytes) 0 @ rBytes @ replicate 32 0
        in Ret (take (64 - length sBytes) sigBytes @ sBytes))"

definition ed25519_VerifySignature :: "crypto_lib \<Rightarrow> bytes \<Rightarrow> bytes \<Rightarrow> bytes \<Rightarrow> bool" where
  "ed25519_VerifySignature C k msg sig =
     (if length sig \<noteq> ed25519_SignatureSize then False else ed25519_Verify C k msg sig)"

definition secp256k1_VerifySignature :: "crypto_lib \<Rightarrow> bytes \<Rightarrow> bytes \<Rightarrow> bytes \<Rightarrow> bool" where
  "secp256k1_VerifySignature C k msg sig =
     (if length sig \<noteq> 64 then False
      else if \<not> secp256k1_ParsePubKey C k then False
      else
        let signature = signatureFromBytes sig in
        if snd signature > secp256k1_N C div 2 then False
        else secp256k1_Verify C k (sha256 C msg) signature)"

definition bls_VerifySignature :: "crypto_lib \<Rightarrow> bytes \<Rightarrow> bytes \<Rightarrow> bytes \<Rightarrow> bool" where
  "bls_VerifySignature C k msg sig =
     (if length sig \<noteq> bls_SignatureSize then False
      else if \<not> bls_DeserializeKey C k then False
      else if \<not> bls_DeserializeSign C sig then False
      else bls_VerifyHash C k (sha512_256 C msg) sig)"

definition sr25519_VerifySignature :: "crypto_lib \<Rightarrow> bytes \<Rightarrow> bytes \<Rightarrow> bytes \<Rightarrow> bool" where
  "sr25519_VerifySignature C k msg sig =
     (if length sig \<noteq> sr25519_SignatureSize then False else sr25519_Verify C k msg sig)"

fun PubKey_VerifySignature :: "crypto_lib \<Rightarrow> PubKey \<Rightarrow> bytes \<Rightarrow> bytes \<Rightarrow> bool" where
  "PubKey_VerifySignature C (PubKeyEd25519 k) msg sig = ed25519_VerifySignature C k msg sig"
| "PubKey_VerifySignature C (PubKeySecp256k1 k) msg sig = secp256k1_VerifySignature C k msg sig"
| "PubKey_VerifySignature C (PubKeyBLS12 k) msg sig = bls_VerifySignature C k msg sig"
| "PubKey_VerifySignature C (PubKeySr25519 k) msg sig = sr25519_VerifySignature C k msg sig"
| "PubKey_VerifySignature C (PubKeyComposite s v) msg sig = PubKey_VerifySignature C s msg sig"

datatype vrf_error = VRFNotSupported | InvalidVRFProof | ProofNotFromKey | ProofToHashFailed

definition ed25519_VRFVerify :: "crypto_lib \<Rightarrow> bytes \<Rightarrow> bytes \<Rightarrow> bytes \<Rightarrow> vrf_error + bytes" where
  "ed25519_VRFVerify C k pr message =
     (case vrf_Verify C k pr message of
        None \<Rightarrow> Inl InvalidVRFProof
      | Some valid \<Rightarrow>
          if \<not> valid then Inl ProofNotFromKey
          else (case vrf_ProofToHash C pr of None \<Rightarrow> Inl ProofToHashFailed | Some output \<Rightarrow> Inr output))"

fun PubKey_VRFVerify :: "crypto_lib \<Rightarrow> PubKey \<Rightarrow> bytes \<Rightarrow> bytes \<Rightarrow> vrf_error + bytes" where
  "PubKey_VRFVerify C (PubKeyEd25519 k) pr message = ed25519_VRFVerify C k pr message"
| "PubKey_VRFVerify C (PubKeyComposite s v) pr message = PubKey_VRFVerify C v pr message"
| "PubKey_VRFVerify C pk pr message = Inl VRFNotSupported"

fun PubKey_Equals :: "PubKey \<Rightarrow> PubKey \<Rightarrow> bool" where
  "PubKey_Equals (PubKeyEd25519 a) k = (case k of PubKeyEd25519 b \<Rightarrow> a = b | _ \<Rightarrow> False)"
| "PubKey_Equals (PubKeySecp256k1 a) k = (case k of PubKeySecp256k1 b \<Rightarrow> a = b | _ \<Rightarrow> False)"
| "PubKey_Equals (PubKeyBLS12 a) k = (case k of PubKeyBLS12 b \<Rightarrow> a = b | _ \<Rightarrow> False)"
| "PubKey_Equals (PubKeySr25519 a) k = (case k of PubKeySr25519 b \<Rightarrow> a = b | _ \<Rightarrow> False)"
| "PubKey_Equals (PubKeyComposite s v) k =
     (case k of PubKeyComposite s' v' \<Rightarrow> PubKey_Equals s s' \<and> PubKey_Equals v v' | _ \<Rightarrow> False)"

fun PubKey_Type :: "PubKey \<Rightarrow> string" where
  "PubKey_Type (PubKeyEd25519 _) = ''ed25519''"
| "PubKey_Type (PubKeySecp256k1 _) = ''secp256k1''"
| "PubKey_Type (PubKeyBLS12 _) = ''bls12-381''"
| "PubKey_Type (PubKeySr25519 _) = ''sr25519''"
| "PubKey_Type (PubKeyComposite s v) = ''composite('' @ PubKey_Type s @ '','' @ PubKey_Type v @ '')''"

definition composite_PubKeyFromBytes :: "bytes \<Rightarrow> PubKey go" where
  "composite_PubKeyFromBytes bz =
     (if length bz \<noteq> bls_PubKeySize + ed25519_PubKeySize then Panic
      else Ret (PubKeyComposite (PubKeyBLS12 (take bls_PubKeySize bz)) (PubKeyEd25519 (drop bls_PubKeySize bz))))"

section \<open>BLS aggregation\<close>

datatype bls_error = BadAggregateSize nat | BadSignatureSize nat | BadSignature | BadAggregate
  | KeyMessageCount nat nat | AggregateOmitted nat | BadKey | VerifyAggregateFailed nat

definition AddSignature :: "crypto_lib \<Rightarrow> bytes option \<Rightarrow> bytes \<Rightarrow> bls_error + bytes" where
  "AddSignature C init signature =
     (let init' = (case init of None \<Rightarrow> bls_ZeroSign C | Some i \<Rightarrow> i) in
      if init \<noteq> None \<and> length init' \<noteq> bls_SignatureSize then Inl (BadAggregateSize (length init'))
      else if length signature \<noteq> bls_SignatureSize then Inl (BadSignatureSize (length signature))
      else if \<not> bls_DeserializeSign C signature then Inl BadSignature
      else if \<not> bls_DeserializeSign C init' then Inl BadAggregate
      else Inr (bls_AddSign C init' signature))"

definition VerifyAggregatedSignature ::
  "crypto_lib \<Rightarrow> bytes option \<Rightarrow> bytes list \<Rightarrow> bytes list \<Rightarrow> bls_error option" where
  "VerifyAggregatedSignature C aggregatedSignature pubKeys msgs =
     (if length pubKeys \<noteq> length msgs then Some (KeyMessageCount (length pubKeys) (length msgs))
      else (case aggregatedSignature of
          None \<Rightarrow> if length pubKeys = 0 then None else Some (AggregateOmitted (length pubKeys))
        | Some sig \<Rightarrow>
            if \<not> bls_DeserializeSign C sig then Some BadAggregate
            else if \<not> list_all (bls_DeserializeKey C) pubKeys then Some BadKey
            else if \<not> bls_VerifyAggregateHashes C sig pubKeys (map (sha512_256 C) msgs)
              then Some (VerifyAggregateFailed (length pubKeys))
            else None))"

section \<open>The protobuf codec\<close>

text \<open>The oneof of \<^verbatim>\<open>pc.PublicKey\<close>; the members of a composite key are pointers.\<close>

datatype PublicKeyPB =
    PB_Unset
  | PB_Ed25519 bytes
  | PB_Secp256K1 bytes
  | PB_Bls12 bytes
  | PB_Composite "PublicKeyPB option" "PublicKeyPB option"

datatype codec_error = UnsupportedKey | BadSize nat nat

fun PubKeyToProto :: "PubKey \<Rightarrow> codec_error + PublicKeyPB" where
  "PubKeyToProto (PubKeyComposite s v) =
     (case PubKeyToProto s of
        Inl err \<Rightarrow> Inl err
      | Inr sign \<Rightarrow>
          (case PubKeyToProto v of
             Inl err \<Rightarrow> Inl err
           | Inr vrf \<Rightarrow> Inr (PB_Composite (Some sign) (Some vrf))))"
| "PubKeyToProto (PubKeyBLS12 k) = Inr (PB_Bls12 k)"
| "PubKeyToProto (PubKeyEd25519 k) = Inr (PB_Ed25519 k)"
| "PubKeyToProto (PubKeySecp256k1 k) = Inr (PB_Secp256K1 k)"
| "PubKeyToProto (PubKeySr25519 k) = Inl UnsupportedKey"

text \<open>A nil member of a composite key is dereferenced. The size a bad BLS key is compared with in the message is the Ed25519 one.\<close>

fun PubKeyFromProto :: "PublicKeyPB \<Rightarrow> (codec_error + PubKey) go" where
  "PubKeyFromProto (PB_Composite (Some sign) (Some vrf)) =
     do {
       s \<leftarrow> PubKeyFromProto sign;
       (case s of
          Inl err \<Rightarrow> Ret (Inl err)
        | Inr s' \<Rightarrow>
            do {
              v \<leftarrow> PubKeyFromProto vrf;
              (case v of Inl err \<Rightarrow> Ret (Inl err) | Inr v' \<Rightarrow> Ret (Inr (PubKeyComposite s' v')))
            })
     }"
| "PubKeyFromProto (PB_Composite (Some sign) None) =
     do {
       s \<leftarrow> PubKeyFromProto sign;
       (case s of Inl err \<Rightarrow> Ret (Inl err) | Inr _ \<Rightarrow> Panic)
     }"
| "PubKeyFromProto (PB_Composite None _) = Panic"
| "PubKeyFromProto (PB_Bls12 k) =
     (if length k \<noteq> bls_PubKeySize then Ret (Inl (BadSize (length k) ed25519_PubKeySize))
      else Ret (Inr (PubKeyBLS12 k)))"
| "PubKeyFromProto (PB_Ed25519 k) =
     (if length k \<noteq> ed25519_PubKeySize then Ret (Inl (BadSize (length k) ed25519_PubKeySize))
      else Ret (Inr (PubKeyEd25519 k)))"
| "PubKeyFromProto (PB_Secp256K1 k) =
     (if length k \<noteq> secp256k1_PubKeySize then Ret (Inl (BadSize (length k) secp256k1_PubKeySize))
      else Ret (Inr (PubKeySecp256k1 k)))"
| "PubKeyFromProto PB_Unset = Ret (Inl UnsupportedKey)"

section \<open>Laws\<close>

text \<open>The keys the codec carries: no Sr25519 member, each of its scheme's size.\<close>

fun wf_PubKey :: "PubKey \<Rightarrow> bool" where
  "wf_PubKey (PubKeyEd25519 k) \<longleftrightarrow> length k = ed25519_PubKeySize"
| "wf_PubKey (PubKeySecp256k1 k) \<longleftrightarrow> length k = secp256k1_PubKeySize"
| "wf_PubKey (PubKeyBLS12 k) \<longleftrightarrow> length k = bls_PubKeySize"
| "wf_PubKey (PubKeySr25519 k) \<longleftrightarrow> False"
| "wf_PubKey (PubKeyComposite s v) \<longleftrightarrow> wf_PubKey s \<and> wf_PubKey v"

lemma PubKey_codec_roundtrip:
  "wf_PubKey pk \<Longrightarrow> \<exists>pb. PubKeyToProto pk = Inr pb \<and> PubKeyFromProto pb = Ret (Inr pk)"
  by (induction pk) auto

lemma PubKeyFromProto_wf: "PubKeyFromProto pb = Ret (Inr pk) \<Longrightarrow> wf_PubKey pk \<and> PubKeyToProto pk = Inr pb"
  by (induction pb arbitrary: pk rule: PubKeyFromProto.induct)
    (auto split: if_splits sum.splits bind_splits)

lemma PubKey_Equals_iff: "PubKey_Equals a b \<longleftrightarrow> a = b"
  by (induction a arbitrary: b) (auto split: PubKey.splits)

lemma PubKey_Address_length:
  assumes "wf_PubKey pk" and "\<forall>x. length (sha256 C x) = 32" and "\<forall>x. length (ripemd160 C x) = 20"
  shows "\<exists>a. PubKey_Address C pk = Ret a \<and> length a = AddressSize"
  using assms 
  by (cases pk) (auto simp: PubKey_Address_def ed25519_Address_def secp256k1_Address_def bls_Address_def
      SumTruncated_def AddressSize_def TruncatedSize_def)

lemma composite_FromBytes_roundtrip:
  assumes "length b = bls_PubKeySize" and "length e = ed25519_PubKeySize"
  shows "composite_PubKeyFromBytes (PubKey_Bytes (PubKeyComposite (PubKeyBLS12 b) (PubKeyEd25519 e)))
    = Ret (PubKeyComposite (PubKeyBLS12 b) (PubKeyEd25519 e))"
  using assms by (simp add: composite_PubKeyFromBytes_def)

lemma SetBytes_append: "SetBytes (bz @ [b]) = SetBytes bz * 256 + unat b"
  by (simp add: SetBytes_def)

lemma SetBytes_int_Bytes: "SetBytes (int_Bytes n) = n"
proof (induction n rule: int_Bytes.induct)
  case (1 n)
  show ?case
  proof (cases "n = 0")
    case True
    then show ?thesis by (simp add: int_Bytes.simps [of 0] SetBytes_def)
  next
    case False
    have "unat (word_of_nat (n mod 256) :: byte) = n mod 256" by (simp add: unsigned_of_nat take_bit_nat_def)
    then show ?thesis using 1 [OF False] False by (simp add: int_Bytes.simps [of n] SetBytes_append)
  qed
qed

lemma SetBytes_pad: "SetBytes (replicate k 0 @ bz) = SetBytes bz"
proof -
  have "foldl (\<lambda>n b. n * 256 + unat b) 0 (replicate k (0 :: byte)) = 0" by (induction k) simp_all
  then show ?thesis by (simp add: SetBytes_def)
qed

lemma length_int_Bytes: "n < 256 ^ k \<Longrightarrow> length (int_Bytes n) \<le> k"
proof (induction n arbitrary: k rule: int_Bytes.induct)
  case (1 n)
  show ?case
  proof (cases "n = 0")
    case True
    then show ?thesis by (simp add: int_Bytes.simps [of 0])
  next
    case False
    then obtain j where k: "k = Suc j" using "1.prems" by (cases k) auto
    then have "n div 256 < 256 ^ j" using "1.prems" by (simp add: less_mult_imp_div_less mult.commute)
    then show ?thesis using "1.IH" [OF False, of j] False k by (simp add: int_Bytes.simps [of n])
  qed
qed

lemma serializeSig_roundtrip:
  assumes "R < 256 ^ 32" and "S < 256 ^ 32"
  shows "\<exists>bz. serializeSig (R, S) = Ret bz \<and> length bz = 64 \<and> signatureFromBytes bz = (R, S)"
proof -
  let ?r = "int_Bytes R" and ?s = "int_Bytes S"
  have len: "length ?r \<le> 32" "length ?s \<le> 32" using length_int_Bytes assms by auto
  then have bz: "serializeSig (R, S)
      = Ret ((replicate (32 - length ?r) 0 @ ?r) @ replicate (32 - length ?s) 0 @ ?s)"
    by (simp add: serializeSig_def Let_def)
  show ?thesis
    unfolding bz signatureFromBytes_def
    using len SetBytes_pad [of "32 - length ?r" ?r] SetBytes_pad [of "32 - length ?s" ?s]
    by (simp add: SetBytes_int_Bytes)
qed

section \<open>Properties\<close>

text \<open>
  C39. The public key codec is a bijection on the keys it accepts: every key whose parts have their
  scheme's size is encoded and decodes to itself, and every decoded key has that form and encodes to the
  message it came from.
\<close>

theorem PubKey_codec_inverse:
  "(wf_PubKey pk \<longrightarrow> (\<exists>pb. PubKeyToProto pk = Inr pb \<and> PubKeyFromProto pb = Ret (Inr pk)))
   \<and> (PubKeyFromProto pb' = Ret (Inr pk') \<longrightarrow> wf_PubKey pk' \<and> PubKeyToProto pk' = Inr pb')"
  using PubKey_codec_roundtrip PubKeyFromProto_wf by blast

theorem PubKey_codec_inverse_witness:
  "\<exists>pb. PubKeyToProto (PubKeyComposite (PubKeyBLS12 (replicate 48 1)) (PubKeyEd25519 (replicate 32 2))) = Inr pb
     \<and> PubKeyFromProto pb
       = Ret (Inr (PubKeyComposite (PubKeyBLS12 (replicate 48 1)) (PubKeyEd25519 (replicate 32 2))))"
proof -
  have "wf_PubKey (PubKeyComposite (PubKeyBLS12 (replicate 48 1)) (PubKeyEd25519 (replicate 32 2)))"
    by (simp add: bls_PubKeySize_def ed25519_PubKeySize_def)
  then show ?thesis using PubKey_codec_inverse by blast
qed

text \<open>
  Secp256k1 signatures round-trip: \<^verbatim>\<open>serializeSig\<close> pads both numbers of a signature below \<open>2 ^ 256\<close> to
  64 bytes without panicking, and \<^verbatim>\<open>signatureFromBytes\<close> reads them back.
\<close>

theorem secp256k1_signature_inverse:
  assumes "R < 256 ^ 32" and "S < 256 ^ 32"
  shows "\<exists>bz. serializeSig (R, S) = Ret bz \<and> length bz = 64 \<and> signatureFromBytes bz = (R, S)"
  using serializeSig_roundtrip [OF assms] .

theorem secp256k1_signature_inverse_witness:
  "\<exists>bz. serializeSig (258, 0) = Ret bz \<and> length bz = 64 \<and> signatureFromBytes bz = (258, 0)"
  using secp256k1_signature_inverse [of 258 0] by simp

end
