(* ===== verification/Validator_Set.thy ===== *)
theory Validator_Set
  imports Safe_Math Sampling Pub_Key
begin

text \<open>
  Validators and validator sets (\<^verbatim>\<open>types/validator.go\<close>, \<^verbatim>\<open>types/validator_set.go\<close>). A validator set is
  its list of validators and the cached total voting power, 0 when not computed; \<^verbatim>\<open>TotalVotingPower\<close>
  may fill the cache and so returns the updated set. Methods that write through a pointer return the
  changed value. The generated protobuf encoder of \<^verbatim>\<open>SimpleValidator\<close> is the parameter \<open>marshal\<close>.
\<close>

section \<open>Validators\<close>

record Validator =
  Address :: bytes
  PubKey :: "PubKey option"
  VotingPower :: int64
  VotingWeight :: int64
  ProposerPriority :: int64

datatype validator_error =
    NilValidator
  | NoPublicKey
  | NegativeVotingPower
  | WrongAddressSize bytes

definition NewValidator :: "crypto_lib \<Rightarrow> PubKey \<Rightarrow> int64 \<Rightarrow> Validator go" where
  "NewValidator C pubKey votingPower =
     do {
       a \<leftarrow> PubKey_Address C pubKey;
       Ret \<lparr>Address = a, PubKey = Some pubKey, VotingPower = votingPower, VotingWeight = 0, ProposerPriority = 0\<rparr>
     }"

definition Validator_ValidateBasic :: "Validator option \<Rightarrow> validator_error option" where
  "Validator_ValidateBasic v = (case v of
       None \<Rightarrow> Some NilValidator
     | Some v \<Rightarrow>
         if PubKey v = None then Some NoPublicKey
         else if VotingPower v < 0 then Some NegativeVotingPower
         else if length (Address v) \<noteq> AddressSize then Some (WrongAddressSize (Address v))
         else None)"

definition CompareProposerPriority :: "Validator option \<Rightarrow> Validator \<Rightarrow> Validator go" where
  "CompareProposerPriority v other = (case v of
       None \<Rightarrow> Ret other
     | Some v \<Rightarrow>
         if ProposerPriority v > ProposerPriority other then Ret v
         else if ProposerPriority v < ProposerPriority other then Ret other
         else if Address v < Address other then Ret v
         else if Address v > Address other then Ret other
         else Panic)"

record SimpleValidatorPB =
  sv_PubKey :: PublicKeyPB
  sv_VotingPower :: int64

definition Validator_Bytes :: "(SimpleValidatorPB \<Rightarrow> bytes) \<Rightarrow> Validator \<Rightarrow> bytes go" where
  "Validator_Bytes marshal v = (case PubKey v of
       None \<Rightarrow> Panic
     | Some k \<Rightarrow>
         (case PubKeyToProto k of
            Inl err \<Rightarrow> Panic
          | Inr pk \<Rightarrow> Ret (marshal \<lparr>sv_PubKey = pk, sv_VotingPower = VotingPower v\<rparr>)))"

record ValidatorPB =
  vp_Address :: bytes
  vp_PubKey :: PublicKeyPB
  vp_VotingPower :: int64
  vp_VotingWeight :: int64
  vp_ProposerPriority :: int64

text \<open>A nil public key is not a supported key of the codec.\<close>

definition PubKeyToProto_nil :: "PubKey option \<Rightarrow> codec_error + PublicKeyPB" where
  "PubKeyToProto_nil k = (case k of None \<Rightarrow> Inl UnsupportedKey | Some k \<Rightarrow> PubKeyToProto k)"

definition Validator_ToProto :: "Validator \<Rightarrow> codec_error + ValidatorPB" where
  "Validator_ToProto v = (case PubKeyToProto_nil (PubKey v) of
       Inl err \<Rightarrow> Inl err
     | Inr pk \<Rightarrow> Inr \<lparr>vp_Address = Address v, vp_PubKey = pk, vp_VotingPower = VotingPower v,
         vp_VotingWeight = VotingWeight v, vp_ProposerPriority = ProposerPriority v\<rparr>)"

definition ValidatorFromProto :: "ValidatorPB \<Rightarrow> (codec_error + Validator) go" where
  "ValidatorFromProto vp =
     do {
       pk \<leftarrow> PubKeyFromProto (vp_PubKey vp);
       (case pk of
          Inl err \<Rightarrow> Ret (Inl err)
        | Inr k \<Rightarrow> Ret (Inr \<lparr>Address = vp_Address vp, PubKey = Some k, VotingPower = vp_VotingPower vp,
            VotingWeight = vp_VotingWeight vp, ProposerPriority = vp_ProposerPriority vp\<rparr>))
     }"

section \<open>Validator sets\<close>

definition MaxTotalVotingPower :: int64 where
  "MaxTotalVotingPower = MaxInt64 div 8"

definition MaxTotalVotingWeight :: int64 where
  "MaxTotalVotingWeight = MaxTotalVotingPower + 1000"

definition PriorityWindowSizeFactor :: int64 where
  "PriorityWindowSizeFactor = 2"

record ValidatorSet =
  Validators :: "Validator list"
  totalVotingPower :: int64

datatype valset_error =
    NilOrEmptySet
  | InvalidValidator nat validator_error
  | DuplicateEntry bytes
  | NegativePower int64
  | PowerTooHigh int64
  | DeletesNotAllowed
  | WouldBeEmpty
  | RemovalNotFound bytes
  | ErrTotalVotingPowerOverflow
  | CodecError codec_error

definition IsNilOrEmpty :: "ValidatorSet option \<Rightarrow> bool" where
  "IsNilOrEmpty vals = (case vals of None \<Rightarrow> True | Some vs \<Rightarrow> length (Validators vs) = 0)"

fun validate_each :: "nat \<Rightarrow> Validator list \<Rightarrow> valset_error option" where
  "validate_each idx [] = None"
| "validate_each idx (v # vs) = (case Validator_ValidateBasic (Some v) of
       Some err \<Rightarrow> Some (InvalidValidator idx err)
     | None \<Rightarrow> validate_each (Suc idx) vs)"

definition ValidatorSet_ValidateBasic :: "ValidatorSet option \<Rightarrow> valset_error option" where
  "ValidatorSet_ValidateBasic vals =
     (if IsNilOrEmpty vals then Some NilOrEmptySet
      else (case vals of None \<Rightarrow> None | Some vs \<Rightarrow> validate_each 0 (Validators vs)))"

fun sum_power :: "int64 \<Rightarrow> Validator list \<Rightarrow> int64 go" where
  "sum_power acc [] = Ret acc"
| "sum_power acc (v # vs) =
     (let acc' = safeAddClip acc (VotingPower v) in
      if acc' > MaxTotalVotingPower then Panic else sum_power acc' vs)"

definition updateTotalVotingPower :: "ValidatorSet \<Rightarrow> ValidatorSet go" where
  "updateTotalVotingPower vals =
     do {
       s \<leftarrow> sum_power 0 (Validators vals);
       Ret (vals\<lparr>totalVotingPower := s\<rparr>)
     }"

definition TotalVotingPower :: "ValidatorSet \<Rightarrow> (ValidatorSet \<times> int64) go" where
  "TotalVotingPower vals =
     do {
       vals' \<leftarrow> (if totalVotingPower vals = 0 then updateTotalVotingPower vals else Ret vals);
       Ret (vals', totalVotingPower vals')
     }"

definition HasAddress :: "ValidatorSet \<Rightarrow> bytes \<Rightarrow> bool" where
  "HasAddress vals addr \<longleftrightarrow> list_ex (\<lambda>v. Address v = addr) (Validators vals)"

fun find_address :: "nat \<Rightarrow> Validator list \<Rightarrow> bytes \<Rightarrow> int32 \<times> Validator option" where
  "find_address idx [] addr = (-1, None)"
| "find_address idx (v # vs) addr =
     (if Address v = addr then (wrap32 (int idx), Some v) else find_address (Suc idx) vs addr)"

definition GetByAddress :: "ValidatorSet \<Rightarrow> bytes \<Rightarrow> int32 \<times> Validator option" where
  "GetByAddress vals addr = find_address 0 (Validators vals) addr"

definition GetByIndex :: "ValidatorSet \<Rightarrow> int32 \<Rightarrow> bytes \<times> Validator option" where
  "GetByIndex vals i =
     (if i < 0 \<or> i \<ge> int (length (Validators vals)) then ([], None)
      else let v = Validators vals ! nat i in (Address v, Some v))"

definition ValidatorSet_Size :: "ValidatorSet \<Rightarrow> int" where
  "ValidatorSet_Size vals = int (length (Validators vals))"

definition ValidatorSet_Hash :: "hashfn \<Rightarrow> (SimpleValidatorPB \<Rightarrow> bytes) \<Rightarrow> ValidatorSet \<Rightarrow> bytes go" where
  "ValidatorSet_Hash H marshal vals =
     do {
       bzs \<leftarrow> map_go (Validator_Bytes marshal) (Validators vals);
       Ret (HashFromByteSlices H bzs)
     }"

subsection \<open>Proposer priorities\<close>

definition map_validators :: "(Validator \<Rightarrow> Validator) \<Rightarrow> ValidatorSet \<Rightarrow> ValidatorSet" where
  "map_validators f vals = vals\<lparr>Validators := map f (Validators vals)\<rparr>"

definition computeAvgProposerPriority :: "ValidatorSet \<Rightarrow> int64 go" where
  "computeAvgProposerPriority vals =
     (let n = int (length (Validators vals));
          s = sum_list (map ProposerPriority (Validators vals))
      in if n = 0 then Panic
         else let avg = s div n in if in64 avg then Ret avg else Panic)"

definition computeMaxMinPriorityDiff :: "ValidatorSet \<Rightarrow> int64 go" where
  "computeMaxMinPriorityDiff vals =
     (if length (Validators vals) = 0 then Panic
      else
        let mn = fold (\<lambda>v m. if ProposerPriority v < m then ProposerPriority v else m) (Validators vals) MaxInt64;
            mx = fold (\<lambda>v m. if ProposerPriority v > m then ProposerPriority v else m) (Validators vals) MinInt64;
            diff = wrap64 (mx - mn)
        in if diff < 0 then Ret (wrap64 (-1 * diff)) else Ret diff)"

definition RescalePriorities :: "ValidatorSet \<Rightarrow> int64 \<Rightarrow> ValidatorSet go" where
  "RescalePriorities vals diffMax =
     (if length (Validators vals) = 0 then Panic
      else if diffMax \<le> 0 then Ret vals
      else
        do {
          diff \<leftarrow> computeMaxMinPriorityDiff vals;
          ratio \<leftarrow> go_div (wrap64 (wrap64 (diff + diffMax) - 1)) diffMax;
          if diff > diffMax
          then
            do {
              vs \<leftarrow> map_go (\<lambda>v. do { p \<leftarrow> go_div (ProposerPriority v) ratio; Ret (v\<lparr>ProposerPriority := p\<rparr>) })
                     (Validators vals);
              Ret (vals\<lparr>Validators := vs\<rparr>)
            }
          else Ret vals
        })"

definition shiftByAvgProposerPriority :: "ValidatorSet \<Rightarrow> ValidatorSet go" where
  "shiftByAvgProposerPriority vals =
     (if length (Validators vals) = 0 then Panic
      else
        do {
          avg \<leftarrow> computeAvgProposerPriority vals;
          Ret (map_validators (\<lambda>v. v\<lparr>ProposerPriority := safeSubClip (ProposerPriority v) avg\<rparr>) vals)
        })"

text \<open>\<^verbatim>\<open>getValWithMostPriority\<close> returns a pointer into the list: the validator with its position.\<close>

fun most_priority :: "nat \<Rightarrow> (nat \<times> Validator) option \<Rightarrow> Validator list \<Rightarrow> (nat \<times> Validator) option go" where
  "most_priority i res [] = Ret res"
| "most_priority i res (v # vs) =
     do {
       w \<leftarrow> CompareProposerPriority (map_option snd res) v;
       most_priority (Suc i) (case res of None \<Rightarrow> Some (i, v)
         | Some (j, r) \<Rightarrow> if w = r then Some (j, r) else Some (i, v)) vs
     }"

definition getValWithMostPriority :: "ValidatorSet \<Rightarrow> (nat \<times> Validator) option go" where
  "getValWithMostPriority vals = most_priority 0 None (Validators vals)"

definition incrementProposerPriority :: "ValidatorSet \<Rightarrow> (ValidatorSet \<times> Validator) go" where
  "incrementProposerPriority vals =
     do {
       let vals1 = map_validators
         (\<lambda>v. v\<lparr>ProposerPriority := safeAddClip (ProposerPriority v) (VotingPower v)\<rparr>) vals;
       most \<leftarrow> getValWithMostPriority vals1;
       (case most of
          None \<Rightarrow> Panic
        | Some (i, mostest) \<Rightarrow>
            do {
              (vals2, tvp) \<leftarrow> TotalVotingPower vals1;
              let mostest' = mostest\<lparr>ProposerPriority := safeSubClip (ProposerPriority mostest) tvp\<rparr>;
              Ret (vals2\<lparr>Validators := (Validators vals2)[i := mostest']\<rparr>, mostest')
            })
     }"

fun increment_times :: "nat \<Rightarrow> ValidatorSet \<Rightarrow> ValidatorSet go" where
  "increment_times 0 vals = Ret vals"
| "increment_times (Suc n) vals =
     do { (vals', _) \<leftarrow> incrementProposerPriority vals; increment_times n vals' }"

definition IncrementProposerPriority :: "ValidatorSet \<Rightarrow> int32 \<Rightarrow> ValidatorSet go" where
  "IncrementProposerPriority vals ntimes =
     (if length (Validators vals) = 0 then Panic
      else if ntimes \<le> 0 then Panic
      else
        do {
          (vals1, tvp) \<leftarrow> TotalVotingPower vals;
          vals2 \<leftarrow> RescalePriorities vals1 (wrap64 (PriorityWindowSizeFactor * tvp));
          vals3 \<leftarrow> shiftByAvgProposerPriority vals2;
          increment_times (nat ntimes) vals3
        })"

text \<open>The receiver of \<^verbatim>\<open>CopyIncrementProposerPriority\<close> is copied, cache included.\<close>

definition CopyIncrementProposerPriority :: "ValidatorSet \<Rightarrow> int32 \<Rightarrow> ValidatorSet go" where
  "CopyIncrementProposerPriority vals ntimes = IncrementProposerPriority vals ntimes"

subsection \<open>Orders\<close>

definition ValidatorsByVotingPower :: "Validator \<Rightarrow> Validator \<Rightarrow> bool" where
  "ValidatorsByVotingPower a b =
     (if VotingPower a = VotingPower b then Address a < Address b else VotingPower a > VotingPower b)"

definition ValidatorsByAddress :: "Validator \<Rightarrow> Validator \<Rightarrow> bool" where
  "ValidatorsByAddress a b \<longleftrightarrow> Address a < Address b"

interpretation by_address: sort_interface ValidatorsByAddress Address
  by unfold_locales (simp add: ValidatorsByAddress_def)

interpretation by_power: sort_interface ValidatorsByVotingPower "\<lambda>v. (- VotingPower v, Address v)"
  by unfold_locales (auto simp: ValidatorsByVotingPower_def)

subsection \<open>Change sets\<close>

fun split_changes ::
  "bytes \<Rightarrow> Validator list \<Rightarrow> Validator list \<Rightarrow> Validator list \<Rightarrow> valset_error + (Validator list \<times> Validator list)" where
  "split_changes prevAddr [] updates removals = Inr (updates, removals)"
| "split_changes prevAddr (valUpdate # changes) updates removals =
     (if Address valUpdate = prevAddr then Inl (DuplicateEntry (Address valUpdate))
      else if VotingPower valUpdate < 0 then Inl (NegativePower (VotingPower valUpdate))
      else if VotingPower valUpdate > MaxTotalVotingPower then Inl (PowerTooHigh (VotingPower valUpdate))
      else if VotingPower valUpdate = 0
      then split_changes (Address valUpdate) changes updates (removals @ [valUpdate])
      else split_changes (Address valUpdate) changes (updates @ [valUpdate]) removals)"

definition processChanges :: "Validator list \<Rightarrow> valset_error + (Validator list \<times> Validator list)" where
  "processChanges origChanges = split_changes [] (sort_by ValidatorsByAddress origChanges) [] []"

definition delta :: "ValidatorSet \<Rightarrow> Validator \<Rightarrow> int64" where
  "delta vals update = (case snd (GetByAddress vals (Address update)) of
       Some val \<Rightarrow> wrap64 (VotingPower update - VotingPower val)
     | None \<Rightarrow> VotingPower update)"

fun add_deltas :: "ValidatorSet \<Rightarrow> int64 \<Rightarrow> Validator list \<Rightarrow> int64 option" where
  "add_deltas vals tvpAfterRemovals [] = Some tvpAfterRemovals"
| "add_deltas vals tvpAfterRemovals (upd # upds) =
     (let tvp = wrap64 (tvpAfterRemovals + delta vals upd) in
      if tvp > MaxTotalVotingPower then None else add_deltas vals tvp upds)"

definition verifyUpdates ::
  "Validator list \<Rightarrow> ValidatorSet \<Rightarrow> int64 \<Rightarrow> (ValidatorSet \<times> (valset_error + int64)) go" where
  "verifyUpdates updates vals removedPower =
     do {
       (vals', tvp) \<leftarrow> TotalVotingPower vals;
       (case add_deltas vals' (wrap64 (tvp - removedPower))
               (sort_by (\<lambda>a b. delta vals a < delta vals b) updates) of
          None \<Rightarrow> Ret (vals', Inl ErrTotalVotingPowerOverflow)
        | Some tvp' \<Rightarrow> Ret (vals', Inr (wrap64 (tvp' + removedPower))))
     }"

definition numNewValidators :: "Validator list \<Rightarrow> ValidatorSet \<Rightarrow> nat" where
  "numNewValidators updates vals = length (filter (\<lambda>u. \<not> HasAddress vals (Address u)) updates)"

text \<open>\<^verbatim>\<open>>> 3\<close> on an int64 is a floor division by 8.\<close>

definition computeNewPriorities :: "Validator list \<Rightarrow> ValidatorSet \<Rightarrow> int64 \<Rightarrow> Validator list" where
  "computeNewPriorities updates vals updatedTotalVotingPower =
     map (\<lambda>valUpdate. case snd (GetByAddress vals (Address valUpdate)) of
         None \<Rightarrow> valUpdate\<lparr>ProposerPriority :=
           wrap64 (- wrap64 (updatedTotalVotingPower + updatedTotalVotingPower div 8))\<rparr>
       | Some val \<Rightarrow> valUpdate\<lparr>ProposerPriority := ProposerPriority val\<rparr>) updates"

fun merge_updates :: "Validator list \<Rightarrow> Validator list \<Rightarrow> Validator list" where
  "merge_updates (e # existing) (u # updates) =
     (if Address e < Address u then e # merge_updates existing (u # updates)
      else if Address e = Address u then u # merge_updates existing updates
      else u # merge_updates (e # existing) updates)"
| "merge_updates existing [] = existing"
| "merge_updates [] updates = updates"

definition applyUpdates :: "ValidatorSet \<Rightarrow> Validator list \<Rightarrow> ValidatorSet" where
  "applyUpdates vals updates =
     vals\<lparr>Validators := merge_updates (sort_by ValidatorsByAddress (Validators vals)) updates\<rparr>"

fun sum_removed :: "ValidatorSet \<Rightarrow> int64 \<Rightarrow> Validator list \<Rightarrow> valset_error + int64" where
  "sum_removed vals removedVotingPower [] = Inr removedVotingPower"
| "sum_removed vals removedVotingPower (d # deletes) =
     (case snd (GetByAddress vals (Address d)) of
        None \<Rightarrow> Inl (RemovalNotFound (Address d))
      | Some val \<Rightarrow> sum_removed vals (wrap64 (removedVotingPower + VotingPower val)) deletes)"

definition verifyRemovals :: "Validator list \<Rightarrow> ValidatorSet \<Rightarrow> (valset_error + int64) go" where
  "verifyRemovals deletes vals = (case sum_removed vals 0 deletes of
       Inl err \<Rightarrow> Ret (Inl err)
     | Inr removed \<Rightarrow>
         if length deletes > length (Validators vals) then Panic else Ret (Inr removed))"

text \<open>Running out of validators before all deletes are found is an index out of range.\<close>

fun remove_deletes :: "Validator list \<Rightarrow> Validator list \<Rightarrow> Validator list go" where
  "remove_deletes existing [] = Ret existing"
| "remove_deletes [] (d # deletes) = Panic"
| "remove_deletes (e # existing) (d # deletes) =
     (if Address e = Address d then remove_deletes existing deletes
      else do { rest \<leftarrow> remove_deletes existing (d # deletes); Ret (e # rest) })"

definition applyRemovals :: "ValidatorSet \<Rightarrow> Validator list \<Rightarrow> ValidatorSet go" where
  "applyRemovals vals deletes =
     do {
       merged \<leftarrow> remove_deletes (Validators vals) deletes;
       Ret (vals\<lparr>Validators := merged\<rparr>)
     }"

definition updateWithChangeSet ::
  "ValidatorSet \<Rightarrow> Validator list \<Rightarrow> bool \<Rightarrow> (ValidatorSet \<times> valset_error option) go" where
  "updateWithChangeSet vals changes allowDeletes =
     (if length changes = 0 then Ret (vals, None)
      else (case processChanges changes of
          Inl err \<Rightarrow> Ret (vals, Some err)
        | Inr (updates, deletes) \<Rightarrow>
            if \<not> allowDeletes \<and> length deletes \<noteq> 0 then Ret (vals, Some DeletesNotAllowed)
            else if numNewValidators updates vals = 0 \<and> length (Validators vals) = length deletes
            then Ret (vals, Some WouldBeEmpty)
            else
              do {
                removed \<leftarrow> verifyRemovals deletes vals;
                (case removed of
                   Inl err \<Rightarrow> Ret (vals, Some err)
                 | Inr removedVotingPower \<Rightarrow>
                     do {
                       (vals1, tvp) \<leftarrow> verifyUpdates updates vals removedVotingPower;
                       (case tvp of
                          Inl err \<Rightarrow> Ret (vals1, Some err)
                        | Inr tvpAfterUpdatesBeforeRemovals \<Rightarrow>
                            do {
                              let updates' = computeNewPriorities updates vals1 tvpAfterUpdatesBeforeRemovals;
                              let vals2 = applyUpdates vals1 updates';
                              vals3 \<leftarrow> applyRemovals vals2 deletes;
                              vals4 \<leftarrow> updateTotalVotingPower vals3;
                              (vals5, total) \<leftarrow> TotalVotingPower vals4;
                              vals6 \<leftarrow> RescalePriorities vals5 (wrap64 (PriorityWindowSizeFactor * total));
                              vals7 \<leftarrow> shiftByAvgProposerPriority vals6;
                              Ret (vals7\<lparr>Validators := sort_by ValidatorsByVotingPower (Validators vals7)\<rparr>, None)
                            })
                     })
              }))"

definition UpdateWithChangeSet :: "ValidatorSet \<Rightarrow> Validator list \<Rightarrow> (ValidatorSet \<times> valset_error option) go" where
  "UpdateWithChangeSet vals changes = updateWithChangeSet vals changes True"

definition empty_valset :: ValidatorSet where
  "empty_valset = \<lparr>Validators = [], totalVotingPower = 0\<rparr>"

definition NewValidatorSet :: "Validator list \<Rightarrow> ValidatorSet go" where
  "NewValidatorSet valz =
     do {
       (vals, err) \<leftarrow> updateWithChangeSet empty_valset valz False;
       if err \<noteq> None then Panic else Ret vals
     }"

subsection \<open>Selecting the proposer\<close>

definition le_uint64 :: "bytes \<Rightarrow> uint64" where
  "le_uint64 bz = word_of_nat (foldr (\<lambda>b n. unat b + 256 * n) bz 0)"

definition le_bytes64 :: "uint64 \<Rightarrow> bytes" where
  "le_bytes64 w = map (\<lambda>i. word_of_nat (unat w div 256 ^ i)) [0..<8]"

definition hashToSeed :: "bytes \<Rightarrow> uint64" where
  "hashToSeed h = le_uint64 (take 8 (h @ replicate (8 - length h) 0))"

definition MakeRoundHash :: "hashfn \<Rightarrow> bytes \<Rightarrow> int64 \<Rightarrow> int32 \<Rightarrow> bytes" where
  "MakeRoundHash H proofHash height rnd =
     H (proofHash @ le_bytes64 (word_of_int height) @ le_bytes64 (word_of_int rnd))"

definition candidate_priority :: "Validator \<Rightarrow> uint64" where
  "candidate_priority v = word_of_int (VotingPower v)"

definition SelectProposer ::
  "hashfn \<Rightarrow> ValidatorSet \<Rightarrow> bytes \<Rightarrow> int64 \<Rightarrow> int32 \<Rightarrow> (ValidatorSet \<times> Validator) go" where
  "SelectProposer H vals proofHash height rnd =
     (if length (Validators vals) = 0 then Panic
      else
        do {
          let seed = hashToSeed (MakeRoundHash H proofHash height rnd);
          (vals', tvp) \<leftarrow> TotalVotingPower vals;
          samples \<leftarrow> RandomSamplingWithPriority candidate_priority seed (Validators vals') 1 (word_of_int tvp);
          v \<leftarrow> index samples 0;
          Ret (vals', v)
        })"

subsection \<open>Protobuf and existing validators\<close>

record ValidatorSetPB =
  vsp_Validators :: "ValidatorPB list"
  vsp_TotalVotingPower :: int64

fun validators_ToProto :: "Validator list \<Rightarrow> codec_error + ValidatorPB list" where
  "validators_ToProto [] = Inr []"
| "validators_ToProto (v # vs) = (case Validator_ToProto v of
       Inl err \<Rightarrow> Inl err
     | Inr vp \<Rightarrow> (case validators_ToProto vs of Inl err \<Rightarrow> Inl err | Inr vps \<Rightarrow> Inr (vp # vps)))"

definition ValidatorSet_ToProto :: "ValidatorSet option \<Rightarrow> codec_error + ValidatorSetPB" where
  "ValidatorSet_ToProto vals =
     (case vals of
        None \<Rightarrow> Inr \<lparr>vsp_Validators = [], vsp_TotalVotingPower = 0\<rparr>
      | Some vs \<Rightarrow>
          if length (Validators vs) = 0 then Inr \<lparr>vsp_Validators = [], vsp_TotalVotingPower = 0\<rparr>
          else (case validators_ToProto (Validators vs) of
              Inl err \<Rightarrow> Inl err
            | Inr vps \<Rightarrow> Inr \<lparr>vsp_Validators = vps, vsp_TotalVotingPower = totalVotingPower vs\<rparr>))"

fun validators_FromProto :: "ValidatorPB list \<Rightarrow> (codec_error + Validator list) go" where
  "validators_FromProto [] = Ret (Inr [])"
| "validators_FromProto (vp # vps) =
     do {
       r \<leftarrow> ValidatorFromProto vp;
       (case r of
          Inl err \<Rightarrow> Ret (Inl err)
        | Inr v \<Rightarrow>
            do {
              rs \<leftarrow> validators_FromProto vps;
              (case rs of Inl err \<Rightarrow> Ret (Inl err) | Inr vs \<Rightarrow> Ret (Inr (v # vs)))
            })
     }"

definition ValidatorSetFromProto ::
  "ValidatorSetPB \<Rightarrow> (ValidatorSet option \<times> valset_error option) go" where
  "ValidatorSetFromProto vp =
     do {
       r \<leftarrow> validators_FromProto (vsp_Validators vp);
       (case r of
          Inl err \<Rightarrow> Ret (None, Some (CodecError err))
        | Inr vs \<Rightarrow>
            let vals = \<lparr>Validators = vs, totalVotingPower = vsp_TotalVotingPower vp\<rparr>
            in Ret (Some vals, ValidatorSet_ValidateBasic (Some vals)))
     }"

definition ValidatorSetFromExistingValidators ::
  "Validator list \<Rightarrow> (ValidatorSet option \<times> valset_error option) go" where
  "ValidatorSetFromExistingValidators valz =
     (if length valz = 0 then Ret (None, Some NilOrEmptySet)
      else (case validate_each 0 valz of
          Some err \<Rightarrow> Ret (None, Some err)
        | None \<Rightarrow>
            do {
              vals \<leftarrow> updateTotalVotingPower \<lparr>Validators = valz, totalVotingPower = 0\<rparr>;
              Ret (Some (vals\<lparr>Validators := sort_by ValidatorsByVotingPower (Validators vals)\<rparr>), None)
            }))"

end
