(* ===== verification/Proposer_Priority.thy ===== *)
theory Proposer_Priority
  imports Validator_Set
begin

text \<open>
  Proposer priorities (\<^verbatim>\<open>types/validator_set.go\<close>): rescaling narrows the spread of the priorities to
  the given window, shifting centres them, and an increment adds every validator's power and takes
  the total from the highest. As long as the priorities stay in the bounds stated here no operation
  clips or wraps, so the sum of the priorities is exactly preserved.
\<close>

section \<open>What the priority operations leave alone\<close>

definition static :: "Validator list \<Rightarrow> Validator list" where
  "static vs = map (\<lambda>v. v\<lparr>ProposerPriority := 0\<rparr>) vs"

lemma static_eqD:
  assumes "static vs = static ws"
  shows "map Address vs = map Address ws" and "map VotingPower vs = map VotingPower ws"
    and "length vs = length ws"
proof -
  have "map Address (static vs) = map Address vs" "map VotingPower (static vs) = map VotingPower vs" for vs
    by (simp_all add: static_def comp_def)
  then show "map Address vs = map Address ws" "map VotingPower vs = map VotingPower ws"
    using assms by metis+
  show "length vs = length ws" using assms by (metis length_map static_def)
qed

lemma static_pos:
  assumes "static vs = static ws" and "\<forall>v \<in> set ws. 0 < VotingPower v"
  shows "\<forall>v \<in> set vs. 0 < VotingPower v"
proof -
  have "VotingPower ` set vs = VotingPower ` set ws" using static_eqD(2) [OF assms(1)] by (metis set_map)
  then show ?thesis using assms(2) by (metis image_iff)
qed

lemma static_map: "(\<And>v. v \<in> set vs \<Longrightarrow> (f v)\<lparr>ProposerPriority := 0\<rparr> = v\<lparr>ProposerPriority := 0\<rparr>) \<Longrightarrow>
  static (map f vs) = static vs"
  by (simp add: static_def)

definition within :: "int \<Rightarrow> Validator list \<Rightarrow> bool" where
  "within b vs \<longleftrightarrow> (\<forall>v \<in> set vs. \<bar>ProposerPriority v\<bar> \<le> b)"

definition spread_le :: "Validator list \<Rightarrow> int \<Rightarrow> bool" where
  "spread_le vs d \<longleftrightarrow> (\<forall>v \<in> set vs. \<forall>w \<in> set vs. ProposerPriority v - ProposerPriority w \<le> d)"

definition sum_priorities :: "Validator list \<Rightarrow> int" where
  "sum_priorities vs = sum_list (map ProposerPriority vs)"

section \<open>Rescaling\<close>

lemma sdiv_spread:
  assumes "a - b \<le> r * d" and "0 < r" and "0 \<le> d"
  shows "a sdiv r - b sdiv r \<le> (d :: int)"
proof -
  have shift: "x div r - y div r \<le> d" if "x - y \<le> r * d" for x y :: int
  proof -
    have "x div r \<le> (y + r * d) div r" using that assms(2) by (intro zdiv_mono1) auto
    then show ?thesis using assms(2) by simp
  qed
  consider "0 \<le> a" "0 \<le> b" | "a < 0" "b < 0" | "0 \<le> a" "b < 0" | "a < 0" "0 \<le> b" by linarith
  then show ?thesis
  proof cases
    case 1
    then show ?thesis using shift [OF assms(1)] assms(2) by (simp add: sdiv_nonneg)
  next
    case 2
    then show ?thesis using shift [of "- b" "- a"] assms by (simp add: sdiv_neg)
  next
    case 3
    have "r * (a div r) \<le> a" "r * (- b div r) \<le> - b"
      using assms(2) by (simp_all add: minus_mod_eq_mult_div [symmetric])
    then have "r * (a div r + - b div r) \<le> r * d" using assms(1) by (simp add: algebra_simps)
    then show ?thesis using 3 assms(2) by (simp add: sdiv_nonneg sdiv_neg)
  next
    case 4
    have "0 \<le> - a div r" "0 \<le> b div r" using 4 assms(2) by (simp_all add: pos_imp_zdiv_nonneg_iff)
    then show ?thesis using 4 assms(2,3) by (simp add: sdiv_nonneg sdiv_neg)
  qed
qed

lemma abs_sdiv_le: "0 < r \<Longrightarrow> \<bar>a sdiv r\<bar> \<le> \<bar>a :: int\<bar>"
proof -
  assume r: "0 < r"
  have "x div r \<le> x" "0 \<le> x div r" if "0 \<le> x" for x
    using that r int_div_less_self [of x r] by (cases "x = 0 \<or> r = 1"; force simp: pos_imp_zdiv_nonneg_iff)+
  then show ?thesis using r by (cases "0 \<le> a") (simp_all add: sdiv_nonneg sdiv_neg)
qed

lemma fold_min: "vs \<noteq> [] \<Longrightarrow> (\<forall>v \<in> set vs. f v \<le> m) \<Longrightarrow>
  fold (\<lambda>v m. if f v < m then f v else m) vs m = (Min (f ` set vs) :: int)"
proof -
  have "fold (\<lambda>v m. if f v < m then f v else m) vs m = fold min (map f vs) m" for vs m
    by (induction vs arbitrary: m) (auto simp: min_def)
  moreover assume "vs \<noteq> []" "\<forall>v \<in> set vs. f v \<le> m"
  moreover from this have "Min (f ` set vs) \<le> m" by (cases vs) (auto simp: Min_le_iff)
  ultimately show ?thesis
    using Min.set_eq_fold [of m "map f vs"] Min_insert [of "f ` set vs" m] by simp
qed

lemma fold_max: "vs \<noteq> [] \<Longrightarrow> (\<forall>v \<in> set vs. m \<le> f v) \<Longrightarrow>
  fold (\<lambda>v m. if f v > m then f v else m) vs m = (Max (f ` set vs) :: int)"
proof -
  have "fold (\<lambda>v m. if f v > m then f v else m) vs m = fold max (map f vs) m" for vs m
    by (induction vs arbitrary: m) (auto simp: max_def)
  moreover assume "vs \<noteq> []" "\<forall>v \<in> set vs. m \<le> f v"
  moreover from this have "m \<le> Max (f ` set vs)" by (cases vs) (auto simp: Max_ge_iff)
  ultimately show ?thesis
    using Max.set_eq_fold [of m "map f vs"] Max_insert [of "f ` set vs" m] by simp
qed

lemma computeMaxMinPriorityDiff_spec:
  assumes ne: "Validators vals \<noteq> []" and b: "within b (Validators vals)" and "2 * b \<le> MaxInt64"
  obtains diff where "computeMaxMinPriorityDiff vals = Ret diff" and "0 \<le> diff" and "diff \<le> 2 * b"
    and "\<forall>d. spread_le (Validators vals) d \<longleftrightarrow> diff \<le> d"
proof -
  let ?S = "ProposerPriority ` set (Validators vals)"
  have S: "finite ?S" "?S \<noteq> {}" using ne by auto
  have in_b: "- b \<le> x \<and> x \<le> b" if "x \<in> ?S" for x using b that by (fastforce simp: within_def)
  then have mm: "- b \<le> Min ?S" "Max ?S \<le> b" "Min ?S \<le> Max ?S"
    using S by (auto intro: Min_le_iff [THEN iffD2])
  have lims: "\<forall>x \<in> ?S. MinInt64 \<le> x \<and> x \<le> MaxInt64"
    using in_b assms(3) by (fastforce simp: int_limits)
  then have "fold (\<lambda>v m. if ProposerPriority v < m then ProposerPriority v else m) (Validators vals) MaxInt64 = Min ?S"
    "fold (\<lambda>v m. if ProposerPriority v > m then ProposerPriority v else m) (Validators vals) MinInt64 = Max ?S"
    using ne by (auto intro!: fold_min fold_max)
  moreover have "wrap64 (Max ?S - Min ?S) = Max ?S - Min ?S"
    using mm assms(3) by (intro wrap64_id) (simp add: in64_def int_limits)
  moreover have "\<not> Max ?S - Min ?S < 0" using mm(3) by linarith
  ultimately have "computeMaxMinPriorityDiff vals = Ret (Max ?S - Min ?S)"
    using ne by (simp only: computeMaxMinPriorityDiff_def Let_def length_0_conv if_False)
  moreover have "spread_le (Validators vals) d \<longleftrightarrow> Max ?S - Min ?S \<le> d" for d
  proof
    assume "spread_le (Validators vals) d"
    then show "Max ?S - Min ?S \<le> d"
      using Max_in [OF S] Min_in [OF S] by (auto simp: spread_le_def)
  next
    assume le: "Max ?S - Min ?S \<le> d"
    have "ProposerPriority v - ProposerPriority w \<le> Max ?S - Min ?S"
      if "v \<in> set (Validators vals)" "w \<in> set (Validators vals)" for v w
      using that by (intro diff_mono Max_ge Min_le) auto
    then show "spread_le (Validators vals) d" using le by (fastforce simp: spread_le_def)
  qed
  ultimately show thesis using that mm by simp
qed


lemma ceil_ratio:
  assumes "0 < d" and "d < x"
  shows "1 \<le> (x + d - 1) div d" and "x \<le> (x + d - 1) div d * (d :: int)"
proof -
  have "(x + d - 1) mod d < d" using assms(1) by simp
  moreover have "(x + d - 1) div d * d = x + d - 1 - (x + d - 1) mod d"
    by (simp add: minus_mod_eq_div_mult)
  ultimately show "x \<le> (x + d - 1) div d * d" by linarith
  have "d div d \<le> (x + d - 1) div d" using assms by (intro zdiv_mono1) auto
  then show "1 \<le> (x + d - 1) div d" using assms(1) by simp
qed

lemma RescalePriorities_spec:
  assumes ne: "Validators vals \<noteq> []" and b: "within b (Validators vals)" and d: "0 < d"
    and fits: "2 * b + d \<le> MaxInt64"
  obtains vs where "RescalePriorities vals d = Ret (vals\<lparr>Validators := vs\<rparr>)"
    and "static vs = static (Validators vals)" and "within b vs" and "spread_le vs d"
proof -
  obtain v0 where "v0 \<in> set (Validators vals)" using ne by (cases "Validators vals") auto
  then have b0: "0 \<le> b" using b by (fastforce simp: within_def)
  obtain diff where diff: "computeMaxMinPriorityDiff vals = Ret diff" "0 \<le> diff" "diff \<le> 2 * b"
      "\<And>d. spread_le (Validators vals) d \<longleftrightarrow> diff \<le> d"
    using computeMaxMinPriorityDiff_spec [OF ne b] fits d by auto
  let ?r = "(diff + d - 1) div d"
  have w: "wrap64 (diff + d) = diff + d" "wrap64 (diff + d - 1) = diff + d - 1"
    using diff(2,3) d fits by (auto intro!: wrap64_id simp: in64_def int_limits)
  have r_le: "0 \<le> ?r" "?r \<le> diff + d - 1"
    using diff(2) d abs_sdiv_le [of d "diff + d - 1"] by (simp_all add: pos_imp_zdiv_nonneg_iff sdiv_nonneg)
  then have ratio: "go_div (diff + d - 1) d = Ret ?r"
    using diff d fits by (simp add: go_div_def sdiv_nonneg) (intro wrap64_id, simp add: in64_def int_limits)
  show thesis
  proof (cases "diff > d")
    case False
    then show ?thesis using that [of "Validators vals"] diff w ratio ne d b
      by (simp add: RescalePriorities_def)
  next
    case True
    note r = ceil_ratio [OF d True]
    let ?f = "\<lambda>v. v\<lparr>ProposerPriority := ProposerPriority v sdiv ?r\<rparr>"
    have abs: "\<bar>ProposerPriority v sdiv ?r\<bar> \<le> b" if "v \<in> set (Validators vals)" for v
      using abs_sdiv_le [of ?r "ProposerPriority v"] r(1) b that by (fastforce simp: within_def)
    then have "go_div (ProposerPriority v) ?r = Ret (ProposerPriority v sdiv ?r)"
      if "v \<in> set (Validators vals)" for v
      using that r(1) fits d by (fastforce simp: go_div_def in64_def int_limits intro!: wrap64_id)
    then have "map_go (\<lambda>v. do { p \<leftarrow> go_div (ProposerPriority v) ?r; Ret (v\<lparr>ProposerPriority := p\<rparr>) }) (Validators vals)
        = Ret (map ?f (Validators vals))"
      by (intro map_go_map) simp
    then have res: "RescalePriorities vals d = Ret (vals\<lparr>Validators := map ?f (Validators vals)\<rparr>)"
      using diff w ratio ne d True by (simp add: RescalePriorities_def)
    have "spread_le (Validators vals) (?r * d)" using diff(4) r(2) by simp
    then have "spread_le (map ?f (Validators vals)) d"
      using r(1) d by (auto simp: spread_le_def intro!: sdiv_spread)
    then show ?thesis
      using that [OF res] abs by (auto simp: within_def static_def)
  qed
qed

section \<open>Centring\<close>

lemma sum_list_ge: "(\<And>x. x \<in> set xs \<Longrightarrow> c \<le> f x) \<Longrightarrow> int (length xs) * c \<le> sum_list (map f xs)"
  by (induction xs) (auto simp: algebra_simps intro: add_mono)

lemma sum_list_le: "(\<And>x. x \<in> set xs \<Longrightarrow> f x \<le> c) \<Longrightarrow> sum_list (map f xs) \<le> int (length xs) * c"
  by (induction xs) (auto simp: algebra_simps intro: add_mono)

lemma shiftByAvg_spec:
  assumes ne: "Validators vals \<noteq> []" and b: "within b (Validators vals)" and d: "spread_le (Validators vals) d"
    and fits: "2 * b \<le> MaxInt64"
  obtains vs where "shiftByAvgProposerPriority vals = Ret (vals\<lparr>Validators := vs\<rparr>)"
    and "static vs = static (Validators vals)" and "within d vs"
    and "0 \<le> sum_priorities vs" and "sum_priorities vs < int (length vs)"
proof -
  let ?n = "int (length (Validators vals))" and ?S = "sum_priorities (Validators vals)"
  let ?avg = "?S div ?n"
  have n: "0 < ?n" using ne by simp
  have avg: "?n * ?avg \<le> ?S" "?S < ?n * ?avg + ?n"
    using n minus_mod_eq_mult_div [of ?S ?n] pos_mod_bound [OF n, of ?S] pos_mod_sign [OF n, of ?S]
    by linarith+
  have PP: "- b \<le> ProposerPriority v" "ProposerPriority v \<le> b" if "v \<in> set (Validators vals)" for v
    using b that by (fastforce simp: within_def)+
  have S: "- b * ?n \<le> ?S" "?S \<le> b * ?n"
    using sum_list_ge [of "Validators vals" "- b" ProposerPriority]
      sum_list_le [of "Validators vals" ProposerPriority b] PP by (auto simp: sum_priorities_def mult.commute)
  have "- b * ?n div ?n \<le> ?avg" "?avg \<le> b * ?n div ?n"
    using zdiv_mono1 [OF S(1) n] zdiv_mono1 [OF S(2) n] .
  moreover have "- b * ?n div ?n = - b" "b * ?n div ?n = b"
    by (rule nonzero_mult_div_cancel_right, use n in simp)+
  ultimately have avg_b: "- b \<le> ?avg" "?avg \<le> b" by (simp_all only:)
  have near: "\<bar>ProposerPriority v - ?avg\<bar> \<le> d" if v: "v \<in> set (Validators vals)" for v
  proof (rule ccontr)
    assume "\<not> ?thesis"
    then consider "?avg + d < ProposerPriority v" | "ProposerPriority v + d < ?avg" by linarith
    then show False
    proof cases
      case 1
      then have "?avg + 1 \<le> ProposerPriority w" if "w \<in> set (Validators vals)" for w
        using d v that by (fastforce simp: spread_le_def)
      then have "?n * (?avg + 1) \<le> ?S" unfolding sum_priorities_def by (rule sum_list_ge)
      then show False using avg(2) by (simp add: distrib_left)
    next
      case 2
      then have "ProposerPriority w \<le> ?avg - 1" if "w \<in> set (Validators vals)" for w
        using d v that by (fastforce simp: spread_le_def)
      then have "?S \<le> ?n * (?avg - 1)" unfolding sum_priorities_def by (rule sum_list_le)
      then show False using avg(1) n by (simp add: right_diff_distrib)
    qed
  qed
  let ?f = "\<lambda>v. v\<lparr>ProposerPriority := ProposerPriority v - ?avg\<rparr>"
  have clip: "safeSubClip (ProposerPriority v) ?avg = ProposerPriority v - ?avg"
    if "v \<in> set (Validators vals)" for v
  proof -
    have "in64 (ProposerPriority v)" "in64 ?avg" "in64 (ProposerPriority v - ?avg)"
      using PP [OF that] avg_b fits by (auto simp: in64_def int_limits)
    then show ?thesis by (simp add: safeSubClip_eq clip64_id)
  qed
  have "in64 ?avg" using avg_b fits by (auto simp: in64_def int_limits)
  then have "shiftByAvgProposerPriority vals = Ret (vals\<lparr>Validators := map ?f (Validators vals)\<rparr>)"
    using ne clip
    by (simp add: shiftByAvgProposerPriority_def computeAvgProposerPriority_def map_validators_def
        sum_priorities_def Let_def)
  moreover have "sum_priorities (map ?f (Validators vals)) = ?S - ?n * ?avg"
    by (simp add: sum_priorities_def comp_def sum_list_subtractf sum_list_triv)
  ultimately show thesis
    using that [of "map ?f (Validators vals)"] near avg by (simp add: static_def within_def)
qed

section \<open>Incrementing\<close>

lemma most_priority_spec:
  assumes "distinct (map Address vs)" and "\<forall>j r. res = Some (j, r) \<longrightarrow> Address r \<notin> Address ` set vs"
    and "vs \<noteq> [] \<or> res \<noteq> None"
  shows "\<exists>k m. most_priority i res vs = Ret (Some (k, m))
    \<and> (res = Some (k, m) \<or> i \<le> k \<and> k < i + length vs \<and> m = vs ! (k - i))
    \<and> (\<forall>v \<in> set vs. ProposerPriority v \<le> ProposerPriority m)
    \<and> (\<forall>j r. res = Some (j, r) \<longrightarrow> ProposerPriority r \<le> ProposerPriority m)"
  using assms
proof (induction vs arbitrary: i res)
  case Nil
  then show ?case by auto
next
  case (Cons v vs)
  have "\<exists>j' r'. (do { w \<leftarrow> CompareProposerPriority (map_option snd res) v;
          Ret (case res of None \<Rightarrow> Some (i, v) | Some (j, r) \<Rightarrow> if w = r then Some (j, r) else Some (i, v)) })
        = Ret (Some (j', r')) \<and> (res = Some (j', r') \<or> j' = i \<and> r' = v)
      \<and> ProposerPriority v \<le> ProposerPriority r'
      \<and> (\<forall>j r. res = Some (j, r) \<longrightarrow> ProposerPriority r \<le> ProposerPriority r')"
  proof (cases res)
    case None
    then show ?thesis by (simp add: CompareProposerPriority_def)
  next
    case (Some p)
    obtain j0 r0 where p: "res = Some (j0, r0)" using Some by (cases p) auto
    then have ne: "Address r0 \<noteq> Address v" "r0 \<noteq> v" using Cons.prems(2) by auto
    then have "Address r0 < Address v \<or> Address v < Address r0" by fastforce
    then show ?thesis using p ne by (auto simp: CompareProposerPriority_def)
  qed
  then obtain j' r' where step: "most_priority i res (v # vs) = most_priority (Suc i) (Some (j', r')) vs"
      and cases': "res = Some (j', r') \<or> j' = i \<and> r' = v" "ProposerPriority v \<le> ProposerPriority r'"
      "\<forall>j r. res = Some (j, r) \<longrightarrow> ProposerPriority r \<le> ProposerPriority r'"
    by (auto split: bind_splits)
  have fresh: "Address r' \<notin> Address ` set vs" using cases'(1) Cons.prems(1,2) by auto
  obtain k m where "most_priority (Suc i) (Some (j', r')) vs = Ret (Some (k, m))"
      "Some (j', r') = Some (k, m) \<or> Suc i \<le> k \<and> k < Suc i + length vs \<and> m = vs ! (k - Suc i)"
      "\<forall>v \<in> set vs. ProposerPriority v \<le> ProposerPriority m" "ProposerPriority r' \<le> ProposerPriority m"
    using Cons.IH [of "Some (j', r')" "Suc i"] Cons.prems(1) fresh by auto
  then show ?case
    using step cases' by (auto simp: nth_Cons' intro: order_trans)
qed

lemma getValWithMostPriority_spec:
  assumes "distinct (map Address (Validators vals))" and "Validators vals \<noteq> []"
  obtains k where "getValWithMostPriority vals = Ret (Some (k, Validators vals ! k))"
    and "k < length (Validators vals)"
    and "\<forall>v \<in> set (Validators vals). ProposerPriority v \<le> ProposerPriority (Validators vals ! k)"
  using most_priority_spec [OF assms(1), of None 0] assms(2)
  by (auto simp: getValWithMostPriority_def)

definition power_total :: "ValidatorSet \<Rightarrow> int" where
  "power_total vals = sum_list (map VotingPower (Validators vals))"

lemma sum_list_update_int:
  "k < length xs \<Longrightarrow> sum_list (map f (xs[k := x])) = sum_list (map f xs) + f x - (f (xs ! k) :: int)"
  by (induction xs arbitrary: k) (auto simp: nth_Cons' split: nat.splits)

text \<open>One increment keeps the sum of the priorities and widens their bound by the total power.\<close>

lemma incrementProposerPriority_spec:
  assumes ne: "Validators vals \<noteq> []" and dist: "distinct (map Address (Validators vals))"
    and pos: "\<forall>v \<in> set (Validators vals). 0 < VotingPower v"
    and cache: "totalVotingPower vals = power_total vals"
    and b: "within b (Validators vals)" and fits: "b + power_total vals \<le> MaxInt64"
  obtains k vs where "incrementProposerPriority vals = Ret (vals\<lparr>Validators := vs\<rparr>, vs ! k)"
    and "k < length vs"
    and "static vs = static (Validators vals)" and "within (b + power_total vals) vs"
    and "sum_priorities vs = sum_priorities (Validators vals)"
    and "\<forall>v \<in> set (Validators vals). ProposerPriority v + VotingPower v
           \<le> ProposerPriority (Validators vals ! k) + VotingPower (Validators vals ! k)"
proof -
  let ?P = "power_total vals" and ?V = "Validators vals"
  let ?f = "\<lambda>v. v\<lparr>ProposerPriority := ProposerPriority v + VotingPower v\<rparr>"
  have le: "VotingPower v \<le> ?P" if "v \<in> set ?V" for v
    using sum_list_member_le [of ?V VotingPower v] pos that by (force simp: power_total_def)
  have PP: "- b \<le> ProposerPriority v" "ProposerPriority v \<le> b" if "v \<in> set ?V" for v
    using b that by (fastforce simp: within_def)+
  obtain v0 where v0: "v0 \<in> set ?V" using ne by (cases ?V) auto
  have P: "0 < ?P" "0 \<le> b" using le [OF v0] pos v0 PP [OF v0] by force+
  have add: "safeAddClip (ProposerPriority v) (VotingPower v) = ProposerPriority v + VotingPower v"
    if "v \<in> set ?V" for v
  proof -
    have "0 < VotingPower v" using pos that by blast
    then have "in64 (ProposerPriority v)" "in64 (VotingPower v)" "in64 (ProposerPriority v + VotingPower v)"
      using PP [OF that] le [OF that] fits P by (auto simp: in64_def int_limits)
    then show ?thesis by (simp add: safeAddClip_eq clip64_id)
  qed
  define vals1 where "vals1 = vals\<lparr>Validators := map ?f ?V\<rparr>"
  have v1: "map_validators (\<lambda>v. v\<lparr>ProposerPriority := safeAddClip (ProposerPriority v) (VotingPower v)\<rparr>) vals = vals1"
    using add by (simp add: map_validators_def vals1_def)
  obtain k where k: "getValWithMostPriority vals1 = Ret (Some (k, ?f (?V ! k)))" "k < length ?V"
      "\<forall>v \<in> set ?V. ProposerPriority v + VotingPower v \<le> ProposerPriority (?V ! k) + VotingPower (?V ! k)"
    using getValWithMostPriority_spec [of vals1] dist ne
    by (auto simp: vals1_def comp_def)
  let ?p = "ProposerPriority (?V ! k) + VotingPower (?V ! k)"
  have kV: "?V ! k \<in> set ?V" using k(2) by simp
  have p: "- b \<le> ?p" "?p \<le> b + ?P"
    using PP [OF kV] le [OF kV] bspec [OF pos kV] by linarith+
  then have sub: "safeSubClip ?p ?P = ?p - ?P"
    using fits P by (subst safeSubClip_eq) (auto simp: in64_def int_limits intro!: clip64_id)
  let ?vs = "(map ?f ?V)[k := (?V ! k)\<lparr>ProposerPriority := ?p - ?P\<rparr>]"
  have tvp: "TotalVotingPower vals1 = Ret (vals1, ?P)"
    using cache P by (simp add: TotalVotingPower_def vals1_def)
  have res: "incrementProposerPriority vals = Ret (vals\<lparr>Validators := ?vs\<rparr>, ?vs ! k)"
    using v1 k(1,2) tvp sub by (simp add: incrementProposerPriority_def vals1_def Let_def)
  have "static ?vs = static ?V"
    using k(2) by (simp add: static_def map_update comp_def list_update_same_conv)
  moreover have "within (b + ?P) ?vs"
  proof -
    have "\<bar>ProposerPriority v + VotingPower v\<bar> \<le> b + ?P" if "v \<in> set ?V" for v
      using PP [OF that] le [OF that] pos that P by force
    moreover have "\<bar>?p - ?P\<bar> \<le> b + ?P" using p P by linarith
    ultimately show ?thesis
      unfolding within_def using set_update_subset_insert [of "map ?f ?V" k] by fastforce
  qed
  moreover have "sum_priorities ?vs = sum_priorities ?V"
    using k(2) sum_list_update_int [of k "map ?f ?V" ProposerPriority]
    by (simp add: sum_priorities_def power_total_def comp_def sum_list_addf)
  ultimately show thesis using that [OF res] k(2,3) by simp
qed

lemma increment_times_spec:
  assumes "Validators vals \<noteq> []" and "distinct (map Address (Validators vals))"
    and "\<forall>v \<in> set (Validators vals). 0 < VotingPower v"
    and "totalVotingPower vals = power_total vals"
    and "within b (Validators vals)" and "b + int n * power_total vals \<le> MaxInt64"
  shows "\<exists>vs. increment_times n vals = Ret (vals\<lparr>Validators := vs\<rparr>)
    \<and> static vs = static (Validators vals) \<and> within (b + int n * power_total vals) vs
    \<and> sum_priorities vs = sum_priorities (Validators vals)"
  using assms
proof (induction n arbitrary: vals b)
  case 0
  then show ?case by (auto intro!: exI [of _ "Validators vals"])
next
  case (Suc n)
  have P: "0 \<le> power_total vals"
    unfolding power_total_def using Suc.prems(3) by (intro sum_list_nonneg) (auto intro: less_imp_le)
  then have "0 \<le> int n * power_total vals" by simp
  moreover have "b + (power_total vals + int n * power_total vals) \<le> MaxInt64"
    using Suc.prems(6) by (simp add: algebra_simps)
  ultimately have "b + power_total vals \<le> MaxInt64" by linarith
  then obtain k vs where one: "incrementProposerPriority vals = Ret (vals\<lparr>Validators := vs\<rparr>, vs ! k)"
      "static vs = static (Validators vals)" "within (b + power_total vals) vs"
      "sum_priorities vs = sum_priorities (Validators vals)"
    using incrementProposerPriority_spec [OF Suc.prems(1-5)] by metis
  note st = static_eqD [OF one(2)]
  let ?vals = "vals\<lparr>Validators := vs\<rparr>"
  have total: "power_total ?vals = power_total vals" using st(2) by (simp add: power_total_def)
  have "\<forall>v \<in> set vs. 0 < VotingPower v" using static_pos [OF one(2) Suc.prems(3)] .
  then have "\<exists>ws. increment_times n ?vals = Ret (?vals\<lparr>Validators := ws\<rparr>)
    \<and> static ws = static (Validators ?vals) \<and> within (b + power_total vals + int n * power_total ?vals) ws
    \<and> sum_priorities ws = sum_priorities (Validators ?vals)"
    using Suc.prems st one(3) total
    by (intro Suc.IH) (auto simp: algebra_simps)
  then show ?case using one total by (auto simp: algebra_simps)
qed

text \<open>
  \<^verbatim>\<open>IncrementProposerPriority\<close> on a set whose priorities are within three times the maximal total:
  it returns, changes only priorities, ends with priorities centred around zero and within
  \<open>2 + n\<close> times the total power.
\<close>

lemma IncrementProposerPriority_spec:
  assumes ne: "Validators vals \<noteq> []" and dist: "distinct (map Address (Validators vals))"
    and pos: "\<forall>v \<in> set (Validators vals). 0 < VotingPower v"
    and cache: "totalVotingPower vals = power_total vals"
    and max: "power_total vals \<le> MaxTotalVotingPower"
    and b: "within (3 * MaxTotalVotingPower) (Validators vals)"
    and n: "0 < n" "(2 + n) * power_total vals \<le> MaxInt64"
  obtains vs where "IncrementProposerPriority vals n = Ret (vals\<lparr>Validators := vs\<rparr>)"
    and "static vs = static (Validators vals)" and "within ((2 + n) * power_total vals) vs"
    and "0 \<le> sum_priorities vs" and "sum_priorities vs < int (length vs)"
proof -
  let ?P = "power_total vals"
  obtain v0 where v0: "v0 \<in> set (Validators vals)" using ne by (cases "Validators vals") auto
  have "VotingPower v0 \<le> ?P"
    using sum_list_member_le [of "Validators vals" VotingPower v0] pos v0 by (force simp: power_total_def)
  then have P: "0 < ?P" using pos v0 by force
  have tvp: "TotalVotingPower vals = Ret (vals, ?P)" using cache P by (simp add: TotalVotingPower_def)
  have w: "wrap64 (PriorityWindowSizeFactor * ?P) = 2 * ?P"
    using P max by (simp add: PriorityWindowSizeFactor_def wrap64_id in64_def MaxTotalVotingPower_def int_limits)
  have fit: "2 * (3 * MaxTotalVotingPower) + 2 * ?P \<le> MaxInt64"
    using max by (simp add: MaxTotalVotingPower_def int_limits)
  obtain ws where ws: "RescalePriorities vals (2 * ?P) = Ret (vals\<lparr>Validators := ws\<rparr>)"
      "static ws = static (Validators vals)" "within (3 * MaxTotalVotingPower) ws" "spread_le ws (2 * ?P)"
    using RescalePriorities_spec [OF ne b _ fit] P by auto
  have ws_ne: "ws \<noteq> []" using static_eqD(3) [OF ws(2)] ne by auto
  let ?v1 = "vals\<lparr>Validators := ws\<rparr>"
  obtain us where us: "shiftByAvgProposerPriority ?v1 = Ret (?v1\<lparr>Validators := us\<rparr>)"
      "static us = static ws" "within (2 * ?P) us" "0 \<le> sum_priorities us" "sum_priorities us < int (length us)"
    using shiftByAvg_spec [of ?v1 "3 * MaxTotalVotingPower" "2 * ?P"] ws ws_ne fit P by auto
  let ?v2 = "vals\<lparr>Validators := us\<rparr>"
  note st = static_eqD [OF trans [OF us(2) ws(2)]]
  have total: "power_total ?v2 = ?P" using st(2) by (simp add: power_total_def)
  have "\<forall>v \<in> set us. 0 < VotingPower v" using static_pos [OF trans [OF us(2) ws(2)] pos] .
  then have "\<exists>vs. increment_times (nat n) ?v2 = Ret (?v2\<lparr>Validators := vs\<rparr>)
    \<and> static vs = static (Validators ?v2) \<and> within (2 * ?P + int (nat n) * power_total ?v2) vs
    \<and> sum_priorities vs = sum_priorities (Validators ?v2)"
    using ne dist st us cache total n
    by (intro increment_times_spec) (auto simp: algebra_simps)
  then obtain vs where vs: "increment_times (nat n) ?v2 = Ret (?v2\<lparr>Validators := vs\<rparr>)"
      "static vs = static us" "within (2 * ?P + int (nat n) * ?P) vs" "sum_priorities vs = sum_priorities us"
    using total by auto
  have "IncrementProposerPriority vals n = Ret (vals\<lparr>Validators := vs\<rparr>)"
    using ne n tvp w ws(1) us(1) vs(1) by (simp add: IncrementProposerPriority_def)
  then show thesis
    using that vs us ws static_eqD(3) [OF vs(2)] n by (auto simp: algebra_simps)
qed

end
