(* ===== verification/Validator_Update.thy ===== *)
theory Validator_Update
  imports Proposer_Priority
begin

text \<open>
  Correctness of validator set updates (\<^verbatim>\<open>updateWithChangeSet\<close> of \<^verbatim>\<open>types/validator_set.go\<close>). The
  invariant \<open>wf_vals\<close> holds of every set built by \<^verbatim>\<open>NewValidatorSet\<close> and is kept by
  \<^verbatim>\<open>UpdateWithChangeSet\<close>, which never panics on such a set, leaves it unchanged on an error, and
  otherwise refines the update of a map from addresses to voting powers.
\<close>

section \<open>The abstract state\<close>

definition addr_map :: "Validator list \<Rightarrow> bytes \<rightharpoonup> Validator" where
  "addr_map vs = map_of (map (\<lambda>v. (Address v, v)) vs)"

definition powers :: "Validator list \<Rightarrow> bytes \<rightharpoonup> int64" where
  "powers vs a = map_option VotingPower (addr_map vs a)"

definition sum_powers :: "Validator list \<Rightarrow> int" where
  "sum_powers vs = sum_list (map VotingPower vs)"

text \<open>What a list of changes does to a map of powers: power 0 removes, any other power sets.\<close>

definition apply_changes :: "(bytes \<rightharpoonup> int64) \<Rightarrow> Validator list \<Rightarrow> bytes \<rightharpoonup> int64" where
  "apply_changes m changes a = (case powers changes a of
       None \<Rightarrow> m a
     | Some p \<Rightarrow> if p = 0 then None else Some p)"

definition prio_bound :: int where
  "prio_bound = 3 * MaxTotalVotingPower"

definition wf_vals :: "ValidatorSet \<Rightarrow> bool" where
  "wf_vals vals \<longleftrightarrow>
     distinct (map Address (Validators vals))
     \<and> (\<forall>v \<in> set (Validators vals). 0 < VotingPower v)
     \<and> within prio_bound (Validators vals)
     \<and> sum_powers (Validators vals) \<le> MaxTotalVotingPower
     \<and> totalVotingPower vals = sum_powers (Validators vals)
     \<and> sorted (map (\<lambda>v. (- VotingPower v, Address v)) (Validators vals))"

lemmas max_power = MaxTotalVotingPower_def int_limits

lemma addr_map_simps [simp]:
  "addr_map [] = Map.empty"
  "addr_map (v # vs) = (addr_map vs)(Address v \<mapsto> v)"
  by (auto simp: addr_map_def)

lemma addr_map_None: "addr_map vs a = None \<longleftrightarrow> a \<notin> Address ` set vs"
  by (induction vs) auto

lemma dom_addr_map: "dom (addr_map vs) = Address ` set vs"
proof -
  have "a \<in> dom (addr_map vs) \<longleftrightarrow> a \<in> Address ` set vs" for a
    using addr_map_None [of vs a] by (simp add: domIff)
  then show ?thesis by blast
qed

lemma addr_map_SomeD: "addr_map vs a = Some v \<Longrightarrow> v \<in> set vs \<and> Address v = a"
  by (induction vs) (auto split: if_splits)

lemma addr_map_member: "distinct (map Address vs) \<Longrightarrow> v \<in> set vs \<Longrightarrow> addr_map vs (Address v) = Some v"
  by (induction vs) (auto simp: rev_image_eqI)

lemma addr_map_cong_set:
  assumes "distinct (map Address vs)" and "distinct (map Address ws)" and "set vs = set ws"
  shows "addr_map vs = addr_map ws"
proof
  fix a
  show "addr_map vs a = addr_map ws a"
  proof (cases "addr_map vs a")
    case None
    then show ?thesis using assms(3) by (metis addr_map_None)
  next
    case (Some v)
    then show ?thesis using addr_map_SomeD [OF Some] addr_map_member [OF assms(2)] assms(3) by auto
  qed
qed

lemma find_address_map: "snd (find_address i vs a) = addr_map vs a"
  by (induction i vs a rule: find_address.induct) auto

lemma GetByAddress_map: "snd (GetByAddress vals a) = addr_map (Validators vals) a"
  by (simp add: GetByAddress_def find_address_map)

lemma HasAddress_map: "HasAddress vals a \<longleftrightarrow> addr_map (Validators vals) a \<noteq> None"
  by (auto simp: HasAddress_def addr_map_None list_ex_iff)

section \<open>Merging and removing\<close>

abbreviation addr_sorted :: "Validator list \<Rightarrow> bool" where
  "addr_sorted vs \<equiv> sorted_wrt (<) (map Address vs)"

lemma addr_sorted_Cons:
  "addr_sorted (v # vs) \<longleftrightarrow> (\<forall>w \<in> set vs. Address v < Address w) \<and> addr_sorted vs"
  by auto

lemma addr_sorted_distinct: "addr_sorted vs \<Longrightarrow> distinct (map Address vs)"
  by (simp add: strict_sorted_iff)

lemma addr_sorted_head_None:
  "addr_sorted (v # vs) \<Longrightarrow> a \<le> Address v \<Longrightarrow> addr_map vs a = None"
  by (auto simp: addr_map_None)

lemma set_merge_updates: "set (merge_updates es us) \<subseteq> set es \<union> set us"
  by (induction es us rule: merge_updates.induct) auto

lemma merge_updates_sorted:
  "addr_sorted es \<Longrightarrow> addr_sorted us \<Longrightarrow> addr_sorted (merge_updates es us)"
proof (induction es us rule: merge_updates.induct)
  case (1 e es u us)
  consider "Address e < Address u" | "Address e = Address u" | "Address u < Address e" by fastforce
  then show ?case
  proof cases
    case 1
    then show ?thesis
      using "1.IH"(1) "1.prems" set_merge_updates [of es "u # us"]
      by (auto simp del: merge_updates.simps(2,3) intro: less_trans)
  next
    case 2
    then show ?thesis
      using "1.IH"(2) "1.prems" set_merge_updates [of es us]
      by (auto simp del: merge_updates.simps(2,3))
  next
    case 3
    then show ?thesis
      using "1.IH"(3) "1.prems" set_merge_updates [of "e # es" us]
      by (auto simp del: merge_updates.simps(2,3) intro: less_trans)
  qed
qed auto

lemma merge_updates_map:
  "addr_sorted es \<Longrightarrow> addr_sorted us \<Longrightarrow> addr_map (merge_updates es us) = addr_map es ++ addr_map us"
proof (induction es us rule: merge_updates.induct)
  case (1 e es u us)
  consider "Address e < Address u" | "Address e = Address u" | "Address u < Address e" by fastforce
  then show ?case
  proof cases
    case 1
    moreover have "addr_map (u # us) (Address e) = None"
      using 1 "1.prems"(2) by (auto simp: addr_map_None)
    ultimately show ?thesis using "1.IH"(1) "1.prems"
      by (auto simp: fun_eq_iff map_add_def split: option.splits if_splits)
  next
    case 2
    moreover have "addr_map us (Address u) = None" using "1.prems"(2) by (auto simp: addr_map_None)
    ultimately show ?thesis using "1.IH"(2) "1.prems"
      by (auto simp: fun_eq_iff map_add_def split: option.splits if_splits)
  next
    case 3
    moreover have "addr_map us (Address u) = None" using "1.prems"(2) by (auto simp: addr_map_None)
    ultimately show ?thesis using "1.IH"(3) "1.prems"
      by (auto simp: fun_eq_iff map_add_def split: option.splits if_splits)
  qed
qed auto

text \<open>The change of the total voting power by an update, as an integer.\<close>

definition old_power :: "Validator list \<Rightarrow> bytes \<Rightarrow> int" where
  "old_power vs a = (case addr_map vs a of None \<Rightarrow> 0 | Some v \<Rightarrow> VotingPower v)"

lemma old_power_Cons: "old_power (v # vs) a = (if a = Address v then VotingPower v else old_power vs a)"
  by (simp add: old_power_def)

lemma sum_old_power_skip:
  "(\<And>u. u \<in> set us \<Longrightarrow> Address u \<noteq> Address e) \<Longrightarrow>
   sum_list (map (\<lambda>u. old_power (e # es) (Address u)) us) = sum_list (map (\<lambda>u. old_power es (Address u)) us)"
  by (induction us) (auto simp: old_power_Cons)

lemma sum_merge_updates:
  "addr_sorted es \<Longrightarrow> addr_sorted us \<Longrightarrow>
   sum_powers (merge_updates es us)
     = sum_powers es + sum_powers us - sum_list (map (\<lambda>u. old_power es (Address u)) us)"
proof (induction es us rule: merge_updates.induct)
  case (1 e es u us)
  consider "Address e < Address u" | "Address e = Address u" | "Address u < Address e" by fastforce
  then show ?case
  proof cases
    case 1
    then have "Address w \<noteq> Address e" if "w \<in> set (u # us)" for w using "1.prems"(2) that by auto
    then show ?thesis
      using "1.IH"(1) "1.prems" 1 sum_old_power_skip [of "u # us" e es]
      by (simp add: sum_powers_def)
  next
    case 2
    have "Address w \<noteq> Address e" if "w \<in> set us" for w using 2 "1.prems"(2) that by auto
    then show ?thesis
      using "1.IH"(2) "1.prems" 2 sum_old_power_skip [of us e es]
      by (simp add: sum_powers_def old_power_Cons)
  next
    case 3
    then have "old_power (e # es) (Address u) = 0"
      using "1.prems"(1) addr_map_None [of "e # es" "Address u"] by (auto simp: old_power_def)
    moreover have "\<not> Address e < Address u" "Address e \<noteq> Address u" using 3 by auto
    ultimately show ?thesis using "1.IH"(3) "1.prems" by (simp add: sum_powers_def)
  qed
qed (auto simp: sum_powers_def old_power_def)

lemma remove_deletes_filter:
  "addr_sorted es \<Longrightarrow> addr_sorted ds \<Longrightarrow> Address ` set ds \<subseteq> Address ` set es \<Longrightarrow>
   remove_deletes es ds = Ret (filter (\<lambda>v. Address v \<notin> Address ` set ds) es)"
proof (induction es ds rule: remove_deletes.induct)
  case (3 e es d ds)
  show ?case
  proof (cases "Address e = Address d")
    case True
    have "Address ` set ds \<subseteq> Address ` set es"
    proof (rule subsetI)
      fix a assume a: "a \<in> Address ` set ds"
      then have "a \<noteq> Address d" using "3.prems"(2) by auto
      then show "a \<in> Address ` set es" using a True "3.prems"(3) by auto
    qed
    then have "remove_deletes es ds = Ret (filter (\<lambda>v. Address v \<notin> Address ` set ds) es)"
      using "3.IH"(1) True "3.prems" by simp
    moreover have "Address v \<noteq> Address d" if "v \<in> set es" for v using that True "3.prems"(1) by auto
    ultimately show ?thesis using True by (auto intro!: filter_cong)
  next
    case False
    have "Address d \<in> Address ` set es" using False "3.prems"(3) by auto
    then have lt: "Address e < Address d" using "3.prems"(1) by auto
    then have "Address e \<notin> Address ` set (d # ds)" using "3.prems"(2) by auto
    then have "Address ` set (d # ds) \<subseteq> Address ` set es"
      using "3.prems"(3) by (auto simp: subset_insert)
    then show ?thesis using "3.IH"(2) False "3.prems"(1,2) \<open>Address e \<notin> _\<close> by simp
  qed
qed auto

lemma sum_list_if_address:
  "distinct (map Address ds) \<Longrightarrow>
   sum_list (map (\<lambda>d. if Address d = a then (p :: int) else f d) ds)
     = (if a \<in> Address ` set ds then p else 0) + sum_list (map (\<lambda>d. if Address d = a then 0 else f d) ds)"
  by (induction ds) auto

text \<open>The powers of the validators named by a list of changes.\<close>

lemma sum_old_power:
  assumes "distinct (map Address ds)"
  shows "distinct (map Address es) \<Longrightarrow> sum_list (map (\<lambda>d. old_power es (Address d)) ds)
    = sum_powers (filter (\<lambda>v. Address v \<in> Address ` set ds) es)"
proof (induction es)
  case Nil
  then show ?case by (simp add: old_power_def sum_powers_def)
next
  case (Cons e es)
  have "old_power es (Address e) = 0"
    using Cons.prems addr_map_None [of es "Address e"] by (simp add: old_power_def)
  then have eq: "map (\<lambda>d. if Address d = Address e then 0 else old_power es (Address d)) ds
      = map (\<lambda>d. old_power es (Address d)) ds"
    by auto
  have "sum_list (map (\<lambda>d. old_power (e # es) (Address d)) ds)
      = (if Address e \<in> Address ` set ds then VotingPower e else 0) + sum_list (map (\<lambda>d. old_power es (Address d)) ds)"
    unfolding old_power_Cons sum_list_if_address [OF assms] eq ..
  then show ?case using Cons by (auto simp: sum_powers_def)
qed

lemma sum_powers_partition: "sum_powers (filter P es) + sum_powers (filter (\<lambda>v. \<not> P v) es) = sum_powers es"
  by (induction es) (auto simp: sum_powers_def)

lemma sum_filter_removed:
  assumes "distinct (map Address es)" and "distinct (map Address ds)"
  shows "sum_powers (filter (\<lambda>v. Address v \<notin> Address ` set ds) es)
    = sum_powers es - sum_list (map (\<lambda>d. old_power es (Address d)) ds)"
  using sum_old_power [OF assms(2,1)] sum_powers_partition [of "\<lambda>v. Address v \<in> Address ` set ds" es] by simp

lemma sum_powers_nonneg: "\<forall>v \<in> set vs. 0 < VotingPower v \<Longrightarrow> 0 \<le> sum_powers vs"
  unfolding sum_powers_def by (intro sum_list_nonneg) (auto intro: less_imp_le)

section \<open>Checking the changes\<close>

lemma split_changes_Inr:
  "split_changes prev cs us rs = Inr (us', rs') \<Longrightarrow> sorted (map Address cs) \<Longrightarrow>
   us' = us @ filter (\<lambda>c. VotingPower c \<noteq> 0) cs \<and> rs' = rs @ filter (\<lambda>c. VotingPower c = 0) cs
   \<and> (\<forall>c \<in> set cs. 0 \<le> VotingPower c \<and> VotingPower c \<le> MaxTotalVotingPower)
   \<and> addr_sorted cs \<and> (cs \<noteq> [] \<longrightarrow> Address (hd cs) \<noteq> prev)"
proof (induction prev cs us rs rule: split_changes.induct)
  case (2 prev c cs us rs)
  have ok: "Address c \<noteq> prev" "0 \<le> VotingPower c" "VotingPower c \<le> MaxTotalVotingPower"
    using "2.prems"(1) by (auto split: if_splits)
  let ?us = "if VotingPower c = 0 then us else us @ [c]" and ?rs = "if VotingPower c = 0 then rs @ [c] else rs"
  have "split_changes (Address c) cs ?us ?rs = Inr (us', rs')"
    using "2.prems"(1) ok by (simp split: if_splits)
  then have IH: "us' = ?us @ filter (\<lambda>c. VotingPower c \<noteq> 0) cs \<and> rs' = ?rs @ filter (\<lambda>c. VotingPower c = 0) cs
      \<and> (\<forall>c \<in> set cs. 0 \<le> VotingPower c \<and> VotingPower c \<le> MaxTotalVotingPower)
      \<and> addr_sorted cs \<and> (cs \<noteq> [] \<longrightarrow> Address (hd cs) \<noteq> Address c)"
    using "2.IH" ok "2.prems"(2) by (cases "VotingPower c = 0") auto
  have "Address c < Address w" if w: "w \<in> set cs" for w
  proof -
    obtain h t where cs: "cs = h # t" using w by (cases cs) auto
    then have "Address c < Address h" using IH "2.prems"(2) by auto
    moreover have "Address h \<le> Address w" using that cs "2.prems"(2) by auto
    ultimately show ?thesis by (rule less_le_trans)
  qed
  then show ?case using IH ok by auto
qed simp

lemma processChanges_Inr:
  assumes "processChanges changes = Inr (updates, deletes)"
  shows "addr_sorted updates" "addr_sorted deletes" "distinct (map Address changes)"
    "set updates = {c \<in> set changes. VotingPower c \<noteq> 0}" "set deletes = {c \<in> set changes. VotingPower c = 0}"
    "\<forall>u \<in> set updates. 0 < VotingPower u \<and> VotingPower u \<le> MaxTotalVotingPower"
proof -
  let ?cs = "sort_by ValidatorsByAddress changes"
  have cs: "updates = filter (\<lambda>c. VotingPower c \<noteq> 0) ?cs" "deletes = filter (\<lambda>c. VotingPower c = 0) ?cs"
      "\<forall>c \<in> set ?cs. 0 \<le> VotingPower c \<and> VotingPower c \<le> MaxTotalVotingPower" "addr_sorted ?cs"
    using split_changes_Inr [OF assms [unfolded processChanges_def] by_address.sorted_sort_by] by auto
  then show "addr_sorted updates" "addr_sorted deletes"
    by (auto simp: sorted_wrt_map sorted_wrt_filter)
  show "distinct (map Address changes)"
    using addr_sorted_distinct [OF cs(4)] by simp
  show "set updates = {c \<in> set changes. VotingPower c \<noteq> 0}" "set deletes = {c \<in> set changes. VotingPower c = 0}"
    "\<forall>u \<in> set updates. 0 < VotingPower u \<and> VotingPower u \<le> MaxTotalVotingPower"
    using cs(1-3) by auto
qed

lemma sum_removed_spec:
  assumes "\<forall>v \<in> set (Validators vals). 0 < VotingPower v" and "0 \<le> acc"
    and "acc + sum_list (map (\<lambda>d. old_power (Validators vals) (Address d)) ds) \<le> MaxInt64"
  shows "(\<exists>err. sum_removed vals acc ds = Inl err) \<or>
    sum_removed vals acc ds = Inr (acc + sum_list (map (\<lambda>d. old_power (Validators vals) (Address d)) ds))
    \<and> Address ` set ds \<subseteq> Address ` set (Validators vals)"
  using assms(2,3)
proof (induction ds arbitrary: acc)
  case (Cons d ds)
  show ?case
  proof (cases "addr_map (Validators vals) (Address d)")
    case None
    then show ?thesis by (simp add: GetByAddress_map)
  next
    case (Some v)
    have v: "v \<in> set (Validators vals)" "Address v = Address d" using addr_map_SomeD [OF Some] by auto
    have op: "old_power (Validators vals) (Address d) = VotingPower v" using Some by (simp add: old_power_def)
    have nn: "0 \<le> old_power (Validators vals) a" for a
      using assms(1) by (auto simp: old_power_def split: option.splits dest!: addr_map_SomeD intro: less_imp_le)
    have "0 \<le> sum_list (map (\<lambda>d. old_power (Validators vals) (Address d)) ds)"
      by (rule sum_list_nonneg) (use nn in auto)
    moreover have "0 < VotingPower v" using assms(1) v(1) by blast
    ultimately have "wrap64 (acc + VotingPower v) = acc + VotingPower v"
      using Cons.prems op by (intro wrap64_id) (simp add: in64_def int_limits)
    then show ?thesis
      using Cons.IH [of "acc + VotingPower v"] Cons.prems op Some imageI [OF v(1), of Address] v(2)
        \<open>0 < VotingPower v\<close>
      by (auto simp: GetByAddress_map add.assoc)
  qed
qed simp

lemma add_deltas_spec:
  assumes "\<forall>u \<in> set us. 0 < VotingPower u \<and> VotingPower u \<le> MaxTotalVotingPower
      \<and> delta vals u = VotingPower u - old (Address u) \<and> 0 \<le> old (Address u)"
    and "sum_list (map (\<lambda>u. old (Address u)) us) \<le> acc" and "acc \<le> MaxTotalVotingPower"
  shows "add_deltas vals acc us = None \<or>
    add_deltas vals acc us = Some (acc + sum_powers us - sum_list (map (\<lambda>u. old (Address u)) us))
    \<and> acc + sum_powers us - sum_list (map (\<lambda>u. old (Address u)) us) \<le> MaxTotalVotingPower"
  using assms
proof (induction us arbitrary: acc)
  case (Cons u us)
  let ?acc = "acc + (VotingPower u - old (Address u))"
  have "0 \<le> sum_list (map (\<lambda>u. old (Address u)) us)"
    by (rule sum_list_nonneg) (use Cons.prems(1) in auto)
  moreover have u: "0 < VotingPower u" "VotingPower u \<le> MaxTotalVotingPower" "0 \<le> old (Address u)"
      "delta vals u = VotingPower u - old (Address u)"
    using Cons.prems(1) by auto
  ultimately have "wrap64 (acc + delta vals u) = ?acc"
    using Cons.prems(2,3) by (subst wrap64_id) (auto simp: in64_def max_power)
  then have step: "add_deltas vals acc (u # us) = (if ?acc > MaxTotalVotingPower then None else add_deltas vals ?acc us)"
    by (simp add: Let_def)
  have eq: "acc + sum_powers (u # us) - sum_list (map (\<lambda>u. old (Address u)) (u # us))
      = ?acc + sum_powers us - sum_list (map (\<lambda>u. old (Address u)) us)"
    by (simp add: sum_powers_def)
  have "sum_list (map (\<lambda>u. old (Address u)) us) \<le> ?acc" using Cons.prems(2) u by simp
  then show ?case
    unfolding step eq using Cons.IH [of ?acc] Cons.prems(1) by (cases "?acc \<le> MaxTotalVotingPower") auto
qed (simp add: sum_powers_def)

section \<open>The total voting power\<close>

lemma sum_power_spec:
  "\<lbrakk>\<forall>v \<in> set vs. 0 < VotingPower v; 0 \<le> acc; acc + sum_powers vs \<le> MaxTotalVotingPower\<rbrakk> \<Longrightarrow>
   sum_power acc vs = Ret (acc + sum_powers vs)"
proof (induction vs arbitrary: acc)
  case (Cons v vs)
  have "0 \<le> sum_powers vs" using sum_powers_nonneg Cons.prems(1) by simp
  then have le: "acc + VotingPower v \<le> MaxTotalVotingPower" using Cons.prems(3) by (simp add: sum_powers_def)
  have v: "0 < VotingPower v" using Cons.prems(1) by simp
  have "safeAddClip acc (VotingPower v) = acc + VotingPower v"
    using le v Cons.prems(2) by (subst safeAddClip_eq) (auto simp: in64_def max_power intro!: clip64_id)
  then show ?case using Cons.IH [of "acc + VotingPower v"] Cons.prems le v by (simp add: sum_powers_def)
qed (simp add: sum_powers_def)

lemma updateTotalVotingPower_spec:
  assumes "\<forall>v \<in> set (Validators vals). 0 < VotingPower v" and "sum_powers (Validators vals) \<le> MaxTotalVotingPower"
  shows "updateTotalVotingPower vals = Ret (vals\<lparr>totalVotingPower := sum_powers (Validators vals)\<rparr>)"
  using sum_power_spec [of "Validators vals" 0] assms by (simp add: updateTotalVotingPower_def)

lemma TotalVotingPower_wf:
  assumes "wf_vals vals"
  shows "TotalVotingPower vals = Ret (vals, sum_powers (Validators vals))"
proof -
  have "updateTotalVotingPower vals = Ret vals"
    using assms updateTotalVotingPower_spec [of vals] by (simp add: wf_vals_def)
  then show ?thesis using assms by (simp add: TotalVotingPower_def wf_vals_def)
qed

section \<open>Applying the changes\<close>

lemma computeNewPriorities_same:
  "map Address (computeNewPriorities us vals t) = map Address us"
  "map VotingPower (computeNewPriorities us vals t) = map VotingPower us"
  by (auto simp: computeNewPriorities_def split: option.splits)

lemma computeNewPriorities_within:
  assumes "within prio_bound (Validators vals)" and "0 \<le> t" and "t \<le> 2 * MaxTotalVotingPower"
  shows "within prio_bound (computeNewPriorities us vals t)"
proof -
  have "t div 8 \<le> MaxTotalVotingPower" "0 \<le> t div 8" using assms(2,3) by (auto simp: max_power)
  moreover from this have "wrap64 (- wrap64 (t + t div 8)) = - (t + t div 8)"
    using assms(2,3) by (simp add: wrap64_id in64_def max_power)
  ultimately have "\<bar>wrap64 (- wrap64 (t + t div 8))\<bar> \<le> prio_bound"
    using assms(2,3) by (simp add: prio_bound_def)
  then show ?thesis
    using assms(1)
    by (auto simp: within_def computeNewPriorities_def GetByAddress_map split: option.splits dest!: addr_map_SomeD)
qed

lemma sum_powers_computeNewPriorities: "sum_powers (computeNewPriorities us vals t) = sum_powers us"
  by (simp add: sum_powers_def computeNewPriorities_same)

lemma addr_map_filter:
  "addr_map (filter (\<lambda>v. P (Address v)) es) a = (if P a then addr_map es a else None)"
  by (induction es) auto

lemma powers_map_of: "powers vs = map_of (zip (map Address vs) (map VotingPower vs))"
proof
  show "powers vs a = map_of (zip (map Address vs) (map VotingPower vs)) a" for a
    by (induction vs) (auto simp: powers_def)
qed

lemma powers_static: "static vs = static ws \<Longrightarrow> powers vs = powers ws"
  using static_eqD [of vs ws] by (simp add: powers_map_of)

lemma powers_computeNewPriorities: "powers (computeNewPriorities us vals t) = powers us"
  by (simp only: powers_map_of computeNewPriorities_same)

lemma powers_cong_set:
  "\<lbrakk>distinct (map Address vs); distinct (map Address ws); set vs = set ws\<rbrakk> \<Longrightarrow> powers vs = powers ws"
  using addr_map_cong_set [of vs ws] by (simp add: powers_def fun_eq_iff)

lemma powers_merge:
  "addr_sorted es \<Longrightarrow> addr_sorted us \<Longrightarrow> powers (merge_updates es us) = powers es ++ powers us"
  by (auto simp: powers_def merge_updates_map map_add_def fun_eq_iff split: option.splits)

lemma powers_None: "powers vs a = None \<longleftrightarrow> a \<notin> Address ` set vs"
  by (simp add: powers_def addr_map_None)

lemma powers_member: "distinct (map Address vs) \<Longrightarrow> v \<in> set vs \<Longrightarrow> powers vs (Address v) = Some (VotingPower v)"
  by (simp add: powers_def addr_map_member)

text \<open>The merged and filtered powers are the abstract update.\<close>

lemma powers_changes:
  assumes pc: "processChanges changes = Inr (updates, deletes)"
  shows "(if a \<in> Address ` set deletes then None else (m ++ powers updates) a) = apply_changes m changes a"
proof (cases "a \<in> Address ` set changes")
  case True
  then obtain c where c: "c \<in> set changes" "Address c = a" by auto
  note d = processChanges_Inr [OF pc]
  have ch: "powers changes a = Some (VotingPower c)" using powers_member [OF d(3) c(1)] c(2) by simp
  have uniq: "c' = c" if "c' \<in> set changes" "Address c' = a" for c'
    using d(3) c that by (metis distinct_map inj_onD)
  show ?thesis
  proof (cases "VotingPower c = 0")
    case zero: True
    then have "a \<in> Address ` set deletes" using c d(5) by auto
    then show ?thesis using zero ch by (simp add: apply_changes_def)
  next
    case False
    then have "a \<notin> Address ` set deletes" using d(5) uniq by auto
    moreover have "powers updates a = Some (VotingPower c)"
      using powers_member [of updates c] addr_sorted_distinct [OF d(1)] d(4) c False by simp
    ultimately show ?thesis using False ch by (simp add: apply_changes_def map_add_def)
  qed
next
  case False
  then have "a \<notin> Address ` set deletes" "powers updates a = None" "powers changes a = None"
    using processChanges_Inr(4,5) [OF pc] by (auto simp: powers_None)
  then show ?thesis by (simp add: apply_changes_def map_add_def)
qed

lemma processChanges_disjoint:
  assumes "processChanges changes = Inr (updates, deletes)"
  shows "distinct (map Address (updates @ deletes))"
proof -
  note d = processChanges_Inr [OF assms]
  have "Address u \<noteq> Address w" if "u \<in> set updates" "w \<in> set deletes" for u w
    using that d(3,4,5) by (metis (mono_tags, lifting) distinct_map inj_onD mem_Collect_eq)
  then show ?thesis using addr_sorted_distinct [OF d(1)] addr_sorted_distinct [OF d(2)] by auto
qed

abbreviation sum_old :: "ValidatorSet \<Rightarrow> Validator list \<Rightarrow> int" where
  "sum_old vals cs \<equiv> sum_list (map (\<lambda>c. old_power (Validators vals) (Address c)) cs)"

lemma sum_old_le:
  assumes "wf_vals vals" and "distinct (map Address cs)"
  shows "0 \<le> sum_old vals cs" and "sum_old vals cs \<le> sum_powers (Validators vals)"
proof -
  let ?in = "\<lambda>v. Address v \<in> Address ` set cs"
  have "sum_old vals cs = sum_powers (filter ?in (Validators vals))"
    using sum_old_power [OF assms(2), of "Validators vals"] assms(1) by (simp add: wf_vals_def)
  moreover have "0 \<le> sum_powers (filter P (Validators vals))" for P
    using assms(1) by (intro sum_powers_nonneg) (auto simp: wf_vals_def)
  ultimately show "0 \<le> sum_old vals cs" "sum_old vals cs \<le> sum_powers (Validators vals)"
    using sum_powers_partition [of ?in "Validators vals"] by (simp, smt (verit))
qed

lemma old_power_bounds:
  assumes "wf_vals vals"
  shows "0 \<le> old_power (Validators vals) a" and "old_power (Validators vals) a \<le> MaxTotalVotingPower"
proof -
  have "0 \<le> old_power (Validators vals) a \<and> old_power (Validators vals) a \<le> sum_powers (Validators vals)"
  proof (cases "addr_map (Validators vals) a")
    case None
    then show ?thesis
      using assms sum_powers_nonneg [of "Validators vals"] by (simp add: old_power_def wf_vals_def)
  next
    case (Some v)
    have v: "v \<in> set (Validators vals)" using addr_map_SomeD [OF Some] by simp
    then have "0 < VotingPower v" using assms by (simp add: wf_vals_def)
    moreover have "VotingPower v \<le> sum_powers (Validators vals)"
      unfolding sum_powers_def using assms v
      by (intro sum_list_member_le) (auto simp: wf_vals_def intro: less_imp_le)
    ultimately show ?thesis using Some by (simp add: old_power_def)
  qed
  then show "0 \<le> old_power (Validators vals) a" "old_power (Validators vals) a \<le> MaxTotalVotingPower"
    using assms by (auto simp: wf_vals_def)
qed

lemma verifyUpdates_spec:
  assumes wf: "wf_vals vals" and pc: "processChanges changes = Inr (updates, deletes)"
  defines "t \<equiv> sum_powers (Validators vals) + sum_powers updates - sum_old vals updates"
  shows "verifyUpdates updates vals (sum_old vals deletes) = Ret (vals, Inl ErrTotalVotingPowerOverflow) \<or>
    verifyUpdates updates vals (sum_old vals deletes) = Ret (vals, Inr t)
    \<and> t - sum_old vals deletes \<le> MaxTotalVotingPower \<and> 0 \<le> t \<and> t \<le> 2 * MaxTotalVotingPower"
proof -
  let ?us = "sort_by (\<lambda>a b. delta vals a < delta vals b) updates"
  let ?old = "old_power (Validators vals)"
  let ?R = "sum_old vals deletes" and ?T = "sum_powers (Validators vals)"
  note d = processChanges_Inr [OF pc]
  have T: "?T \<le> MaxTotalVotingPower" using wf by (simp add: wf_vals_def)
  have both: "sum_old vals updates + ?R \<le> ?T" "0 \<le> sum_old vals updates" "0 \<le> ?R"
    using sum_old_le [OF wf processChanges_disjoint [OF pc]]
      sum_old_le(1) [OF wf addr_sorted_distinct [OF d(1)]] sum_old_le(1) [OF wf addr_sorted_distinct [OF d(2)]]
    by auto
  have w: "wrap64 (?T - ?R) = ?T - ?R" using both T by (intro wrap64_id) (simp add: in64_def max_power)
  have up: "0 < VotingPower u \<and> VotingPower u \<le> MaxTotalVotingPower
      \<and> delta vals u = VotingPower u - ?old (Address u) \<and> 0 \<le> ?old (Address u)" if "u \<in> set ?us" for u
  proof -
    have u: "0 < VotingPower u" "VotingPower u \<le> MaxTotalVotingPower" using d(6) that by auto
    have "wrap64 (VotingPower u - ?old (Address u)) = VotingPower u - ?old (Address u)"
      using u old_power_bounds [OF wf, of "Address u"] by (intro wrap64_id) (simp add: in64_def max_power)
    then have "delta vals u = VotingPower u - ?old (Address u)"
      by (auto simp: delta_def GetByAddress_map old_power_def split: option.splits)
    then show ?thesis using u old_power_bounds(1) [OF wf] by simp
  qed
  have sums: "sum_powers ?us = sum_powers updates" "sum_list (map (\<lambda>u. ?old (Address u)) ?us) = sum_old vals updates"
    by (simp_all add: sum_powers_def)
  have eq: "?T - ?R + sum_powers ?us - sum_list (map (\<lambda>u. ?old (Address u)) ?us) = t - ?R"
    by (simp only: sums t_def)
  have "sum_list (map (\<lambda>u. ?old (Address u)) ?us) \<le> ?T - ?R" "?T - ?R \<le> MaxTotalVotingPower"
    using both T sums(2) by linarith+
  then have "add_deltas vals (?T - ?R) ?us = None \<or>
      add_deltas vals (?T - ?R) ?us = Some (t - ?R) \<and> t - ?R \<le> MaxTotalVotingPower"
    using add_deltas_spec [of ?us vals ?old "?T - ?R", unfolded eq] up by blast
  moreover have t: "0 \<le> t" using both sum_powers_nonneg [of updates] d(6) by (simp add: t_def)
  moreover have "wrap64 (t - ?R + ?R) = t" if "t - ?R \<le> MaxTotalVotingPower"
    using that t both T by (simp add: wrap64_id in64_def max_power)
  ultimately show ?thesis
    using TotalVotingPower_wf [OF wf] w both T by (auto simp: verifyUpdates_def)
qed

lemma verifyRemovals_spec:
  assumes wf: "wf_vals vals" and ds: "addr_sorted deletes"
  shows "(\<exists>err. verifyRemovals deletes vals = Ret (Inl err)) \<or>
    verifyRemovals deletes vals = Ret (Inr (sum_old vals deletes))
    \<and> Address ` set deletes \<subseteq> Address ` set (Validators vals)"
proof -
  note dist = addr_sorted_distinct [OF ds]
  have "sum_old vals deletes \<le> MaxInt64"
    using sum_old_le(2) [OF wf dist] wf by (simp add: wf_vals_def max_power)
  then consider err where "sum_removed vals 0 deletes = Inl err"
    | "sum_removed vals 0 deletes = Inr (sum_old vals deletes)"
      "Address ` set deletes \<subseteq> Address ` set (Validators vals)"
    using sum_removed_spec [of vals 0 deletes] wf by (auto simp: wf_vals_def)
  then show ?thesis
  proof cases
    case 2
    have "length deletes = card (Address ` set deletes)" using dist by (metis distinct_card length_map set_map)
    also have "\<dots> \<le> card (Address ` set (Validators vals))" using 2(2) by (intro card_mono) auto
    also have "\<dots> \<le> length (Validators vals)" by (metis card_length length_map set_map)
    finally show ?thesis using 2 by (simp add: verifyRemovals_def)
  qed (simp add: verifyRemovals_def)
qed

section \<open>The whole update\<close>

text \<open>Scaling, centring and sorting the list that results from a successful update.\<close>

definition finish :: "ValidatorSet \<Rightarrow> (ValidatorSet \<times> valset_error option) go" where
  "finish vals3 =
     do {
       vals4 \<leftarrow> updateTotalVotingPower vals3;
       (vals5, total) \<leftarrow> TotalVotingPower vals4;
       vals6 \<leftarrow> RescalePriorities vals5 (wrap64 (PriorityWindowSizeFactor * total));
       vals7 \<leftarrow> shiftByAvgProposerPriority vals6;
       Ret (vals7\<lparr>Validators := sort_by ValidatorsByVotingPower (Validators vals7)\<rparr>, None)
     }"

lemma finish_update:
  assumes ne: "L \<noteq> []" and dist: "distinct (map Address L)" and pos: "\<forall>v \<in> set L. 0 < VotingPower v"
    and b: "within prio_bound L" and sum: "sum_powers L \<le> MaxTotalVotingPower"
  obtains vals' where
    "finish (vals\<lparr>Validators := L\<rparr>) = Ret (vals', None)" and "wf_vals vals'" and "powers (Validators vals') = powers L"
    and "length (Validators vals') = length L"
    and "0 \<le> sum_priorities (Validators vals')"
    and "sum_priorities (Validators vals') < int (length (Validators vals'))"
    and "within (2 * sum_powers L) (Validators vals')"
    and "sum_powers (Validators vals') = sum_powers L" and "mset (static (Validators vals')) = mset (static L)"
proof -
  let ?P = "sum_powers L"
  have "0 < ?P" using ne pos sum_powers_nonneg [of "tl L"] by (cases L) (auto simp: sum_powers_def)
  note P = this sum
  define v4 where "v4 = vals\<lparr>Validators := L, totalVotingPower := ?P\<rparr>"
  have u: "updateTotalVotingPower (vals\<lparr>Validators := L\<rparr>) = Ret v4"
    using updateTotalVotingPower_spec [of "vals\<lparr>Validators := L\<rparr>"] pos sum by (simp add: v4_def)
  have t: "TotalVotingPower v4 = Ret (v4, ?P)" using P by (simp add: TotalVotingPower_def v4_def)
  have w: "wrap64 (PriorityWindowSizeFactor * ?P) = 2 * ?P"
    using P by (simp add: PriorityWindowSizeFactor_def wrap64_id in64_def max_power)
  have fit: "2 * prio_bound + 2 * ?P \<le> MaxInt64" using P by (simp add: prio_bound_def max_power)
  obtain ws where ws: "RescalePriorities v4 (2 * ?P) = Ret (v4\<lparr>Validators := ws\<rparr>)"
      "static ws = static L" "within prio_bound ws" "spread_le ws (2 * ?P)"
    using RescalePriorities_spec [of v4 prio_bound "2 * ?P"] ne b P fit by (auto simp: v4_def)
  have "ws \<noteq> []" using static_eqD(3) [OF ws(2)] ne by auto
  then obtain us where us: "shiftByAvgProposerPriority (v4\<lparr>Validators := ws\<rparr>) = Ret (v4\<lparr>Validators := us\<rparr>)"
      "static us = static ws" "within (2 * ?P) us" "0 \<le> sum_priorities us" "sum_priorities us < int (length us)"
    using shiftByAvg_spec [of "v4\<lparr>Validators := ws\<rparr>" prio_bound "2 * ?P"] ws fit P by auto
  define zs where "zs = sort_by ValidatorsByVotingPower us"
  note st = static_eqD [OF trans [OF us(2) ws(2)]]
  have sums: "sum_powers zs = ?P" using st(2) by (simp add: zs_def sum_powers_def)
  have zpos: "\<forall>v \<in> set zs. 0 < VotingPower v"
    using static_pos [OF trans [OF us(2) ws(2)] pos] by (simp add: zs_def)
  have zdist: "distinct (map Address zs)" "distinct (map Address us)" using dist st(1) by (simp_all add: zs_def)
  have "2 * ?P \<le> prio_bound" using P by (simp add: prio_bound_def)
  then have "within prio_bound zs" using us(3) unfolding within_def zs_def by fastforce
  then have wf: "wf_vals (v4\<lparr>Validators := zs\<rparr>)"
    using zdist zpos sums sum by_power.sorted_sort_by [of us] by (simp add: wf_vals_def v4_def zs_def comp_def)
  have pw: "powers zs = powers L"
    using powers_cong_set [OF zdist] powers_static [OF trans [OF us(2) ws(2)]] by (simp add: zs_def)
  have perm: "mset (static zs) = mset (static L)" unfolding trans [OF us(2) ws(2), symmetric] by (simp add: zs_def static_def)
  have "sum_priorities zs = sum_priorities us" by (simp add: sum_priorities_def zs_def)
  then show thesis
    using that [of "v4\<lparr>Validators := zs\<rparr>"] u t w ws(1) us wf pw st(3) sums perm
    by (simp add: finish_def zs_def within_def)
qed

lemma updates_applied:
  assumes wf: "wf_vals vals" and pc: "processChanges changes = Inr (updates, deletes)"
    and sub: "Address ` set deletes \<subseteq> Address ` set (Validators vals)"
    and t: "0 \<le> t" "t \<le> 2 * MaxTotalVotingPower"
  defines "us \<equiv> computeNewPriorities updates vals t"
  obtains L where "applyRemovals (applyUpdates vals us) deletes = Ret (vals\<lparr>Validators := L\<rparr>)"
    and "distinct (map Address L)" and "\<forall>v \<in> set L. 0 < VotingPower v" and "within prio_bound L"
    and "powers L = apply_changes (powers (Validators vals)) changes"
    and "sum_powers L = sum_powers (Validators vals) + sum_powers updates - sum_old vals updates - sum_old vals deletes"
proof -
  let ?es = "sort_by ValidatorsByAddress (Validators vals)"
  let ?M = "merge_updates ?es us"
  let ?L = "filter (\<lambda>v. Address v \<notin> Address ` set deletes) ?M"
  note d = processChanges_Inr [OF pc]
  have vdist: "distinct (map Address (Validators vals))" using wf by (simp add: wf_vals_def)
  have es: "addr_sorted ?es" using by_address.sort_by_strict [OF vdist] .
  have es_map: "addr_map ?es = addr_map (Validators vals)"
    using vdist by (intro addr_map_cong_set) simp_all
  have us: "addr_sorted us" using d(1) by (simp add: us_def computeNewPriorities_same)
  have us_addr: "Address ` set us = Address ` set updates"
    using computeNewPriorities_same(1) [of updates vals t] unfolding us_def by (metis set_map)
  have M: "addr_sorted ?M" using merge_updates_sorted [OF es us] .
  have dom: "Address ` set ?M = Address ` set (Validators vals) \<union> Address ` set us"
    using merge_updates_map [OF es us] es_map by (metis dom_addr_map dom_map_add sup_commute)
  have res: "applyRemovals (applyUpdates vals us) deletes = Ret (vals\<lparr>Validators := ?L\<rparr>)"
    using remove_deletes_filter [OF M d(2)] le_supI1 [OF sub, of "Address ` set us"] dom
    by (simp add: applyRemovals_def applyUpdates_def)
  have Ldist: "distinct (map Address ?L)"
    using addr_sorted_distinct [OF M] by (simp add: distinct_map_filter)
  have "VotingPower ` set us = VotingPower ` set updates"
    using computeNewPriorities_same(2) [of updates vals t] unfolding us_def by (metis set_map)
  then have "\<forall>v \<in> set us. 0 < VotingPower v" using d(6) by (metis image_iff)
  then have pos: "\<forall>v \<in> set ?L. 0 < VotingPower v"
    using set_merge_updates [of ?es us] wf by (auto simp: wf_vals_def)
  have bound: "within prio_bound ?L"
    using set_merge_updates [of ?es us] computeNewPriorities_within [of vals t updates] wf t
    by (auto simp: wf_vals_def within_def us_def)
  have "powers ?L a = (if a \<in> Address ` set deletes then None else (powers (Validators vals) ++ powers updates) a)" for a
  proof -
    have "powers ?es = powers (Validators vals)" using es_map by (simp add: powers_def fun_eq_iff)
    then have "powers ?M = powers (Validators vals) ++ powers updates"
      using powers_merge [OF es us] powers_computeNewPriorities [of updates vals t] by (simp add: us_def)
    moreover have "powers ?L a = (if a \<in> Address ` set deletes then None else powers ?M a)"
      by (simp add: powers_def addr_map_filter [where P = "\<lambda>a. a \<notin> Address ` set deletes"])
    ultimately show ?thesis by simp
  qed
  then have pw: "powers ?L = apply_changes (powers (Validators vals)) changes"
    using powers_changes [OF pc] by (simp add: fun_eq_iff)
  have "Address c \<notin> Address ` set us" if "c \<in> set deletes" for c
    using processChanges_disjoint [OF pc] that us_addr by auto
  then have "old_power ?M (Address c) = old_power (Validators vals) (Address c)" if "c \<in> set deletes" for c
    using that merge_updates_map [OF es us] es_map addr_map_None [of us "Address c"]
    by (simp add: old_power_def map_add_def)
  then have "sum_list (map (\<lambda>c. old_power ?M (Address c)) deletes) = sum_old vals deletes"
    by (intro arg_cong [where f = sum_list]) simp
  moreover have "sum_list (map (\<lambda>c. old_power ?es (Address c)) us) = sum_old vals updates"
  proof -
    have "old_power ?es = old_power (Validators vals)" using es_map by (simp add: old_power_def fun_eq_iff)
    then show ?thesis
      using arg_cong [OF computeNewPriorities_same(1), of "map (old_power (Validators vals))" updates vals t]
      by (simp add: us_def comp_def)
  qed
  ultimately have "sum_powers ?L
      = sum_powers (Validators vals) + sum_powers updates - sum_old vals updates - sum_old vals deletes"
    using sum_filter_removed [OF addr_sorted_distinct [OF M] addr_sorted_distinct [OF d(2)]]
      sum_merge_updates [OF es us] sum_powers_computeNewPriorities [of updates vals t]
    by (simp add: us_def sum_powers_def)
  then show thesis using that [OF res Ldist pos bound pw] by simp
qed

lemma applied_not_empty:
  assumes wf: "wf_vals vals" and pc: "processChanges changes = Inr (updates, deletes)"
    and sub: "Address ` set deletes \<subseteq> Address ` set (Validators vals)"
    and chk: "\<not> (numNewValidators updates vals = 0 \<and> length (Validators vals) = length deletes)"
    and L: "powers L = apply_changes (powers (Validators vals)) changes"
  shows "L \<noteq> []"
proof
  assume "L = []"
  then have none: "apply_changes (powers (Validators vals)) changes a = None" for a
    using L powers_None [of "[]" a] by simp
  note d = processChanges_Inr [OF pc]
  have no_up: "updates = []"
  proof (rule ccontr)
    assume "updates \<noteq> []"
    then obtain u where u: "u \<in> set updates" by (cases updates) auto
    then have "powers changes (Address u) = Some (VotingPower u)" "VotingPower u \<noteq> 0"
      using powers_member [OF d(3)] d(4) by auto
    then show False using none [of "Address u"] by (simp add: apply_changes_def)
  qed
  have "Address ` set (Validators vals) \<subseteq> Address ` set deletes"
  proof
    fix a assume "a \<in> Address ` set (Validators vals)"
    then have "powers (Validators vals) a \<noteq> None" by (simp add: powers_None)
    then have "powers changes a \<noteq> None" using none [of a] by (auto simp: apply_changes_def split: option.splits)
    then obtain c where "c \<in> set changes" "Address c = a" using powers_None [of changes a] by auto
    then show "a \<in> Address ` set deletes" using d(4,5) no_up by auto
  qed
  then have "card (Address ` set (Validators vals)) = card (Address ` set deletes)" using sub by simp
  moreover have "card (Address ` set vs) = length vs" if "distinct (map Address vs)" for vs
    using that by (metis distinct_card length_map set_map)
  moreover have "distinct (map Address (Validators vals))" using wf by (simp add: wf_vals_def)
  ultimately have "length (Validators vals) = length deletes"
    using addr_sorted_distinct [OF d(2)] by metis
  then show False using chk no_up by (simp add: numNewValidators_def)
qed

text \<open>
  The specification of an update: no panic, unchanged on error, otherwise the abstract update with
  the invariant kept and the priorities centred.
\<close>

definition update_spec :: "ValidatorSet \<Rightarrow> Validator list \<Rightarrow> ValidatorSet \<Rightarrow> valset_error option \<Rightarrow> bool" where
  "update_spec vals changes vals' err \<longleftrightarrow> wf_vals vals' \<and>
     (case err of
        Some _ \<Rightarrow> vals' = vals
      | None \<Rightarrow> powers (Validators vals') = apply_changes (powers (Validators vals)) changes
          \<and> (changes \<noteq> [] \<longrightarrow> Validators vals' \<noteq> [] \<and> 0 \<le> sum_priorities (Validators vals')
               \<and> sum_priorities (Validators vals') < int (length (Validators vals'))
               \<and> within (2 * sum_powers (Validators vals')) (Validators vals')))"

lemma apply_changes_Nil: "apply_changes m [] = m"
  by (simp add: apply_changes_def powers_def fun_eq_iff)

lemma updateWithChangeSet_branches:
  assumes ne: "changes \<noteq> []" and pc: "processChanges changes = Inr (updates, deletes)"
  shows "\<not> allow \<and> deletes \<noteq> [] \<Longrightarrow>
      updateWithChangeSet vals changes allow = Ret (vals, Some DeletesNotAllowed)"
    and "\<lbrakk>\<not> (\<not> allow \<and> deletes \<noteq> []); numNewValidators updates vals = 0 \<and> length (Validators vals) = length deletes\<rbrakk>
      \<Longrightarrow> updateWithChangeSet vals changes allow = Ret (vals, Some WouldBeEmpty)"
    and "\<lbrakk>\<not> (\<not> allow \<and> deletes \<noteq> []); \<not> (numNewValidators updates vals = 0 \<and> length (Validators vals) = length deletes);
       verifyRemovals deletes vals = Ret (Inl err)\<rbrakk> \<Longrightarrow>
      updateWithChangeSet vals changes allow = Ret (vals, Some err)"
    and "\<lbrakk>\<not> (\<not> allow \<and> deletes \<noteq> []); \<not> (numNewValidators updates vals = 0 \<and> length (Validators vals) = length deletes);
       verifyRemovals deletes vals = Ret (Inr removed); verifyUpdates updates vals removed = Ret (vals1, Inl err)\<rbrakk> \<Longrightarrow>
      updateWithChangeSet vals changes allow = Ret (vals1, Some err)"
    and "\<lbrakk>\<not> (\<not> allow \<and> deletes \<noteq> []); \<not> (numNewValidators updates vals = 0 \<and> length (Validators vals) = length deletes);
       verifyRemovals deletes vals = Ret (Inr removed); verifyUpdates updates vals removed = Ret (vals1, Inr t);
       applyRemovals (applyUpdates vals1 (computeNewPriorities updates vals1 t)) deletes = Ret vals3\<rbrakk> \<Longrightarrow>
      updateWithChangeSet vals changes allow = finish vals3"
  using ne by (simp_all add: updateWithChangeSet_def pc Let_def finish_def) auto

lemma updateWithChangeSet_spec:
  assumes wf: "wf_vals vals"
  obtains vals' err where "updateWithChangeSet vals changes allow = Ret (vals', err)"
    and "update_spec vals changes vals' err"
proof (cases "changes = [] \<or> (\<exists>err. updateWithChangeSet vals changes allow = Ret (vals, Some err))")
  case True
  then show ?thesis
    using that wf apply_changes_Nil by (auto simp: updateWithChangeSet_def update_spec_def)
next
  case False
  then have ne: "changes \<noteq> []" and no_err: "updateWithChangeSet vals changes allow \<noteq> Ret (vals, Some err)" for err
    by auto
  obtain updates deletes where pc: "processChanges changes = Inr (updates, deletes)"
    using no_err ne by (cases "processChanges changes") (auto simp: updateWithChangeSet_def)
  note d = processChanges_Inr [OF pc] and br = updateWithChangeSet_branches [OF ne pc]
  have allow: "\<not> (\<not> allow \<and> deletes \<noteq> [])" using br(1) no_err by metis
  have chk: "\<not> (numNewValidators updates vals = 0 \<and> length (Validators vals) = length deletes)"
    using br(2) [OF allow] no_err by metis
  let ?t = "sum_powers (Validators vals) + sum_powers updates - sum_old vals updates"
  have rem: "verifyRemovals deletes vals = Ret (Inr (sum_old vals deletes))"
      "Address ` set deletes \<subseteq> Address ` set (Validators vals)"
    using verifyRemovals_spec [OF wf d(2)] br(3) [OF allow chk] no_err by metis+
  have upd: "verifyUpdates updates vals (sum_old vals deletes) = Ret (vals, Inr ?t)"
      "?t - sum_old vals deletes \<le> MaxTotalVotingPower" "0 \<le> ?t" "?t \<le> 2 * MaxTotalVotingPower"
    using verifyUpdates_spec [OF wf pc] br(4) [OF allow chk rem(1)] no_err by metis+
  obtain L where L: "applyRemovals (applyUpdates vals (computeNewPriorities updates vals ?t)) deletes
        = Ret (vals\<lparr>Validators := L\<rparr>)"
      "distinct (map Address L)" "\<forall>v \<in> set L. 0 < VotingPower v" "within prio_bound L"
      "powers L = apply_changes (powers (Validators vals)) changes" "sum_powers L = ?t - sum_old vals deletes"
    using updates_applied [OF wf pc rem(2) upd(3,4)] .
  have L_ne: "L \<noteq> []" using applied_not_empty [OF wf pc rem(2) chk L(5)] .
  have "sum_powers L \<le> MaxTotalVotingPower" using L(6) upd(2) by simp
  then obtain vals' where fin: "finish (vals\<lparr>Validators := L\<rparr>) = Ret (vals', None)"
      "wf_vals vals'" "powers (Validators vals') = powers L" "length (Validators vals') = length L"
      "0 \<le> sum_priorities (Validators vals')"
      "sum_priorities (Validators vals') < int (length (Validators vals'))"
      "within (2 * sum_powers L) (Validators vals')" "sum_powers (Validators vals') = sum_powers L"
    using finish_update [OF L_ne L(2,3,4), of vals] by blast
  have "updateWithChangeSet vals changes allow = Ret (vals', None)"
    using br(5) [OF allow chk rem(1) upd(1) L(1)] fin(1) by simp
  moreover have "Validators vals' \<noteq> []" using fin(4) L_ne by auto
  ultimately show ?thesis using that fin L(5) by (auto simp: update_spec_def)
qed

lemma wf_empty: "wf_vals empty_valset"
  by (simp add: wf_vals_def empty_valset_def sum_powers_def within_def max_power)

section \<open>New validator sets\<close>

text \<open>The validators a set can be made of. The empty address is taken for a repetition.\<close>

definition valid_start :: "Validator list \<Rightarrow> bool" where
  "valid_start valz \<longleftrightarrow> distinct (map Address valz) \<and> (\<forall>v \<in> set valz. Address v \<noteq> [] \<and> 0 < VotingPower v)
     \<and> sum_powers valz \<le> MaxTotalVotingPower"

lemma split_changes_ok:
  "\<lbrakk>addr_sorted cs; cs \<noteq> [] \<longrightarrow> Address (hd cs) \<noteq> prev; \<forall>c \<in> set cs. 0 \<le> VotingPower c \<and> VotingPower c \<le> MaxTotalVotingPower\<rbrakk>
   \<Longrightarrow> \<exists>us' rs'. split_changes prev cs us rs = Inr (us', rs')"
proof (induction prev cs us rs rule: split_changes.induct)
  case (2 prev c cs us rs)
  have "cs \<noteq> [] \<longrightarrow> Address (hd cs) \<noteq> Address c" using "2.prems"(1) by (cases cs) auto
  then show ?case using 2 by (auto simp: not_less)
qed simp

lemma add_deltas_new:
  assumes "\<forall>u \<in> set us. delta vals u = VotingPower u \<and> 0 < VotingPower u \<and> VotingPower u \<le> MaxTotalVotingPower"
    and "0 \<le> acc" and "acc \<le> MaxTotalVotingPower"
  shows "add_deltas vals acc us = (if acc + sum_powers us \<le> MaxTotalVotingPower then Some (acc + sum_powers us) else None)"
  using assms
proof (induction us arbitrary: acc)
  case (Cons u us)
  have u: "delta vals u = VotingPower u" "0 < VotingPower u" "VotingPower u \<le> MaxTotalVotingPower" using Cons.prems(1) by auto
  have "wrap64 (acc + VotingPower u) = acc + VotingPower u"
    using u Cons.prems(2,3) by (intro wrap64_id) (auto simp: in64_def max_power)
  moreover have "0 \<le> sum_powers us" using Cons.prems(1) by (intro sum_powers_nonneg) auto
  ultimately show ?case using Cons.IH [of "acc + VotingPower u"] Cons.prems u by (simp add: Let_def sum_powers_def add.assoc)
qed (simp add: sum_powers_def)

lemma delta_empty: "delta empty_valset u = VotingPower u"
  by (simp add: delta_def GetByAddress_map empty_valset_def)

lemma verifyUpdates_empty:
  assumes "\<forall>u \<in> set us. 0 < VotingPower u \<and> VotingPower u \<le> MaxTotalVotingPower"
  shows "verifyUpdates us empty_valset 0 = Ret (empty_valset,
    if sum_powers us \<le> MaxTotalVotingPower then Inr (sum_powers us) else Inl ErrTotalVotingPowerOverflow)"
proof -
  let ?us = "sort_by (\<lambda>a b. delta empty_valset a < delta empty_valset b) us"
  have sum: "sum_powers ?us = sum_powers us" by (simp add: sum_powers_def)
  have "add_deltas empty_valset 0 ?us = (if sum_powers us \<le> MaxTotalVotingPower then Some (sum_powers us) else None)"
    using add_deltas_new [of ?us empty_valset 0] assms sum by (simp add: delta_empty max_power)
  moreover have "wrap64 (sum_powers us) = sum_powers us" if "sum_powers us \<le> MaxTotalVotingPower"
    using that sum_powers_nonneg [of us] assms by (intro wrap64_id) (auto simp: in64_def max_power)
  moreover have "TotalVotingPower empty_valset = Ret (empty_valset, 0)" "wrap64 0 = 0"
    using TotalVotingPower_wf [OF wf_empty] by (simp_all add: empty_valset_def sum_powers_def wrap64_def)
  ultimately show ?thesis by (simp add: verifyUpdates_def)
qed

lemma valid_start_bound:
  assumes "valid_start valz" and "v \<in> set valz"
  shows "VotingPower v \<le> MaxTotalVotingPower"
proof -
  have "VotingPower v \<le> sum_powers valz"
    unfolding sum_powers_def using assms by (intro sum_list_member_le) (auto simp: valid_start_def intro: less_imp_le)
  then show ?thesis using assms(1) by (simp add: valid_start_def)
qed

lemma processChanges_start:
  assumes "valid_start valz"
  shows "processChanges valz = Inr (sort_by ValidatorsByAddress valz, [])"
proof -
  let ?cs = "sort_by ValidatorsByAddress valz"
  have srt: "addr_sorted ?cs" using by_address.sort_by_strict assms by (auto simp: valid_start_def)
  have nz: "\<forall>c \<in> set ?cs. Address c \<noteq> [] \<and> 0 < VotingPower c \<and> VotingPower c \<le> MaxTotalVotingPower"
    using assms valid_start_bound [OF assms] by (auto simp: valid_start_def)
  have "Address (hd ?cs) \<noteq> []" if "?cs \<noteq> []" using nz hd_in_set [OF that] by blast
  then obtain us rs where sc: "split_changes [] ?cs [] [] = Inr (us, rs)"
    using split_changes_ok [OF srt, of "[]" "[]" "[]"] nz by (auto intro: less_imp_le)
  have "us = filter (\<lambda>c. VotingPower c \<noteq> 0) ?cs" "rs = filter (\<lambda>c. VotingPower c = 0) ?cs"
    using split_changes_Inr [OF sc by_address.sorted_sort_by] by simp_all
  moreover have "filter (\<lambda>c. VotingPower c \<noteq> 0) ?cs = ?cs" "filter (\<lambda>c. VotingPower c = 0) ?cs = []"
    using nz by (fastforce intro!: filter_True filter_False)+
  ultimately show ?thesis using sc by (simp add: processChanges_def)
qed

lemma static_computeNewPriorities: "static (computeNewPriorities us vals t) = static us"
  by (auto simp: static_def computeNewPriorities_def split: option.splits)

lemma NewValidatorSet_returns:
  assumes "valid_start valz" and "valz \<noteq> []"
  shows "\<exists>vals. NewValidatorSet valz = Ret vals \<and> wf_vals vals \<and> mset (static (Validators vals)) = mset (static valz)"
proof -
  let ?cs = "sort_by ValidatorsByAddress valz"
  let ?us = "computeNewPriorities ?cs empty_valset (sum_powers ?cs)"
  note br = updateWithChangeSet_branches [OF assms(2) processChanges_start [OF assms(1)]]
  have pos: "\<forall>c \<in> set ?cs. 0 < VotingPower c \<and> VotingPower c \<le> MaxTotalVotingPower"
    using assms(1) valid_start_bound [OF assms(1)] by (auto simp: valid_start_def)
  have sum: "sum_powers ?cs = sum_powers valz" "sum_powers ?us = sum_powers valz" "sum_powers valz \<le> MaxTotalVotingPower" "0 \<le> sum_powers valz"
    using assms(1) sum_powers_nonneg [of valz] sum_powers_computeNewPriorities [of ?cs]
    by (auto simp: sum_powers_def valid_start_def)
  have new: "\<not> (numNewValidators ?cs empty_valset = 0 \<and> length (Validators empty_valset) = length ([] :: Validator list))"
    using assms(2) by (simp add: numNewValidators_def HasAddress_def empty_valset_def)
  have rem: "verifyRemovals [] empty_valset = Ret (Inr 0)" by (simp add: verifyRemovals_def)
  have upd: "verifyUpdates ?cs empty_valset 0 = Ret (empty_valset, Inr (sum_powers ?cs))"
    using verifyUpdates_empty [OF pos] sum by simp
  have "merge_updates [] us = us" for us by (cases us) simp_all
  then have app: "applyRemovals (applyUpdates empty_valset ?us) [] = Ret (empty_valset\<lparr>Validators := ?us\<rparr>)"
    by (simp add: applyRemovals_def applyUpdates_def empty_valset_def)
  have us: "distinct (map Address ?us)" using assms(1) by (simp add: valid_start_def computeNewPriorities_same)
  have "?cs \<noteq> []" using assms(2) by (metis set_sort_by set_empty)
  then have ne: "?us \<noteq> []" by (simp add: computeNewPriorities_def)
  have upos: "\<forall>v \<in> set ?us. 0 < VotingPower v" using static_pos [OF static_computeNewPriorities, of ?cs] pos by simp
  have "within prio_bound ?us" by (rule computeNewPriorities_within) (use sum in \<open>simp_all add: within_def empty_valset_def max_power\<close>)
  then obtain vals' where "finish (empty_valset\<lparr>Validators := ?us\<rparr>) = Ret (vals', None)" "wf_vals vals'"
      "mset (static (Validators vals')) = mset (static ?us)"
    using finish_update [OF ne us upos, of empty_valset] sum by metis
  moreover have "mset (static ?us) = mset (static valz)"
    unfolding static_computeNewPriorities by (simp add: static_def)
  ultimately show ?thesis using br(5) [OF _ new rem upd app, of False] by (simp add: NewValidatorSet_def)
qed

lemma NewValidatorSet_valid:
  assumes "NewValidatorSet valz = Ret vals" and ne: "valz \<noteq> []"
  shows "valid_start valz"
proof -
  obtain us ds where pc: "processChanges valz = Inr (us, ds)"
    using assms by (cases "processChanges valz") (auto simp: NewValidatorSet_def updateWithChangeSet_def)
  note d = processChanges_Inr [OF pc] and br = updateWithChangeSet_branches [OF ne pc, of False empty_valset]
  have no_err: "updateWithChangeSet empty_valset valz False \<noteq> Ret (v, Some err)" for v err
    using assms by (auto simp: NewValidatorSet_def)
  have ds: "ds = []" using br(1) no_err by auto
  then have pos: "\<forall>v \<in> set valz. 0 < VotingPower v" and us: "set us = set valz" using d(4-6) by auto
  have new: "\<not> (numNewValidators us empty_valset = 0 \<and> length (Validators empty_valset) = length ds)" using br(2) ds no_err by auto
  have rem: "verifyRemovals ds empty_valset = Ret (Inr 0)" by (simp add: verifyRemovals_def ds)
  have "sum_powers us \<le> MaxTotalVotingPower"
    using br(4) [OF _ new rem] verifyUpdates_empty [OF d(6)] ds no_err by (auto split: if_splits)
  moreover have "mset us = mset valz"
    using us d(3) addr_sorted_distinct [OF d(1)] by (simp add: set_eq_iff_mset_eq_distinct distinct_map)
  then have "sum_powers us = sum_powers valz" unfolding sum_powers_def by (metis mset_map sum_mset_sum_list)
  moreover have "Address v \<noteq> []" if v: "v \<in> set valz" for v
  proof -
    let ?cs = "sort_by ValidatorsByAddress valz"
    have cs: "Address (hd ?cs) \<noteq> []" "addr_sorted ?cs"
      using split_changes_Inr [OF pc [unfolded processChanges_def] by_address.sorted_sort_by] ne
      by (auto dest: arg_cong [where f = length])
    obtain c cs' where "?cs = c # cs'" using v by (cases ?cs) (auto dest: arg_cong [where f = length])
    moreover from this have "v = c \<or> v \<in> set cs'" using v set_sort_by [of ValidatorsByAddress valz] by auto
    ultimately show ?thesis using cs by (auto simp: addr_sorted_Cons)
  qed
  ultimately show ?thesis using pos d(3) by (simp add: valid_start_def)
qed

section \<open>Incrementing and selecting on a well-formed set\<close>

lemma static_sorted:
  assumes "static vs = static ws"
  shows "map (\<lambda>v. (- VotingPower v, Address v)) vs = map (\<lambda>v. (- VotingPower v, Address v)) ws"
proof -
  have "map (\<lambda>v. (- VotingPower v, Address v)) (static vs) = map (\<lambda>v. (- VotingPower v, Address v)) vs" for vs
    by (simp add: static_def)
  then show ?thesis using assms by metis
qed

lemma IncrementProposerPriority_wf:
  assumes wf: "wf_vals vals" and ne: "Validators vals \<noteq> []"
  obtains vals' where "IncrementProposerPriority vals 1 = Ret vals'" and "wf_vals vals'"
    and "static (Validators vals') = static (Validators vals)"
    and "0 \<le> sum_priorities (Validators vals')"
    and "sum_priorities (Validators vals') < int (length (Validators vals'))"
proof -
  have total: "power_total vals = sum_powers (Validators vals)" by (simp add: power_total_def sum_powers_def)
  have P: "sum_powers (Validators vals) \<le> MaxTotalVotingPower" using wf by (simp add: wf_vals_def)
  obtain vs where vs: "IncrementProposerPriority vals 1 = Ret (vals\<lparr>Validators := vs\<rparr>)"
      "static vs = static (Validators vals)" "within ((2 + 1) * power_total vals) vs"
      "0 \<le> sum_priorities vs" "sum_priorities vs < int (length vs)"
    using IncrementProposerPriority_spec [of vals 1] wf ne total P
    by (auto simp: wf_vals_def prio_bound_def max_power)
  have "within prio_bound vs" using vs(3) total P unfolding within_def prio_bound_def by fastforce
  then have "wf_vals (vals\<lparr>Validators := vs\<rparr>)"
    using wf static_eqD [OF vs(2)] static_pos [OF vs(2)] static_sorted [OF vs(2)]
    by (simp add: wf_vals_def sum_powers_def)
  then show thesis using that vs by simp
qed

lemma candidate_total:
  assumes "\<forall>v \<in> set vs. 0 < VotingPower v" and "sum_powers vs \<le> MaxTotalVotingPower"
  shows "total_priority candidate_priority vs = unat (word_of_int (sum_powers vs) :: uint64)"
proof -
  have nn: "0 \<le> sum_powers vs" using sum_powers_nonneg [OF assms(1)] .
  have unat_of: "unat (word_of_int i :: uint64) = nat i" if "0 \<le> i" "i \<le> MaxTotalVotingPower" for i
  proof -
    have "uint (word_of_int i :: uint64) = i"
      using that by (simp add: uint_word_of_int_eq take_bit_int_eq_self_iff max_power)
    then show ?thesis by (simp add: unat_eq_nat_uint)
  qed
  have one: "unat (candidate_priority v) = nat (VotingPower v)" if "v \<in> set vs" for v
  proof -
    have "VotingPower v \<le> sum_powers vs"
      unfolding sum_powers_def using assms(1) that by (intro sum_list_member_le) (auto intro: less_imp_le)
    then show ?thesis using unat_of [of "VotingPower v"] assms that by (force simp: candidate_priority_def)
  qed
  have "int (sum_list (map (\<lambda>v. nat (VotingPower v)) ws)) = sum_powers ws" if "set ws \<subseteq> set vs" for ws
    using that assms(1) by (induction ws) (auto simp: sum_powers_def)
  from this [of vs] have "sum_list (map (\<lambda>v. nat (VotingPower v)) vs) = nat (sum_powers vs)" by simp
  moreover have "map (\<lambda>v. unat (candidate_priority v)) vs = map (\<lambda>v. nat (VotingPower v)) vs" using one by simp
  ultimately show ?thesis using unat_of [OF nn assms(2)] by (simp only: total_priority_def)
qed

lemma SelectProposer_spec:
  assumes wf: "wf_vals vals" and ne: "Validators vals \<noteq> []"
  obtains v where "SelectProposer H vals proofHash height rnd = Ret (vals, v)" and "v \<in> set (Validators vals)"
proof -
  let ?P = "sum_powers (Validators vals)"
  have pos: "\<forall>v \<in> set (Validators vals). 0 < VotingPower v" and P: "?P \<le> MaxTotalVotingPower"
    using wf by (auto simp: wf_vals_def)
  note tot = candidate_total [OF pos P]
  have "0 < ?P" using ne pos sum_powers_nonneg [of "tl (Validators vals)"]
    by (cases "Validators vals") (auto simp: sum_powers_def)
  then have "uint (word_of_int ?P :: uint64) = ?P"
    using P by (simp add: uint_word_of_int_eq take_bit_int_eq_self_iff max_power)
  then have "0 < (word_of_int ?P :: uint64)" using \<open>0 < ?P\<close> by (simp add: word_less_def)
  from RandomSampling_samples [OF this tot, of 1 "hashToSeed (MakeRoundHash H proofHash height rnd)"]
  obtain samples where s: "RandomSamplingWithPriority candidate_priority
        (hashToSeed (MakeRoundHash H proofHash height rnd)) (Validators vals) 1 (word_of_int ?P) = Ret samples"
      "length samples = 1" "\<forall>s \<in> set samples. s \<in> set (Validators vals)"
    by auto
  have "SelectProposer H vals proofHash height rnd = Ret (vals, samples ! 0)"
    using ne TotalVotingPower_wf [OF wf] s(1,2) by (simp add: SelectProposer_def Let_def index_in)
  moreover have "samples ! 0 \<in> set (Validators vals)" using s(2,3) by simp
  ultimately show thesis using that by blast
qed

section \<open>Properties\<close>

definition ex_val :: "byte \<Rightarrow> int64 \<Rightarrow> Validator" where
  "ex_val a p = \<lparr>Address = [a], PubKey = Some (PubKeyEd25519 []), VotingPower = p, VotingWeight = 0, ProposerPriority = 0\<rparr>"

definition ex_vals :: ValidatorSet where
  "ex_vals = \<lparr>Validators = [ex_val 2 30, ex_val 1 10], totalVotingPower = 40\<rparr>"

lemma ex_vals_wf: "wf_vals ex_vals" "Validators ex_vals \<noteq> []"
  by (simp_all add: wf_vals_def ex_vals_def ex_val_def sum_powers_def within_def prio_bound_def max_power)

text \<open>
  C1. Updates refine a map: on a well-formed validator set \<^verbatim>\<open>UpdateWithChangeSet\<close> never panics. On an error
  the set is unchanged. Otherwise the new set is well formed (distinct addresses, positive powers, a
  total within the maximum, the cache equal to the sum, sorted by power) and its map from addresses to
  powers is the old one with every non-zero change written and every zero change deleted; the
  priorities are centred around zero and within twice the total power.
\<close>

theorem UpdateWithChangeSet_refines:
  assumes "wf_vals vals"
  shows "\<exists>vals' err. UpdateWithChangeSet vals changes = Ret (vals', err) \<and> update_spec vals changes vals' err"
  using updateWithChangeSet_spec [OF assms, of changes True] unfolding UpdateWithChangeSet_def by blast

theorem UpdateWithChangeSet_refines_witness:
  "\<exists>vals' err. UpdateWithChangeSet ex_vals [ex_val 1 0, ex_val 3 5] = Ret (vals', err)
     \<and> update_spec ex_vals [ex_val 1 0, ex_val 3 5] vals' err"
  using UpdateWithChangeSet_refines [OF ex_vals_wf(1)] .

text \<open>
  C35. When a new validator set can be made: \<^verbatim>\<open>NewValidatorSet\<close> returns exactly when the given validators have distinct
  and non-empty addresses, positive powers and a total power within the maximum, and panics otherwise. The set it returns
  satisfies the invariant and has the given validators, in another order and with other priorities, but with every other
  field unchanged and none dropped or added.
\<close>

theorem NewValidatorSet_exact:
  "case NewValidatorSet valz of
     None \<Rightarrow> \<not> valid_start valz
   | Some vals \<Rightarrow> valid_start valz \<and> wf_vals vals \<and> mset (static (Validators vals)) = mset (static valz)"
proof (cases "valz = []")
  case True
  have "NewValidatorSet [] = Ret empty_valset" by (simp add: NewValidatorSet_def updateWithChangeSet_def)
  moreover have "valid_start []" by (simp add: valid_start_def sum_powers_def max_power)
  ultimately show ?thesis using True wf_empty by (simp add: empty_valset_def)
next
  case False
  then show ?thesis using NewValidatorSet_returns NewValidatorSet_valid by (fastforce split: option.splits)
qed

theorem NewValidatorSet_exact_witness:
  "NewValidatorSet [ex_val 1 10, ex_val 2 0] = Panic \<and> (\<exists>vals. NewValidatorSet [ex_val 1 10, ex_val 2 30] = Ret vals \<and> wf_vals vals)"
proof -
  have "\<not> valid_start [ex_val 1 10, ex_val 2 0]" "valid_start [ex_val 1 10, ex_val 2 30]"
    by (simp_all add: valid_start_def ex_val_def sum_powers_def max_power)
  then show ?thesis
    using NewValidatorSet_exact [of "[ex_val 1 10, ex_val 2 0]"] NewValidatorSet_exact [of "[ex_val 1 10, ex_val 2 30]"]
    by (auto split: option.splits)
qed

text \<open>
  C30. Incrementing priorities never clips: on a well-formed non-empty set \<^verbatim>\<open>IncrementProposerPriority(1)\<close>
  returns, keeps the invariant with its bound on the priorities, changes nothing but priorities, and
  leaves a sum of priorities between zero and the number of validators.
\<close>

theorem IncrementProposerPriority_invariant:
  assumes "wf_vals vals" and "Validators vals \<noteq> []"
  shows "\<exists>vals'. IncrementProposerPriority vals 1 = Ret vals' \<and> wf_vals vals'
    \<and> static (Validators vals') = static (Validators vals)
    \<and> 0 \<le> sum_priorities (Validators vals')
    \<and> sum_priorities (Validators vals') < int (length (Validators vals'))"
  using IncrementProposerPriority_wf [OF assms] by metis

theorem IncrementProposerPriority_invariant_witness:
  "\<exists>vals'. IncrementProposerPriority ex_vals 1 = Ret vals' \<and> wf_vals vals'"
  using IncrementProposerPriority_invariant [OF ex_vals_wf] by blast

text \<open>
  C34. A proposer is always found: on a well-formed non-empty validator set, for every hash function,
  proof hash, height and round, \<^verbatim>\<open>SelectProposer\<close> returns a validator of the set without panicking.
\<close>

theorem SelectProposer_total:
  assumes "wf_vals vals" and "Validators vals \<noteq> []"
  shows "\<exists>v. SelectProposer H vals proofHash height rnd = Ret (vals, v) \<and> v \<in> set (Validators vals)"
  using SelectProposer_spec [OF assms] by metis

theorem SelectProposer_total_witness:
  "\<exists>v. SelectProposer pad_hash ex_vals [7] 5 0 = Ret (ex_vals, v) \<and> v \<in> set (Validators ex_vals)"
  using SelectProposer_total [OF ex_vals_wf] .

end
