(* ===== verification/Voter_Set.thy ===== *)
theory Voter_Set
  imports Complex_Main Validator_Update
begin

text \<open>
  Voter sets and the election of voters (\<^verbatim>\<open>types/voter_set.go\<close>). The voters of a round are drawn without
  replacement, with a probability proportional to their voting power, until the coalition that
  could be Byzantine holds less than a third of the voting weight.

  The pointers shared between the candidates and the elected voters are only written through in the
  field \<^verbatim>\<open>VotingWeight\<close>, which the loop reads from the voters and overwrites in the candidates before
  it returns them: both are values here.
\<close>

section \<open>Voter sets\<close>

record VoterSet =
  Voters :: "Validator list"
  totalVotingWeight :: int64

fun sum_weight :: "int64 \<Rightarrow> Validator list \<Rightarrow> int64 go" where
  "sum_weight acc [] = Ret acc"
| "sum_weight acc (v # vs) =
     (let acc' = safeAddClip acc (VotingWeight v) in
      if acc' > MaxTotalVotingWeight then Panic else sum_weight acc' vs)"

definition updateTotalVotingWeight :: "VoterSet \<Rightarrow> VoterSet go" where
  "updateTotalVotingWeight voters =
     do {
       s \<leftarrow> sum_weight 0 (Voters voters);
       Ret (voters\<lparr>totalVotingWeight := s\<rparr>)
     }"

definition TotalVotingWeight :: "VoterSet \<Rightarrow> (VoterSet \<times> int64) go" where
  "TotalVotingWeight voters =
     do {
       voters' \<leftarrow> (if totalVotingWeight voters = 0 then updateTotalVotingWeight voters else Ret voters);
       Ret (voters', totalVotingWeight voters')
     }"

definition WrapValidatorsToVoterSet :: "Validator list \<Rightarrow> VoterSet go" where
  "WrapValidatorsToVoterSet vals =
     updateTotalVotingWeight \<lparr>Voters = sort_by ValidatorsByVotingPower vals, totalVotingWeight = 0\<rparr>"

definition VoterSet_IsNilOrEmpty :: "VoterSet option \<Rightarrow> bool" where
  "VoterSet_IsNilOrEmpty voters = (case voters of None \<Rightarrow> True | Some vs \<Rightarrow> length (Voters vs) = 0)"

definition VoterSet_ValidateBasic :: "VoterSet option \<Rightarrow> valset_error option" where
  "VoterSet_ValidateBasic voters =
     (if VoterSet_IsNilOrEmpty voters then Some NilOrEmptySet
      else (case voters of None \<Rightarrow> None | Some vs \<Rightarrow> validate_each 0 (Voters vs)))"

definition VoterSet_HasAddress :: "VoterSet \<Rightarrow> bytes \<Rightarrow> bool" where
  "VoterSet_HasAddress voters addr \<longleftrightarrow> list_ex (\<lambda>v. Address v = addr) (Voters voters)"

definition VoterSet_GetByAddress :: "VoterSet \<Rightarrow> bytes \<Rightarrow> int32 \<times> Validator option" where
  "VoterSet_GetByAddress voters addr = find_address 0 (Voters voters) addr"

text \<open>The address is \<^verbatim>\<open>nil\<close> out of range.\<close>

definition VoterSet_GetByIndex :: "VoterSet \<Rightarrow> int32 \<Rightarrow> bytes option \<times> Validator option" where
  "VoterSet_GetByIndex voters i =
     (if i < 0 \<or> i \<ge> int (length (Voters voters)) then (None, None)
      else let v = Voters voters ! nat i in (Some (Address v), Some v))"

definition VoterSet_Size :: "VoterSet \<Rightarrow> int" where
  "VoterSet_Size voters = int (length (Voters voters))"

definition VoterSet_Copy :: "VoterSet option \<Rightarrow> VoterSet option" where
  "VoterSet_Copy voters = map_option
     (\<lambda>vs. \<lparr>Voters = Voters vs, totalVotingWeight = totalVotingWeight vs\<rparr>) voters"

definition VoterSet_Hash ::
  "hashfn \<Rightarrow> (SimpleValidatorPB \<Rightarrow> bytes) \<Rightarrow> VoterSet \<Rightarrow> bytes option go" where
  "VoterSet_Hash H marshal voters =
     (if length (Voters voters) = 0 then Ret None
      else
        do {
          bzs \<leftarrow> map_go (Validator_Bytes marshal) (Voters voters);
          Ret (Some (HashFromByteSlices H bzs))
        })"

record VoterSetPB =
  vtp_Voters :: "ValidatorPB list"
  vtp_TotalVotingWeight :: int64

definition VoterSet_ToProto :: "VoterSet option \<Rightarrow> codec_error + VoterSetPB" where
  "VoterSet_ToProto voters =
     (case voters of
        None \<Rightarrow> Inr \<lparr>vtp_Voters = [], vtp_TotalVotingWeight = 0\<rparr>
      | Some vs \<Rightarrow>
          if length (Voters vs) = 0 then Inr \<lparr>vtp_Voters = [], vtp_TotalVotingWeight = 0\<rparr>
          else (case validators_ToProto (Voters vs) of
              Inl err \<Rightarrow> Inl err
            | Inr vps \<Rightarrow> Inr \<lparr>vtp_Voters = vps, vtp_TotalVotingWeight = totalVotingWeight vs\<rparr>))"

definition VoterSetFromProto :: "VoterSetPB option \<Rightarrow> (VoterSet option \<times> valset_error option) go" where
  "VoterSetFromProto pb = (case pb of
       None \<Rightarrow> Ret (None, Some NilOrEmptySet)
     | Some vp \<Rightarrow>
         do {
           r \<leftarrow> validators_FromProto (vtp_Voters vp);
           (case r of
              Inl err \<Rightarrow> Ret (None, Some (CodecError err))
            | Inr vs \<Rightarrow>
                let voters = \<lparr>Voters = vs, totalVotingWeight = vtp_TotalVotingWeight vp\<rparr>
                in Ret (Some voters, VoterSet_ValidateBasic (Some voters)))
         })"

section \<open>The election\<close>

record voter =
  voter_val :: Validator
  winPoint :: int

definition precisionForSelection :: int64 where
  "precisionForSelection = 1000"

definition precisionCorrectionForSelection :: int64 where
  "precisionCorrectionForSelection = 1000"

definition BftMaxTolerableByzantinePercentage :: int where
  "BftMaxTolerableByzantinePercentage = 33"

text \<open>\<^verbatim>\<open>big.Int.Div\<close> is the Euclidean quotient and panics on a zero divisor.\<close>

definition big_Div :: "int \<Rightarrow> int \<Rightarrow> int go" where
  "big_Div a b = (if b = 0 then Panic else Ret (sgn b * (a div \<bar>b\<bar>)))"

definition getTotalVotingPower :: "Validator list \<Rightarrow> int64" where
  "getTotalVotingPower vs = foldl (\<lambda>s v. wrap64 (s + VotingPower v)) 0 vs"

definition getTolerableByzantinePower :: "int64 \<Rightarrow> int \<Rightarrow> int64" where
  "getTolerableByzantinePower tvp percent =
     (let multiplied = tvp * percent;
          q = multiplied div 100
      in wrap64 (if q * 100 < multiplied then q + 1 else q))"

definition validator_less :: "Validator \<Rightarrow> Validator \<Rightarrow> bool" where
  "validator_less a b =
     (if VotingPower a = VotingPower b then Address a < Address b else VotingPower a > VotingPower b)"

definition sortValidators :: "Validator list \<Rightarrow> Validator list" where
  "sortValidators = sort_by validator_less"

definition voter_less :: "voter \<Rightarrow> voter \<Rightarrow> bool" where
  "voter_less a b =
     (let bigA = VotingWeight (voter_val a) * VotingPower (voter_val b);
          bigB = VotingWeight (voter_val b) * VotingPower (voter_val a)
      in if bigA = bigB then Address (voter_val a) < Address (voter_val b) else bigA > bigB)"

definition sortVoters :: "voter list \<Rightarrow> voter list" where
  "sortVoters = sort_by voter_less"

definition moveWinnerToLast :: "Validator list \<Rightarrow> nat \<Rightarrow> Validator list go" where
  "moveWinnerToLast candidates winner =
     (if winner < length candidates
      then Ret (take winner candidates @ drop (Suc winner) candidates @ [candidates ! winner])
      else Panic)"

fun top_byzantine :: "int64 \<Rightarrow> int64 \<Rightarrow> int64 \<Rightarrow> voter list \<Rightarrow> int64" where
  "top_byzantine tol pw wt [] = wt"
| "top_byzantine tol pw wt (v # vs) =
     (let pw' = wrap64 (pw + VotingPower (voter_val v));
          wt' = wrap64 (wt + VotingWeight (voter_val v))
      in if pw < tol \<and> pw' \<ge> tol then wt' else top_byzantine tol pw' wt' vs)"

definition getTopByzantineVotingWeight :: "voter list \<Rightarrow> int64 \<Rightarrow> int64" where
  "getTopByzantineVotingWeight voters tol = top_byzantine tol 0 0 voters"

fun elect_search :: "uint64 \<Rightarrow> nat \<Rightarrow> int64 \<Rightarrow> Validator list \<Rightarrow> (nat \<times> Validator) option" where
  "elect_search threshold i cumulative [] = None"
| "elect_search threshold i cumulative (c # cs) =
     (if threshold < word_of_int (wrap64 (cumulative + VotingPower c)) then Some (i, c)
      else elect_search threshold (Suc i) (wrap64 (cumulative + VotingPower c)) cs)"

definition electVoter ::
  "uint64 \<Rightarrow> Validator list \<Rightarrow> nat \<Rightarrow> int64 \<Rightarrow> (uint64 \<times> nat \<times> Validator) go" where
  "electVoter seed candidates voterNum totalPriority =
     (let (seed', threshold) = RandomThreshold seed (word_of_int totalPriority) in
      if voterNum > length candidates then Panic
      else (case elect_search threshold 0 0 (take (length candidates - voterNum) candidates) of
          None \<Rightarrow> Panic
        | Some (winnerIdx, winner) \<Rightarrow> Ret (seed', winnerIdx, winner)))"

text \<open>The loop that counts the validators without power runs off the front when no validator has any.\<close>

fun count_zero :: "Validator list \<Rightarrow> nat go" where
  "count_zero [] = Panic"
| "count_zero (v # rest) =
     (if VotingPower v = 0 then do { n \<leftarrow> count_zero rest; Ret (Suc n) } else Ret 0)"

definition accumulateWinPoints :: "int64 \<Rightarrow> voter list \<Rightarrow> voter list go" where
  "accumulateWinPoints losersVotingPower =
     map_go (\<lambda>v. do {
       additional \<leftarrow> big_Div (VotingPower (voter_val v) * precisionForSelection)
         (losersVotingPower + VotingPower (voter_val v));
       Ret (v\<lparr>winPoint := winPoint v + additional\<rparr>)
     })"

definition set_weight :: "int64 \<Rightarrow> int \<Rightarrow> voter \<Rightarrow> voter go" where
  "set_weight tvp totalWinPoint v =
     do {
       bigVotingWeight \<leftarrow> big_Div (winPoint v * precisionForSelection * tvp) totalWinPoint;
       q \<leftarrow> big_Div bigVotingWeight precisionCorrectionForSelection;
       Ret (v\<lparr>voter_val := (voter_val v)\<lparr>VotingWeight := wrap64 q\<rparr>\<rparr>)
     }"

definition calculateVotingWeight :: "int64 \<Rightarrow> voter list \<Rightarrow> (voter list \<times> int64) go" where
  "calculateVotingWeight tvp voters =
     do {
       voters' \<leftarrow> map_go (set_weight tvp (sum_list (map winPoint voters))) voters;
       Ret (voters', foldl (\<lambda>s v. wrap64 (s + VotingWeight (voter_val v))) 0 voters')
     }"

lemma elect_search_bound: "elect_search t i c cs = Some (j, w) \<Longrightarrow> i \<le> j \<and> j < i + length cs \<and> w = cs ! (j - i)"
proof (induction cs arbitrary: i c)
  case (Cons v cs)
  show ?case
  proof (cases "t < word_of_int (wrap64 (c + VotingPower v))")
    case False
    then have "elect_search t (Suc i) (wrap64 (c + VotingPower v)) cs = Some (j, w)" using Cons.prems by simp
    from Cons.IH [OF this] show ?thesis by (auto simp: Suc_diff_le nth_Cons')
  qed (use Cons.prems in auto)
qed simp

lemma electVoter_bound:
  "electVoter seed cands k p = Some (seed', i, w) \<Longrightarrow> k < length cands \<and> i < length cands - k \<and> w = cands ! i"
  by (auto simp: electVoter_def Let_def split: prod.splits if_splits option.splits dest: elect_search_bound)

lemma calculateVotingWeight_length:
  "calculateVotingWeight tvp vs = Some (vs', w) \<Longrightarrow> length vs' = length vs"
  by (auto simp: calculateVotingWeight_def map_go_length split: bind_splits)

lemma moveWinnerToLast_length: "moveWinnerToLast cs i = Some cs' \<Longrightarrow> length cs' = length cs"
  by (auto simp: moveWinnerToLast_def split: if_splits)

lemma accumulateWinPoints_length: "accumulateWinPoints p vs = Some vs' \<Longrightarrow> length vs' = length vs"
  unfolding accumulateWinPoints_def by (rule map_go_length)

text \<open>
  One pass of the loop: it ends with the voters elected so far, with all candidates, or goes on with
  a new seed, the reordered candidates, the voters and the power of the losers.
\<close>

datatype pass =
    Elected "Validator list"
  | NextPass uint64 "Validator list" "voter list" int64

definition elect_pass ::
  "int64 \<Rightarrow> int64 \<Rightarrow> nat \<Rightarrow> int \<Rightarrow> uint64 \<Rightarrow> Validator list \<Rightarrow> voter list \<Rightarrow> int64 \<Rightarrow> pass go" where
  "elect_pass tvp tol zeroValidators minVoters seed candidates voters losersVotingPower =
     do {
       voters \<leftarrow> accumulateWinPoints losersVotingPower voters;
       (seed, winnerIdx, winner) \<leftarrow>
         electVoter seed candidates (length voters + zeroValidators) losersVotingPower;
       candidates \<leftarrow> moveWinnerToLast candidates winnerIdx;
       let voters = voters @ [\<lparr>voter_val = winner, winPoint = precisionForSelection\<rparr>];
       let losersVotingPower = wrap64 (losersVotingPower - VotingPower winner);
       (voters, tvw) \<leftarrow> calculateVotingWeight tvp voters;
       let enough = minVoters \<le> int (length voters);
       let voters = (if enough then sortVoters voters else voters);
       if enough \<and> getTopByzantineVotingWeight voters tol < tvw sdiv 3
       then Ret (Elected (map voter_val voters))
       else if length voters + zeroValidators = length candidates
       then Ret (Elected (map (\<lambda>c. c\<lparr>VotingWeight := VotingPower c\<rparr>) candidates))
       else Ret (NextPass seed candidates voters losersVotingPower)
     }"

lemma elect_pass_progress:
  "elect_pass tvp tol z m seed cands voters losers = Some (NextPass seed' cands' voters' losers')
    \<Longrightarrow> length cands' = length cands \<and> length voters' = Suc (length voters) \<and> length voters < length cands"
  unfolding elect_pass_def Let_def
  by (auto split: bind_splits if_splits prod.splits simp: sortVoters_def
      dest!: accumulateWinPoints_length calculateVotingWeight_length moveWinnerToLast_length electVoter_bound)

function elect_loop ::
  "int64 \<Rightarrow> int64 \<Rightarrow> nat \<Rightarrow> int \<Rightarrow> uint64 \<Rightarrow> Validator list \<Rightarrow> voter list \<Rightarrow> int64 \<Rightarrow> Validator list go" where
  "elect_loop tvp tol z m seed cands voters losers =
     (case elect_pass tvp tol z m seed cands voters losers of
        None \<Rightarrow> Panic
      | Some (Elected vals) \<Rightarrow> Ret vals
      | Some (NextPass seed' cands' voters' losers') \<Rightarrow> elect_loop tvp tol z m seed' cands' voters' losers')"
  by pat_completeness auto
termination
  by (relation "measure (\<lambda>(tvp, tol, z, m, seed, cands, voters, losers). length cands - length voters)")
    (auto dest!: elect_pass_progress)

declare elect_loop.simps [simp del]

definition electVotersNonDup :: "Validator list \<Rightarrow> uint64 \<Rightarrow> int \<Rightarrow> int \<Rightarrow> Validator list go" where
  "electVotersNonDup validators seed tolerableByzantinePercent minVoters =
     (if tolerableByzantinePercent \<ge> BftMaxTolerableByzantinePercentage then Panic
      else
        let tvp = getTotalVotingPower validators;
            tol = getTolerableByzantinePower tvp tolerableByzantinePercent;
            candidates = sortValidators validators
        in do {
          zeroValidators \<leftarrow> count_zero (rev candidates);
          elect_loop tvp tol zeroValidators minVoters seed candidates [] tvp
        })"

definition ToVoterAll :: "Validator list \<Rightarrow> VoterSet go" where
  "ToVoterAll validators = WrapValidatorsToVoterSet
     (map (\<lambda>v. v\<lparr>VotingWeight := VotingPower v\<rparr>) (filter (\<lambda>v. VotingPower v \<noteq> 0) validators))"

record VoterParams =
  VoterElectionThreshold :: int32
  MaxTolerableByzantinePercentage :: int32

definition SelectVoter :: "ValidatorSet \<Rightarrow> bytes \<Rightarrow> VoterParams \<Rightarrow> VoterSet go" where
  "SelectVoter validators proofHash voterParams =
     (if length proofHash = 0
        \<or> ValidatorSet_Size validators \<le> VoterElectionThreshold voterParams
        \<or> MaxTolerableByzantinePercentage voterParams \<ge> BftMaxTolerableByzantinePercentage
      then ToVoterAll (Validators validators)
      else
        do {
          voters \<leftarrow> electVotersNonDup (Validators validators) (hashToSeed proofHash)
            (MaxTolerableByzantinePercentage voterParams) (VoterElectionThreshold voterParams);
          WrapValidatorsToVoterSet voters
        })"

end
