(* ===== verification/Bit_Array.thy ===== *)
theory Bit_Array
  imports Safe_Math
begin

unbundle bit_operations_syntax

text \<open>
  The bit arrays of \<^verbatim>\<open>libs/bits/bit_array.go\<close>: a bit count and the 64-bit words that hold the bits.
  A \<^verbatim>\<open>*BitArray\<close> is an option, \<^verbatim>\<open>nil\<close> being \<open>None\<close>. The well-formedness predicate \<open>wf_ba\<close> says that
  the words are exactly as many as the bits need; on such arrays no operation panics, and
  \<open>ba_bit\<close> reads the abstract bit. The locale \<open>bit_store\<close> is the contract vote sets and part
  sets rely on; it is interpreted on \<open>NewBitArray\<close>, \<open>GetIndex\<close> and \<open>SetIndex\<close> below.
\<close>

section \<open>Model\<close>

record BitArray =
  Bits :: int
  Elems :: "uint64 list"

text \<open>\<^verbatim>\<open>uint64(1) << uint(i%64)\<close>: a negative remainder becomes a huge shift count, which gives 0.\<close>

definition bit_mask :: "int \<Rightarrow> uint64" where
  "bit_mask i = (let r = i smod 64 in if r < 0 then 0 else push_bit (nat r) 1)"

definition go_copy :: "'a list \<Rightarrow> 'a list \<Rightarrow> 'a list" where
  "go_copy dst src = take (length dst) src @ drop (length src) dst"

text \<open>
  Sizes are counts of voters and parts in memory, so \<^verbatim>\<open>bits+63\<close> does not leave the int range; a size within 63 of its
  end would make the length of the slice negative, which panics.
\<close>

definition NewBitArray :: "int \<Rightarrow> BitArray option" where
  "NewBitArray bits =
     (if bits \<le> 0 then None
      else Some \<lparr>Bits = bits, Elems = replicate (nat ((bits + 63) sdiv 64)) 0\<rparr>)"

definition BitArray_Size :: "BitArray option \<Rightarrow> int" where
  "BitArray_Size bA = (case bA of None \<Rightarrow> 0 | Some b \<Rightarrow> Bits b)"

definition getIndex :: "BitArray \<Rightarrow> int \<Rightarrow> bool go" where
  "getIndex bA i =
     (if i \<ge> Bits bA then Ret False
      else do { e \<leftarrow> index (Elems bA) (i sdiv 64); Ret (e AND bit_mask i > 0) })"

definition BitArray_GetIndex :: "BitArray option \<Rightarrow> int \<Rightarrow> bool go" where
  "BitArray_GetIndex bA i = (case bA of None \<Rightarrow> Ret False | Some b \<Rightarrow> getIndex b i)"

definition setIndex :: "BitArray \<Rightarrow> int \<Rightarrow> bool \<Rightarrow> (bool \<times> BitArray) go" where
  "setIndex bA i v =
     (if i \<ge> Bits bA then Ret (False, bA)
      else do {
        e \<leftarrow> index (Elems bA) (i sdiv 64);
        es \<leftarrow> assign (Elems bA) (i sdiv 64)
                (if v then e OR bit_mask i else e AND NOT (bit_mask i));
        Ret (True, bA\<lparr>Elems := es\<rparr>)
      })"

definition BitArray_SetIndex ::
  "BitArray option \<Rightarrow> int \<Rightarrow> bool \<Rightarrow> (bool \<times> BitArray option) go" where
  "BitArray_SetIndex bA i v =
     (case bA of None \<Rightarrow> Ret (False, None)
      | Some b \<Rightarrow> do { (ok, b') \<leftarrow> setIndex b i v; Ret (ok, Some b') })"

definition BitArray_Copy :: "BitArray option \<Rightarrow> BitArray option" where
  "BitArray_Copy bA =
     (case bA of None \<Rightarrow> None | Some b \<Rightarrow> Some \<lparr>Bits = Bits b, Elems = Elems b\<rparr>)"

definition copyBits :: "BitArray \<Rightarrow> int \<Rightarrow> BitArray" where
  "copyBits bA bits =
     \<lparr>Bits = bits, Elems = go_copy (replicate (nat ((bits + 63) sdiv 64)) 0) (Elems bA)\<rparr>"

text \<open>The loop \<^verbatim>\<open>for i := 0; i < n; i++ { c.Elems[i] = f(c.Elems[i], o.Elems[i]) }\<close>.\<close>

fun zip_words :: "(uint64 \<Rightarrow> uint64 \<Rightarrow> uint64) \<Rightarrow> nat \<Rightarrow> uint64 list \<Rightarrow> uint64 list \<Rightarrow> uint64 list go"
where
  "zip_words f 0 cs os = Ret cs"
| "zip_words f (Suc n) (c # cs) (o' # os) =
     do { rest \<leftarrow> zip_words f n cs os; Ret (f c o' # rest) }"
| "zip_words f (Suc n) _ _ = Panic"

definition BitArray_Or :: "BitArray option \<Rightarrow> BitArray option \<Rightarrow> BitArray option go" where
  "BitArray_Or bA o' =
     (case (bA, o') of
        (None, None) \<Rightarrow> Ret None
      | (None, Some q) \<Rightarrow> Ret (BitArray_Copy o')
      | (Some b, None) \<Rightarrow> Ret (BitArray_Copy bA)
      | (Some b, Some q) \<Rightarrow>
          let c = copyBits b (MaxInt (Bits b) (Bits q));
              smaller = min (length (Elems b)) (length (Elems q))
          in do { es \<leftarrow> zip_words (OR) smaller (Elems c) (Elems q);
                  Ret (Some (c\<lparr>Elems := es\<rparr>)) })"

definition BitArray_And :: "BitArray option \<Rightarrow> BitArray option \<Rightarrow> BitArray option go" where
  "BitArray_And bA o' =
     (case (bA, o') of
        (Some b, Some q) \<Rightarrow>
          let c = copyBits b (MinInt (Bits b) (Bits q))
          in do { es \<leftarrow> zip_words (AND) (length (Elems c)) (Elems c) (Elems q);
                  Ret (Some (c\<lparr>Elems := es\<rparr>)) }
      | _ \<Rightarrow> Ret None)"

definition BitArray_Not :: "BitArray option \<Rightarrow> BitArray option" where
  "BitArray_Not bA =
     (case bA of None \<Rightarrow> None
      | Some b \<Rightarrow> Some \<lparr>Bits = Bits b, Elems = map (\<lambda>e. NOT e) (Elems b)\<rparr>)"

definition BitArray_Sub :: "BitArray option \<Rightarrow> BitArray option \<Rightarrow> BitArray option go" where
  "BitArray_Sub bA o' =
     (case (bA, o') of
        (Some b, Some q) \<Rightarrow>
          let c = copyBits b (Bits b);
              smaller = min (length (Elems b)) (length (Elems q))
          in do { es \<leftarrow> zip_words (\<lambda>x y. x AND NOT y) smaller (Elems c) (Elems q);
                  Ret (Some (c\<lparr>Elems := es\<rparr>)) }
      | _ \<Rightarrow> Ret None)"

definition BitArray_IsEmpty :: "BitArray option \<Rightarrow> bool" where
  "BitArray_IsEmpty bA =
     (case bA of None \<Rightarrow> True | Some b \<Rightarrow> list_all (\<lambda>e. \<not> e > 0) (Elems b))"

definition BitArray_IsFull :: "BitArray option \<Rightarrow> bool go" where
  "BitArray_IsFull bA =
     (case bA of None \<Rightarrow> Ret True
      | Some b \<Rightarrow>
          if Elems b = [] then Panic
          else if \<not> list_all (\<lambda>e. NOT e = 0) (butlast (Elems b)) then Ret False
          else
            let lastElemBits = (Bits b + 63) smod 64 + 1;
                lastElem = last (Elems b)
            in Ret ((lastElem + 1) AND (push_bit (nat lastElemBits) 1 - 1) = 0))"

text \<open>The inner loop over the bits of one word, from \<^verbatim>\<open>curBit\<close>.\<close>

definition word_indices :: "uint64 \<Rightarrow> nat \<Rightarrow> int \<Rightarrow> int list" where
  "word_indices e n curBit =
     map (\<lambda>j. curBit + int j) (filter (\<lambda>j. e AND push_bit j 1 > 0) [0..<n])"

fun true_indices_loop :: "uint64 list \<Rightarrow> int \<Rightarrow> int list \<times> int" where
  "true_indices_loop [] curBit = ([], curBit)"
| "true_indices_loop (e # es) curBit =
     (let (rest, curBit') = true_indices_loop es (curBit + 64)
      in if e = 0 then (rest, curBit') else (word_indices e 64 curBit @ rest, curBit'))"

definition getTrueIndices :: "BitArray \<Rightarrow> int list go" where
  "getTrueIndices bA =
     (if Elems bA = [] then Panic
      else
        let (idxs, curBit) = true_indices_loop (butlast (Elems bA)) 0;
            numFinalBits = Bits bA - curBit
        in Ret (idxs @ word_indices (last (Elems bA)) (nat numFinalBits) curBit))"

text \<open>\<^verbatim>\<open>tmrand.Intn\<close> is the parameter \<open>intn\<close>, a number below its argument.\<close>

definition BitArray_PickRandom :: "(nat \<Rightarrow> nat) \<Rightarrow> BitArray option \<Rightarrow> (int \<times> bool) go" where
  "BitArray_PickRandom intn bA =
     (case bA of None \<Rightarrow> Ret (0, False)
      | Some b \<Rightarrow> do {
          trueIndices \<leftarrow> getTrueIndices b;
          if trueIndices = [] then Ret (0, False)
          else do { i \<leftarrow> index trueIndices (int (intn (length trueIndices))); Ret (i, True) }
        })"

definition BitArray_Update :: "BitArray option \<Rightarrow> BitArray option \<Rightarrow> BitArray option" where
  "BitArray_Update bA o' =
     (case (bA, o') of
        (Some b, Some q) \<Rightarrow> Some (b\<lparr>Elems := go_copy (Elems b) (Elems q)\<rparr>)
      | _ \<Rightarrow> bA)"

fun json_bits :: "BitArray \<Rightarrow> nat \<Rightarrow> string go" where
  "json_bits bA 0 = Ret []"
| "json_bits bA (Suc i) =
     do { bits \<leftarrow> json_bits bA i;
          b \<leftarrow> getIndex bA (int i);
          Ret (bits @ (if b then ''x'' else ''_'')) }"

definition BitArray_MarshalJSON :: "BitArray option \<Rightarrow> string go" where
  "BitArray_MarshalJSON bA =
     (case bA of None \<Rightarrow> Ret ''null''
      | Some b \<Rightarrow> do { bits \<leftarrow> json_bits b (nat (Bits b)); Ret (''\"'' @ bits @ ''\"'') })"

text \<open>The submatch of the regular expression \<^verbatim>\<open>\A"([_x]*)"\z\<close>.\<close>

definition bitArrayJSONRegexp :: "string \<Rightarrow> string option" where
  "bitArrayJSONRegexp b =
     (if length b \<ge> 2 \<and> hd b = CHR ''\"'' \<and> last b = CHR ''\"''
         \<and> list_all (\<lambda>c. c = CHR ''_'' \<or> c = CHR ''x'') (butlast (tl b))
      then Some (butlast (tl b)) else None)"

fun set_bits :: "string \<Rightarrow> int \<Rightarrow> BitArray option \<Rightarrow> BitArray option go" where
  "set_bits [] i bA = Ret bA"
| "set_bits (c # cs) i bA =
     (if c = CHR ''x''
      then do { (_, bA') \<leftarrow> BitArray_SetIndex bA i True; set_bits cs (i + 1) bA' }
      else set_bits cs (i + 1) bA)"

datatype json_error = InvalidBitArrayFormat

text \<open>The receiver's new value, or the error; \<^verbatim>\<open>*bA = *bA2\<close> panics when \<^verbatim>\<open>bA2\<close> is nil.\<close>

definition BitArray_UnmarshalJSON :: "string \<Rightarrow> (json_error + BitArray) go" where
  "BitArray_UnmarshalJSON b =
     (if b = ''null'' then Ret (Inr \<lparr>Bits = 0, Elems = []\<rparr>)
      else
        case bitArrayJSONRegexp b of None \<Rightarrow> Ret (Inl InvalidBitArrayFormat)
        | Some bits \<Rightarrow> do {
            bA2 \<leftarrow> set_bits bits 0 (NewBitArray (int (length bits)));
            case bA2 of None \<Rightarrow> Panic | Some b2 \<Rightarrow> Ret (Inr b2)
          })"

text \<open>
  The protobuf message carries the same two fields. \<^verbatim>\<open>FromProto\<close> assigns the receiver's fields;
  the assignment \<^verbatim>\<open>bA = nil\<close> in it changes a local variable only.
\<close>

definition BitArray_ToProto :: "BitArray option \<Rightarrow> (int \<times> uint64 list) option" where
  "BitArray_ToProto bA =
     (case bA of None \<Rightarrow> None
      | Some b \<Rightarrow> if Elems b = [] then None else Some (Bits b, Elems b))"

definition BitArray_FromProto :: "BitArray \<Rightarrow> (int \<times> uint64 list) option \<Rightarrow> BitArray" where
  "BitArray_FromProto bA p =
     (case p of None \<Rightarrow> bA
      | Some (bits, elems) \<Rightarrow>
          \<lparr>Bits = bits, Elems = (if length elems > 0 then elems else Elems bA)\<rparr>)"

section \<open>Well-formed arrays and their bits\<close>

definition wf_ba :: "BitArray \<Rightarrow> bool" where
  "wf_ba b \<longleftrightarrow> 0 < Bits b \<and> int (length (Elems b)) = (Bits b + 63) div 64"

definition ba_bit :: "BitArray \<Rightarrow> nat \<Rightarrow> bool" where
  "ba_bit b i \<longleftrightarrow> bit (Elems b ! (i div 64)) (i mod 64)"

lemma word_and_push_bit_pos:
  fixes e :: uint64
  shows "e AND push_bit j 1 > 0 \<longleftrightarrow> bit e j"
proof -
  have "(e AND push_bit j 1 = 0) \<longleftrightarrow> \<not> bit e j"
    by (simp add: and_exp_eq_0_iff_not_bit)
  then show ?thesis by (simp add: word_neq_0_conv [symmetric] del: word_neq_0_conv)
qed

lemma word_and_exp_pos: "(e :: uint64) AND 2 ^ j > 0 \<longleftrightarrow> bit e j"
  using word_and_push_bit_pos [of e j] by simp

lemma word_pos_iff: "0 < (e :: uint64) \<longleftrightarrow> (\<exists>n < 64. bit e n)"
proof -
  have "e = 0 \<longleftrightarrow> (\<forall>n < 64. \<not> bit e n)" by (auto intro!: bit_word_eqI)
  then show ?thesis by (simp add: word_neq_0_conv [symmetric] del: word_neq_0_conv)
qed

lemma block64: "64 * k \<le> i \<Longrightarrow> i < 64 * k + 64 \<Longrightarrow> i div 64 = k \<and> i mod 64 = i - 64 * (k::nat)"
proof -
  assume "64 * k \<le> i" "i < 64 * k + 64"
  then have "i div 64 = k" by auto
  then show ?thesis using minus_mult_div_eq_mod [of i 64] by simp
qed

lemma sdiv_smod_nat: "int i sdiv 64 = int (i div 64)" "int i smod 64 = int (i mod 64)"
  by (simp_all add: signed_divide_int_def signed_modulo_int_def sgn_if minus_div_mult_eq_mod
      zdiv_int zmod_int)

lemma bit_mask_nat: "bit_mask (int i) = push_bit (i mod 64) 1"
  by (simp add: bit_mask_def sdiv_smod_nat)

lemma words_enough: "wf_ba b \<Longrightarrow> int i < Bits b \<Longrightarrow> i div 64 < length (Elems b)"
  unfolding wf_ba_def by linarith

lemma getIndex_wf: "wf_ba b \<Longrightarrow> int i < Bits b \<Longrightarrow> getIndex b (int i) = Ret (ba_bit b i)"
  using words_enough [of b i] word_and_push_bit_pos [of "Elems b ! (i div 64)" "i mod 64"]
  by (simp add: getIndex_def sdiv_smod_nat bit_mask_nat index_in ba_bit_def)

lemma getIndex_beyond: "Bits b \<le> i \<Longrightarrow> getIndex b i = Ret False"
  by (simp add: getIndex_def)

lemma setIndex_wf:
  assumes "wf_ba b" and "int i < Bits b"
  shows "\<exists>b'. setIndex b (int i) v = Ret (True, b') \<and> wf_ba b' \<and> Bits b' = Bits b
    \<and> length (Elems b') = length (Elems b)
    \<and> (\<forall>j. ba_bit b' j = (if j = i then v else ba_bit b j))"
proof -
  let ?k = "i div 64" and ?m = "push_bit (i mod 64) 1 :: uint64"
  let ?e = "Elems b ! ?k"
  let ?w = "if v then ?e OR ?m else ?e AND NOT ?m"
  let ?b' = "b\<lparr>Elems := (Elems b)[?k := ?w]\<rparr>"
  have k: "?k < length (Elems b)" using assms by (rule words_enough)
  have set: "setIndex b (int i) v = Ret (True, ?b')"
    using assms k by (simp add: setIndex_def sdiv_smod_nat bit_mask_nat index_in assign_in)
  have w: "bit ?w n = (if n = i mod 64 then v else bit ?e n)" if "n < 64" for n
    using that by (auto simp: bit_simps)
  have "ba_bit ?b' j = (if j = i then v else ba_bit b j)" for j
  proof (cases "j div 64 = ?k")
    case True
    then have "j mod 64 = i mod 64 \<longleftrightarrow> j = i" by (metis div_mult_mod_eq)
    then show ?thesis using True k w [of "j mod 64"] by (simp add: ba_bit_def)
  next
    case False
    then have "j \<noteq> i" by auto
    then show ?thesis using False by (simp add: ba_bit_def)
  qed
  then show ?thesis using set assms(1) by (auto simp: wf_ba_def)
qed

lemma NewBitArray_wf:
  assumes "0 < n"
  shows "\<exists>b. NewBitArray n = Some b \<and> wf_ba b \<and> Bits b = n
    \<and> (\<forall>i. int i < n \<longrightarrow> \<not> ba_bit b i)"
proof -
  let ?b = "\<lparr>Bits = n, Elems = replicate (nat ((n + 63) sdiv 64)) (0::uint64)\<rparr>"
  have wf: "wf_ba ?b" using assms by (simp add: wf_ba_def sdiv_nonneg)
  moreover have "\<not> ba_bit ?b i" if "int i < n" for i
    using words_enough [OF wf, of i] that by (simp add: ba_bit_def)
  ultimately show ?thesis using assms by (auto simp: NewBitArray_def)
qed

section \<open>The contract of a bit store\<close>

text \<open>
  What vote sets, part sets and commits rely on: a fresh store of \<open>n\<close> bits is all zero, and
  setting a bit in range succeeds, keeps the size and changes that bit only. \<open>mirrors s xs\<close> says that
  the store's bits are exactly the occupied positions of \<open>xs\<close>.
\<close>

locale bit_store =
  fixes new_store :: "int \<Rightarrow> 's"
    and get :: "'s \<Rightarrow> int \<Rightarrow> bool go"
    and put :: "'s \<Rightarrow> int \<Rightarrow> bool \<Rightarrow> (bool \<times> 's) go"
    and holds :: "'s \<Rightarrow> nat \<Rightarrow> bool"
  assumes holds_new: "holds (new_store (int n)) n"
    and get_new: "i < n \<Longrightarrow> get (new_store (int n)) (int i) = Ret False"
    and put_ok: "holds s n \<Longrightarrow> i < n \<Longrightarrow>
      \<exists>s'. put s (int i) v = Ret (True, s') \<and> holds s' n
        \<and> (\<forall>j < n. get s' (int j) = (if j = i then Ret v else get s (int j)))"
begin

definition mirrors :: "'s \<Rightarrow> 'a option list \<Rightarrow> bool" where
  "mirrors s xs \<longleftrightarrow> holds s (length xs)
     \<and> (\<forall>i < length xs. get s (int i) = Ret (xs ! i \<noteq> None))"

lemma mirrors_new: "mirrors (new_store (int n)) (replicate n None)"
  by (simp add: mirrors_def holds_new get_new)

lemma mirrors_put:
  assumes "mirrors s xs" and "i < length xs"
  shows "\<exists>s'. put s (int i) True = Ret (True, s') \<and> mirrors s' (xs[i := Some x])"
proof -
  obtain s' where s': "put s (int i) True = Ret (True, s')" "holds s' (length xs)"
    and get: "\<forall>j < length xs. get s' (int j) = (if j = i then Ret True else get s (int j))"
    using put_ok [of s "length xs" i True] assms by (auto simp: mirrors_def)
  have "mirrors s' (xs[i := Some x])"
    using assms s'(2) get by (auto simp: mirrors_def nth_list_update)
  then show ?thesis using s'(1) by blast
qed

lemma mirrors_update_same:
  "mirrors s xs \<Longrightarrow> i < length xs \<Longrightarrow> xs ! i \<noteq> None \<Longrightarrow> mirrors s (xs[i := Some x])"
  by (auto simp: mirrors_def nth_list_update)

end

definition ba_holds :: "BitArray option \<Rightarrow> nat \<Rightarrow> bool" where
  "ba_holds bA n \<longleftrightarrow>
     (case bA of None \<Rightarrow> n = 0 | Some b \<Rightarrow> wf_ba b \<and> Bits b = int n)"

interpretation ba: bit_store NewBitArray BitArray_GetIndex BitArray_SetIndex ba_holds
proof (unfold_locales, goal_cases)
  case (1 n)
  show ?case
  proof (cases "n = 0")
    case True
    then show ?thesis by (simp add: ba_holds_def NewBitArray_def)
  next
    case False
    then show ?thesis using NewBitArray_wf [of "int n"] by (auto simp: ba_holds_def)
  qed
next
  case (2 i n)
  then obtain b where "NewBitArray (int n) = Some b" "wf_ba b" "Bits b = int n"
    "\<not> ba_bit b i"
    using NewBitArray_wf [of "int n"] by auto
  then show ?case using 2 by (simp add: BitArray_GetIndex_def getIndex_wf)
next
  case (3 s n i v)
  then obtain b where b: "s = Some b" "wf_ba b" "Bits b = int n"
    by (auto simp: ba_holds_def split: option.splits)
  obtain b' where b': "setIndex b (int i) v = Ret (True, b')" "wf_ba b'" "Bits b' = Bits b"
    "\<forall>j. ba_bit b' j = (if j = i then v else ba_bit b j)"
    using setIndex_wf [OF b(2), of i v] b(3) 3(2) by auto
  then show ?case
    using b by (auto simp: BitArray_SetIndex_def BitArray_GetIndex_def ba_holds_def getIndex_wf)
qed

section \<open>Word-wise operations\<close>

text \<open>
  \<open>ba_get\<close> is the bit as \<^verbatim>\<open>GetIndex\<close> reports it, false from \<open>Bits\<close> on; \<open>clean_ba\<close> says that the
  unused bits of the last word are zero.
\<close>

definition ba_get :: "BitArray \<Rightarrow> nat \<Rightarrow> bool" where
  "ba_get b i \<longleftrightarrow> int i < Bits b \<and> ba_bit b i"

definition clean_ba :: "BitArray \<Rightarrow> bool" where
  "clean_ba b \<longleftrightarrow> (\<forall>i. Bits b \<le> int i \<longrightarrow> i div 64 < length (Elems b) \<longrightarrow> \<not> ba_bit b i)"

text \<open>A bit of the stored words, also one past the size.\<close>

definition word_bit :: "BitArray \<Rightarrow> nat \<Rightarrow> bool" where
  "word_bit b i \<longleftrightarrow> i div 64 < length (Elems b) \<and> ba_bit b i"

lemma NewBitArray_clean: "NewBitArray n = Some z \<Longrightarrow> clean_ba z"
  by (auto simp: NewBitArray_def clean_ba_def ba_bit_def split: if_splits)

lemma length_go_copy [simp]: "length (go_copy dst src) = length dst"
  by (auto simp: go_copy_def)

lemma nth_go_copy:
  "i < length dst \<Longrightarrow> go_copy dst src ! i = (if i < length src then src ! i else dst ! i)"
  by (auto simp: go_copy_def nth_append min_def)

lemma copyBits_props:
  assumes "0 < n"
  shows "wf_ba (copyBits b n)" and "Bits (copyBits b n) = n"
    and "i div 64 < length (Elems (copyBits b n)) \<Longrightarrow> ba_bit (copyBits b n) i
           = (i div 64 < length (Elems b) \<and> ba_bit b i)"
  using assms
  by (auto simp: wf_ba_def copyBits_def sdiv_nonneg ba_bit_def nth_go_copy)

lemma zip_words_eq:
  "n \<le> length cs \<Longrightarrow> n \<le> length os \<Longrightarrow>
   zip_words f n cs os = Ret (map2 f (take n cs) (take n os) @ drop n cs)"
  by (induction f n cs os rule: zip_words.induct) auto

lemma nth_map2_take:
  assumes "n \<le> length cs" "n \<le> length os" "i < length cs"
  shows "(map2 f (take n cs) (take n os) @ drop n cs) ! i
    = (if i < n then f (cs ! i) (os ! i) else cs ! i)"
  using assms by (auto simp: nth_append min_def)

lemma length_map2_take:
  "n \<le> length cs \<Longrightarrow> n \<le> length os \<Longrightarrow>
   length (map2 f (take n cs) (take n os) @ drop n cs) = length cs"
  by (auto simp: min_def)

lemmas zip_words_simps = zip_words_eq nth_map2_take length_map2_take

lemma length_Elems: "wf_ba b \<Longrightarrow> length (Elems b) = nat ((Bits b + 63) div 64)"
  by (auto simp: wf_ba_def)

lemma div64_less: "wf_ba b \<Longrightarrow> ba_get b i \<Longrightarrow> i div 64 < length (Elems b)"
  using words_enough by (auto simp: ba_get_def)

lemma BitArray_And_spec:
  assumes "wf_ba b" and "wf_ba q"
  shows "\<exists>c. BitArray_And (Some b) (Some q) = Ret (Some c) \<and> wf_ba c
    \<and> Bits c = min (Bits b) (Bits q) \<and> (\<forall>i. ba_get c i = (ba_get b i \<and> ba_get q i))"
proof -
  let ?n = "min (Bits b) (Bits q)" and ?c = "copyBits b (min (Bits b) (Bits q))"
  have n: "0 < ?n" using assms by (auto simp: wf_ba_def)
  note cp = copyBits_props [OF n, where b = b]
  have "length (Elems ?c) \<le> length (Elems q)"
    using length_Elems [OF cp(1)] length_Elems [OF assms(2)] cp(2) by (simp add: nat_mono div_le_mono2 zdiv_mono1)
  then obtain es where es: "zip_words (AND) (length (Elems ?c)) (Elems ?c) (Elems q) = Ret es"
    "length es = length (Elems ?c)"
    "\<forall>i < length (Elems ?c). es ! i = (Elems ?c ! i) AND (Elems q ! i)"
    by (auto simp: zip_words_simps)
  have "ba_get (?c\<lparr>Elems := es\<rparr>) i = (ba_get b i \<and> ba_get q i)" for i
  proof (cases "int i < ?n")
    case True
    then have "i div 64 < length (Elems ?c)" using words_enough [OF cp(1), of i] cp(2) by simp
    moreover have "i div 64 < length (Elems b)" using words_enough [OF assms(1), of i] True by simp
    ultimately have "bit (es ! (i div 64)) (i mod 64) = (ba_bit b i \<and> ba_bit q i)"
      using es(3) cp(3) [of i] by (simp add: ba_bit_def bit_and_iff)
    then show ?thesis using True cp(2) by (simp add: ba_get_def ba_bit_def)
  qed (auto simp: ba_get_def cp(2))
  then show ?thesis
    using es(1,2) cp(1,2) by (auto simp: BitArray_And_def wf_ba_def)
qed

lemma BitArray_Sub_spec:
  assumes "wf_ba b" and "wf_ba q"
  shows "\<exists>c. BitArray_Sub (Some b) (Some q) = Ret (Some c) \<and> wf_ba c
    \<and> Bits c = Bits b \<and> (\<forall>i. ba_get c i = (ba_get b i \<and> \<not> word_bit q i))"
proof -
  let ?c = "copyBits b (Bits b)" and ?s = "min (length (Elems b)) (length (Elems q))"
  have n: "0 < Bits b" using assms by (simp add: wf_ba_def)
  note cp = copyBits_props [OF n, where b = b]
  have len: "length (Elems ?c) = length (Elems b)"
    using length_Elems [OF cp(1)] length_Elems [OF assms(1)] cp(2) by simp
  then obtain es where es: "zip_words (\<lambda>x y. x AND NOT y) ?s (Elems ?c) (Elems q) = Ret es"
    "length es = length (Elems ?c)"
    "\<forall>i < length (Elems ?c). es ! i =
       (if i < ?s then (Elems ?c ! i) AND NOT (Elems q ! i) else Elems ?c ! i)"
    by (auto simp: zip_words_simps)
  have "ba_get (?c\<lparr>Elems := es\<rparr>) i = (ba_get b i \<and> \<not> word_bit q i)" for i
  proof (cases "int i < Bits b")
    case True
    let ?k = "i div 64"
    have k: "?k < length (Elems b)" using words_enough [OF assms(1) True] .
    have "bit (es ! ?k) (i mod 64) = (ba_bit b i \<and> \<not> word_bit q i)"
      using es(3) cp(3) [of i] k len by (auto simp: ba_bit_def word_bit_def bit_simps)
    then show ?thesis using True cp(2) by (auto simp: ba_get_def ba_bit_def)
  qed (auto simp: ba_get_def cp(2))
  then show ?thesis
    using es(1,2) cp(1,2) by (auto simp: BitArray_Sub_def wf_ba_def)
qed

text \<open>
  \<^verbatim>\<open>Or\<close> allocates words for the longer argument but copies only the receiver's and combines
  only the words both have, so the bits of a longer argument past the receiver's last word are lost.
\<close>

lemma BitArray_Or_spec:
  assumes "wf_ba b" and "wf_ba q"
  shows "\<exists>c. BitArray_Or (Some b) (Some q) = Ret (Some c) \<and> wf_ba c
    \<and> Bits c = max (Bits b) (Bits q)
    \<and> (\<forall>i. ba_get c i = (int i < Bits c \<and> (word_bit b i \<or> word_bit q i \<and> i div 64 < length (Elems b))))"
proof -
  let ?n = "max (Bits b) (Bits q)" and ?s = "min (length (Elems b)) (length (Elems q))"
  let ?c = "copyBits b ?n"
  have n: "0 < ?n" using assms by (auto simp: wf_ba_def)
  note cp = copyBits_props [OF n, where b = b]
  have len: "length (Elems b) \<le> length (Elems ?c)"
    using length_Elems [OF cp(1)] length_Elems [OF assms(1)] cp(2) by (simp add: nat_mono zdiv_mono1)
  then obtain es where es: "zip_words (OR) ?s (Elems ?c) (Elems q) = Ret es"
    "length es = length (Elems ?c)"
    "\<forall>i < length (Elems ?c). es ! i =
       (if i < ?s then (Elems ?c ! i) OR (Elems q ! i) else Elems ?c ! i)"
    by (auto simp: zip_words_simps)
  have "ba_get (?c\<lparr>Elems := es\<rparr>) i = (int i < ?n \<and> (word_bit b i \<or> word_bit q i \<and> i div 64 < length (Elems b)))" for i
  proof (cases "int i < ?n")
    case True
    let ?k = "i div 64"
    have k: "?k < length (Elems ?c)" using words_enough [OF cp(1), of i] True cp(2) by simp
    have "bit (es ! ?k) (i mod 64) = (word_bit b i \<or> word_bit q i \<and> ?k < length (Elems b))"
      using es(3) cp(3) [of i] k by (auto simp: ba_bit_def word_bit_def bit_simps)
    then show ?thesis using True cp(2) by (auto simp: ba_get_def ba_bit_def)
  qed (auto simp: ba_get_def cp(2))
  then show ?thesis
    using es(1,2) cp(1,2) by (auto simp: BitArray_Or_def wf_ba_def)
qed

lemma BitArray_Not_spec:
  assumes "wf_ba b"
  shows "\<exists>c. BitArray_Not (Some b) = Some c \<and> wf_ba c \<and> Bits c = Bits b \<and> (\<forall>i. ba_get c i = (int i < Bits b \<and> \<not> ba_get b i))"
  using assms words_enough [OF assms] by (auto simp: BitArray_Not_def wf_ba_def ba_get_def ba_bit_def bit_simps)

lemma clean_word_bit:
  assumes "wf_ba b"
  shows "clean_ba b \<longleftrightarrow> (\<forall>i. word_bit b i = ba_get b i)"
proof -
  have "word_bit b i = ba_get b i \<longleftrightarrow> (Bits b \<le> int i \<longrightarrow> i div 64 < length (Elems b) \<longrightarrow> \<not> ba_bit b i)" for i
    using words_enough [OF assms, of i] by (cases "int i < Bits b") (auto simp: word_bit_def ba_get_def)
  then show ?thesis by (simp add: clean_ba_def)
qed

section \<open>Emptiness, fullness and the set indices\<close>

lemma all_bits_iff:
  assumes "wf_ba b"
  shows "(\<forall>i. int i < Bits b \<longrightarrow> P (i div 64) (i mod 64)) \<longleftrightarrow>
    (\<forall>k < length (Elems b). \<forall>n < 64. int (64 * k + n) < Bits b \<longrightarrow> P k n)"
proof
  assume *: "\<forall>i. int i < Bits b \<longrightarrow> P (i div 64) (i mod 64)"
  show "\<forall>k < length (Elems b). \<forall>n < 64. int (64 * k + n) < Bits b \<longrightarrow> P k n"
  proof (intro allI impI)
    fix k n assume "k < length (Elems b)" "n < (64::nat)" "int (64 * k + n) < Bits b"
    then show "P k n" using * [rule_format, of "64 * k + n"] by simp
  qed
next
  assume *: "\<forall>k < length (Elems b). \<forall>n < 64. int (64 * k + n) < Bits b \<longrightarrow> P k n"
  show "\<forall>i. int i < Bits b \<longrightarrow> P (i div 64) (i mod 64)"
  proof (intro allI impI)
    fix i assume i: "int i < Bits b"
    then show "P (i div 64) (i mod 64)"
      using * [rule_format, of "i div 64" "i mod 64"] words_enough [OF assms i] by simp
  qed
qed

lemma word_all_ones: "(NOT e = (0::uint64)) \<longleftrightarrow> (\<forall>n < 64. bit e n)"
proof
  assume *: "NOT e = (0::uint64)"
  have "bit (NOT e) n = bit (0::uint64) n" for n using * by simp
  then show "\<forall>n < 64. bit e n" by (simp add: bit_simps)
next
  assume "\<forall>n < 64. bit e n"
  then show "NOT e = (0::uint64)" by (intro bit_word_eqI) (simp add: bit_simps)
qed

lemma all_but_last_split:
  assumes "0 < (len::nat)" and "m \<le> (64::nat)"
  shows "(\<forall>k < len. \<forall>n < 64. (Suc k < len \<or> n < m) \<longrightarrow> Q k n) \<longleftrightarrow>
    (\<forall>k < len - 1. \<forall>n < 64. Q k n) \<and> (\<forall>n < m. Q (len - 1) n)"
proof (intro iffI conjI)
  assume *: "\<forall>k < len. \<forall>n < 64. (Suc k < len \<or> n < m) \<longrightarrow> Q k n"
  show "\<forall>k < len - 1. \<forall>n < 64. Q k n" using * by auto
  show "\<forall>n < m. Q (len - 1) n" using * assms by auto
next
  assume *: "(\<forall>k < len - 1. \<forall>n < 64. Q k n) \<and> (\<forall>n < m. Q (len - 1) n)"
  show "\<forall>k < len. \<forall>n < 64. (Suc k < len \<or> n < m) \<longrightarrow> Q k n"
  proof (intro allI impI)
    fix k n assume kn: "k < len" "n < (64::nat)" "Suc k < len \<or> n < m"
    show "Q k n"
    proof (cases "Suc k < len")
      case True
      then show ?thesis using * kn by simp
    next
      case False
      then have "k = len - 1" using kn(1) by simp
      then show ?thesis using * kn False by simp
    qed
  qed
qed

text \<open>Adding one clears the low \<open>n\<close> bits exactly when they were all ones.\<close>

lemma take_bit_Suc_int_eq_0:
  fixes x :: int
  shows "take_bit n (x + 1) = 0 \<longleftrightarrow> take_bit n x = mask n"
proof
  assume *: "take_bit n (x + 1) = 0"
  have "take_bit n (take_bit n (x + 1) + take_bit n (- 1)) = take_bit n (x + 1 + - 1)"
    by (rule take_bit_add)
  then show "take_bit n x = mask n" using * by (simp add: take_bit_minus_one_eq_mask)
next
  assume *: "take_bit n x = mask n"
  have "take_bit n (take_bit n x + take_bit n 1) = take_bit n (x + 1)"
    and "take_bit n (take_bit n (- 1) + take_bit n 1) = take_bit n (- 1 + 1 :: int)"
    by (rule take_bit_add)+
  then show "take_bit n (x + 1) = 0" using * by (simp add: take_bit_minus_one_eq_mask)
qed

lemma low_bits_ones:
  fixes e :: uint64
  assumes "n \<le> 64"
  shows "(e + 1) AND (push_bit n 1 - 1) = 0 \<longleftrightarrow> (\<forall>i < n. bit e i)"
proof -
  have "(e + 1) AND (push_bit n 1 - 1) = take_bit n (e + 1)"
    by (simp add: take_bit_eq_mask mask_eq_exp_minus_1)
  then have "(e + 1) AND (push_bit n 1 - 1) = 0 \<longleftrightarrow> uint (take_bit n (e + 1)) = 0"
    by (simp add: unsigned_eq_0_iff)
  also have "uint (take_bit n (e + 1)) = take_bit n (take_bit 64 (uint e + 1))"
    by (simp add: unsigned_take_bit_eq uint_word_ariths take_bit_eq_mod [of 64])
  also have "\<dots> = take_bit n (uint e + 1)"
    using assms by (simp add: take_bit_take_bit min_def)
  also have "take_bit n (uint e + 1) = 0 \<longleftrightarrow> take_bit n (uint e) = mask n"
    by (rule take_bit_Suc_int_eq_0)
  also have "\<dots> \<longleftrightarrow> (\<forall>i < n. bit (uint e) i)"
    by (auto simp: bit_eq_iff [where a = "take_bit n (uint e)"] bit_simps)
  finally show ?thesis using assms by (auto simp: bit_uint_iff)
qed

lemma last_word_bits:
  assumes "wf_ba b" and "k < length (Elems b)" and "n < 64"
  shows "int (64 * k + n) < Bits b \<longleftrightarrow>
    Suc k < length (Elems b) \<or> int n < (Bits b + 63) mod 64 + 1"
proof -
  have len: "int (length (Elems b)) = (Bits b + 63) div 64" and pos: "0 < Bits b"
    using assms(1) by (auto simp: wf_ba_def)
  have eq: "Bits b + 63 = 64 * int (length (Elems b)) + (Bits b + 63) mod 64"
    using len by simp
  show ?thesis
  proof (cases "Suc k < length (Elems b)")
    case True
    then show ?thesis using eq assms(3) pos_mod_sign [of 64 "Bits b + 63"] by auto
  next
    case False
    then have "length (Elems b) = Suc k" using assms(2) by simp
    then show ?thesis using eq False by auto
  qed
qed

lemma BitArray_IsFull_spec:
  assumes "wf_ba b"
  shows "BitArray_IsFull (Some b) = Ret (\<forall>i. int i < Bits b \<longrightarrow> ba_bit b i)"
proof -
  let ?es = "Elems b" and ?m = "nat ((Bits b + 63) mod 64 + 1)"
  have ne: "?es \<noteq> []" using assms by (auto simp: wf_ba_def)
  have pos: "0 < Bits b" using assms by (simp add: wf_ba_def)
  have smod: "(Bits b + 63) smod 64 = (Bits b + 63) mod 64"
    using pos by (simp add: signed_modulo_int_def sdiv_nonneg minus_div_mult_eq_mod)
  have m: "?m \<le> 64" using pos_mod_bound [of 64 "Bits b + 63"] by linarith
  have "(\<forall>i. int i < Bits b \<longrightarrow> ba_bit b i) \<longleftrightarrow>
    (\<forall>k < length ?es. \<forall>n < 64. (Suc k < length ?es \<or> n < ?m) \<longrightarrow> bit (?es ! k) n)"
    unfolding ba_bit_def all_bits_iff [OF assms, of "\<lambda>k n. bit (?es ! k) n"]
    using last_word_bits [OF assms] by (simp add: zless_nat_eq_int_zless)
  also have "\<dots> \<longleftrightarrow> (\<forall>k < length ?es - 1. \<forall>n < 64. bit (?es ! k) n)
      \<and> (\<forall>n < ?m. bit (last ?es) n)"
    using all_but_last_split [of "length ?es" ?m "\<lambda>k n. bit (?es ! k) n"] ne m
    by (simp only: last_conv_nth [OF ne] length_greater_0_conv simp_thms)
  also have "(\<forall>k < length ?es - 1. \<forall>n < 64. bit (?es ! k) n)
      \<longleftrightarrow> list_all (\<lambda>e. NOT e = 0) (butlast ?es)"
    by (simp add: list_all_length word_all_ones nth_butlast)
  also have "(\<forall>n < ?m. bit (last ?es) n)
      \<longleftrightarrow> (last ?es + 1) AND (push_bit ?m 1 - 1) = 0"
    by (rule low_bits_ones [OF m, symmetric])
  finally show ?thesis
    using ne by (simp add: BitArray_IsFull_def smod)
qed

lemma BitArray_IsEmpty_spec:
  assumes "wf_ba b" and "clean_ba b"
  shows "BitArray_IsEmpty (Some b) \<longleftrightarrow> (\<forall>i. \<not> ba_get b i)"
proof -
  have "BitArray_IsEmpty (Some b) \<longleftrightarrow> (\<forall>k < length (Elems b). \<forall>n < 64. \<not> bit (Elems b ! k) n)"
    by (auto simp: BitArray_IsEmpty_def list_all_length word_pos_iff simp del: word_neq_0_conv not_gr_zero)
  also have "\<dots> \<longleftrightarrow> (\<forall>i. \<not> ba_get b i)"
  proof
    assume "\<forall>k < length (Elems b). \<forall>n < 64. \<not> bit (Elems b ! k) n"
    then show "\<forall>i. \<not> ba_get b i"
      using words_enough [OF assms(1)] by (auto simp: ba_get_def ba_bit_def)
  next
    assume *: "\<forall>i. \<not> ba_get b i"
    show "\<forall>k < length (Elems b). \<forall>n < 64. \<not> bit (Elems b ! k) n"
    proof (intro allI impI)
      fix k n :: nat assume kn: "k < length (Elems b)" "n < 64"
      have "\<not> ba_bit b (64 * k + n)"
        using * assms(2) kn by (cases "int (64 * k + n) < Bits b") (auto simp: ba_get_def clean_ba_def)
      then show "\<not> bit (Elems b ! k) n" using kn by (simp add: ba_bit_def)
    qed
  qed
  finally show ?thesis .
qed

lemma upt_64_blocks: "[64 * k..<64 * k + n] = map (\<lambda>j. 64 * k + j) [0..<n]"
  by (simp add: map_add_upt add.commute)

lemma word_indices_eq:
  "word_indices e n (int (64 * k)) =
     map int (filter (\<lambda>i. bit e (i - 64 * k)) [64 * k..<64 * k + n])"
  by (simp add: word_indices_def upt_64_blocks filter_map o_def word_and_exp_pos)

lemma true_indices_loop_eq:
  "true_indices_loop es (int (64 * k)) =
     (map int (filter (\<lambda>i. bit (es ! (i div 64 - k)) (i mod 64)) [64 * k..<64 * (k + length es)]),
      int (64 * (k + length es)))"
proof (induction es arbitrary: k)
  case Nil
  then show ?case by simp
next
  case (Cons e es)
  let ?f = "\<lambda>i. bit ((e # es) ! (i div 64 - k)) (i mod 64)"
  have IH: "true_indices_loop es (int (64 * k) + 64) =
     (map int (filter (\<lambda>i. bit (es ! (i div 64 - Suc k)) (i mod 64))
        [64 * Suc k..<64 * (Suc k + length es)]), int (64 * (Suc k + length es)))"
    using Cons.IH [of "Suc k"] by (simp add: algebra_simps)
  have split: "[64 * k..<64 * (k + length (e # es))]
      = [64 * k..<64 * k + 64] @ [64 * Suc k..<64 * (Suc k + length es)]"
    using upt_add_eq_append [of "64 * k" "64 * k + 64" "64 * length es"]
    by (simp add: algebra_simps)
  have head: "filter ?f [64 * k..<64 * k + 64] = filter (\<lambda>i. bit e (i - 64 * k)) [64 * k..<64 * k + 64]"
  proof (rule filter_cong [OF refl])
    fix i assume "i \<in> set [64 * k..<64 * k + 64]"
    then have "i div 64 = k" "i mod 64 = i - 64 * k" using block64 [of k i] by auto
    then show "?f i = bit e (i - 64 * k)" by simp
  qed
  have tail: "filter ?f [64 * Suc k..<64 * (Suc k + length es)] =
      filter (\<lambda>i. bit (es ! (i div 64 - Suc k)) (i mod 64)) [64 * Suc k..<64 * (Suc k + length es)]"
  proof (rule filter_cong [OF refl])
    fix i assume "i \<in> set [64 * Suc k..<64 * (Suc k + length es)]"
    then have "Suc k \<le> i div 64" by auto
    then have "i div 64 - k = Suc (i div 64 - Suc k)" by simp
    then show "?f i = bit (es ! (i div 64 - Suc k)) (i mod 64)" by simp
  qed
  have "true_indices_loop (e # es) (int (64 * k)) =
     (word_indices e 64 (int (64 * k)) @ map int (filter (\<lambda>i. bit (es ! (i div 64 - Suc k)) (i mod 64))
        [64 * Suc k..<64 * (Suc k + length es)]), int (64 * (Suc k + length es)))"
    by (auto simp only: true_indices_loop.simps IH Let_def split_conv) (simp add: word_indices_def)
  then show ?case
    by (simp only: split filter_append map_append head tail word_indices_eq) simp
qed

lemma getTrueIndices_spec:
  assumes "wf_ba b"
  shows "getTrueIndices b = Ret (map int (filter (ba_bit b) [0..<nat (Bits b)]))"
proof -
  let ?es = "butlast (Elems b)" and ?k = "length (Elems b) - 1"
  have ne: "Elems b \<noteq> []" using assms by (auto simp: wf_ba_def)
  have bits: "int (64 * ?k) < Bits b" "Bits b \<le> int (64 * ?k) + 64"
    using assms ne unfolding wf_ba_def by (auto simp: of_nat_diff)
  then have "nat (Bits b) = 64 * ?k + nat (Bits b - int (64 * ?k))" by linarith
  then have split: "[0..<nat (Bits b)] = [0..<64 * ?k] @ [64 * ?k..<64 * ?k + nat (Bits b - int (64 * ?k))]"
    using upt_add_eq_append [of 0 "64 * ?k" "nat (Bits b - int (64 * ?k))"] by simp
  have "filter (\<lambda>i. bit (?es ! (i div 64 - 0)) (i mod 64)) [64 * 0..<64 * (0 + length ?es)]
      = filter (ba_bit b) [0..<64 * ?k]"
    by (rule filter_cong) (auto simp: ba_bit_def nth_butlast less_mult_imp_div_less mult.commute)
  moreover have "filter (\<lambda>i. bit (last (Elems b)) (i - 64 * ?k))
        [64 * ?k..<64 * ?k + nat (Bits b - int (64 * ?k))]
      = filter (ba_bit b) [64 * ?k..<64 * ?k + nat (Bits b - int (64 * ?k))]"
  proof (rule filter_cong [OF refl])
    fix i assume "i \<in> set [64 * ?k..<64 * ?k + nat (Bits b - int (64 * ?k))]"
    then have "64 * ?k \<le> i" "i < 64 * ?k + 64" using bits by auto
    then have "i div 64 = ?k" "i mod 64 = i - 64 * ?k" using block64 [of ?k i] by auto
    then show "bit (last (Elems b)) (i - 64 * ?k) = ba_bit b i"
      using ne by (simp add: ba_bit_def last_conv_nth)
  qed
  ultimately show ?thesis
    using true_indices_loop_eq [of ?es 0] word_indices_eq [of "last (Elems b)" _ ?k] ne split
    by (simp add: getTrueIndices_def Let_def)
qed

lemma BitArray_PickRandom_spec:
  assumes "wf_ba b" and "\<And>n. 0 < n \<Longrightarrow> intn n < n"
  shows "\<exists>i ok. BitArray_PickRandom intn (Some b) = Ret (i, ok)
    \<and> (ok \<longrightarrow> (\<exists>j. i = int j \<and> ba_get b j)) \<and> (\<not> ok \<longrightarrow> (\<forall>j. \<not> ba_get b j))"
proof -
  let ?xs = "filter (ba_bit b) [0..<nat (Bits b)]"
  have get: "set ?xs = {j. ba_get b j}"
    using assms(1) by (auto simp: ba_get_def wf_ba_def)
  show ?thesis
  proof (cases "?xs = []")
    case True
    then have "\<forall>j. \<not> ba_get b j" using get by simp
    then show ?thesis
      using True
      by (intro exI [of _ 0] exI [of _ False])
        (simp add: BitArray_PickRandom_def getTrueIndices_spec [OF assms(1)])
  next
    case False
    let ?i = "intn (length ?xs)"
    have i: "?i < length ?xs" using False assms(2) by simp
    then have "ba_get b (?xs ! ?i)" using get nth_mem by blast
    then show ?thesis
      using False i
      by (intro exI [of _ "int (?xs ! ?i)"] exI [of _ True])
        (simp add: BitArray_PickRandom_def getTrueIndices_spec [OF assms(1)] index_in)
  qed
qed

section \<open>JSON\<close>

lemma ba_eqI:
  assumes "wf_ba b" "wf_ba b'" "clean_ba b" "clean_ba b'"
    and "Bits b = Bits b'" and "\<And>i. ba_get b i = ba_get b' i"
  shows "b = (b' :: BitArray)"
proof -
  have len: "length (Elems b) = length (Elems b')"
    using assms(1,2,5) by (simp add: length_Elems)
  have "bit (Elems b ! k) n = bit (Elems b' ! k) n" if "k < length (Elems b)" "n < 64" for k n
  proof -
    have "ba_bit b (64 * k + n) = ba_bit b' (64 * k + n)"
      using assms(3-5) assms(6) [of "64 * k + n"] that len
      by (cases "int (64 * k + n) < Bits b") (auto simp: ba_get_def clean_ba_def)
    then show ?thesis using that by (simp add: ba_bit_def)
  qed
  then have "Elems b = Elems b'"
    using len by (auto intro!: nth_equalityI bit_word_eqI)
  then show ?thesis using assms(5) by simp
qed

definition json_char :: "bool \<Rightarrow> char" where
  "json_char v = (if v then CHR ''x'' else CHR ''_'')"

lemma json_bits_eq:
  "wf_ba b \<Longrightarrow> int n \<le> Bits b \<Longrightarrow>
   json_bits b n = Ret (map (\<lambda>i. json_char (ba_bit b i)) [0..<n])"
  by (induction n) (auto simp: getIndex_wf json_char_def)

lemma set_bits_spec:
  assumes "wf_ba b" and "int (k + length cs) \<le> Bits b" and "clean_ba b"
  shows "\<exists>b'. set_bits cs (int k) (Some b) = Ret (Some b') \<and> wf_ba b' \<and> clean_ba b'
    \<and> Bits b' = Bits b \<and> (\<forall>j. ba_bit b' j \<longleftrightarrow>
         (k \<le> j \<and> j < k + length cs \<and> cs ! (j - k) = CHR ''x'') \<or> ba_bit b j)"
  using assms
proof (induction cs arbitrary: k b)
  case Nil
  then show ?case by auto
next
  case (Cons c cs)
  have "\<exists>b1. set_bits (c # cs) (int k) (Some b) = set_bits cs (int (Suc k)) (Some b1)
    \<and> wf_ba b1 \<and> clean_ba b1 \<and> Bits b1 = Bits b
    \<and> (\<forall>j. ba_bit b1 j = (if j = k \<and> c = CHR ''x'' then True else ba_bit b j))"
  proof (cases "c = CHR ''x''")
    case True
    obtain b1 where b1: "setIndex b (int k) True = Ret (True, b1)" "wf_ba b1" "Bits b1 = Bits b"
      "length (Elems b1) = length (Elems b)"
      "\<forall>j. ba_bit b1 j = (if j = k then True else ba_bit b j)"
      using setIndex_wf [of b k True] Cons.prems by auto
    have "clean_ba b1"
      using Cons.prems(2,3) b1(3,4) unfolding clean_ba_def b1(5) [rule_format] by simp
    moreover have "set_bits (c # cs) (int k) (Some b) = set_bits cs (int (Suc k)) (Some b1)"
      using True b1(1) by (simp add: BitArray_SetIndex_def add.commute)
    ultimately show ?thesis using b1(2,3,5) True by metis
  next
    case False
    then show ?thesis using Cons.prems by (intro exI [of _ b]) (simp add: add.commute)
  qed
  then obtain b1 where b1: "set_bits (c # cs) (int k) (Some b) = set_bits cs (int (Suc k)) (Some b1)"
    "wf_ba b1" "clean_ba b1" "Bits b1 = Bits b"
    "\<forall>j. ba_bit b1 j = (if j = k \<and> c = CHR ''x'' then True else ba_bit b j)"
    by blast
  have "int (Suc k + length cs) \<le> Bits b1" using Cons.prems(2) b1(4) by simp
  from Cons.IH [OF b1(2) this b1(3)]
  obtain b' where b': "set_bits cs (int (Suc k)) (Some b1) = Ret (Some b')" "wf_ba b'"
    "clean_ba b'" "Bits b' = Bits b1"
    "\<forall>j. ba_bit b' j \<longleftrightarrow>
       (Suc k \<le> j \<and> j < Suc k + length cs \<and> cs ! (j - Suc k) = CHR ''x'') \<or> ba_bit b1 j"
    by blast
  have "ba_bit b' j \<longleftrightarrow>
      (k \<le> j \<and> j < k + length (c # cs) \<and> (c # cs) ! (j - k) = CHR ''x'') \<or> ba_bit b j" for j
  proof (cases "Suc k \<le> j")
    case True
    then have "(c # cs) ! (j - k) = cs ! (j - Suc k)" by (simp add: nth_Cons')
    then show ?thesis unfolding b'(5) [rule_format] b1(5) [rule_format] using True by auto
  next
    case False
    then show ?thesis unfolding b'(5) [rule_format] b1(5) [rule_format] by auto
  qed
  then show ?case using b1(1,4) b'(1-4) by (intro exI [of _ b']) simp
qed

lemma BitArray_JSON_roundtrip:
  assumes "wf_ba b" and "clean_ba b"
  shows "\<exists>s. BitArray_MarshalJSON (Some b) = Ret s \<and> BitArray_UnmarshalJSON s = Ret (Inr b)"
proof -
  let ?n = "nat (Bits b)" and ?cs = "map (\<lambda>i. json_char (ba_bit b i)) [0..<nat (Bits b)]"
  let ?s = "''\"'' @ ?cs @ ''\"''"
  have n: "0 < Bits b" using assms by (simp add: wf_ba_def)
  have marshal: "BitArray_MarshalJSON (Some b) = Ret ?s"
    using json_bits_eq [OF assms(1), of ?n] n by (simp add: BitArray_MarshalJSON_def)
  have chars: "list_all (\<lambda>c. c = CHR ''_'' \<or> c = CHR ''x'') ?cs"
    by (auto simp: list_all_iff json_char_def)
  then have re: "bitArrayJSONRegexp ?s = Some ?cs" by (simp add: bitArrayJSONRegexp_def butlast_append)
  obtain z where z: "NewBitArray (Bits b) = Some z" "wf_ba z" "Bits z = Bits b"
    "\<forall>i. int i < Bits b \<longrightarrow> \<not> ba_bit z i" and cl: "clean_ba z"
    using NewBitArray_wf [OF n] NewBitArray_clean by blast
  obtain b' where b': "set_bits ?cs (int 0) (Some z) = Ret (Some b')" "wf_ba b'" "clean_ba b'"
    "Bits b' = Bits b"
    "\<forall>j. ba_bit b' j \<longleftrightarrow> (0 \<le> j \<and> j < 0 + length ?cs \<and> ?cs ! (j - 0) = CHR ''x'') \<or> ba_bit z j"
    using set_bits_spec [OF z(2) _ cl, of 0 ?cs] z(3) n by auto
  have "b' = b"
  proof (rule ba_eqI [OF b'(2) assms(1) b'(3) assms(2) b'(4)])
    fix i show "ba_get b' i = ba_get b i"
      using b'(4,5) z(4) by (auto simp: ba_get_def json_char_def zless_nat_eq_int_zless split: if_splits)
  qed
  then have "BitArray_UnmarshalJSON ?s = Ret (Inr b)"
    using re b'(1) z(1) n by (simp add: BitArray_UnmarshalJSON_def)
  then show ?thesis using marshal by blast
qed

section \<open>Properties\<close>

lemma clean_ba_upt:
  "0 \<le> Bits b \<Longrightarrow> clean_ba b \<longleftrightarrow> list_all (\<lambda>i. \<not> ba_bit b i) [nat (Bits b)..<64 * length (Elems b)]"
  by (auto simp: clean_ba_def list_all_iff nat_le_iff less_mult_imp_div_less div_less_iff_less_mult mult.commute)

definition ex_ba :: BitArray where
  "ex_ba = \<lparr>Bits = 66, Elems = [5, 2]\<rparr>"

lemma ex_ba_ok: "wf_ba ex_ba" "clean_ba ex_ba"
proof -
  show "wf_ba ex_ba" by code_simp
  have "list_all (\<lambda>i. \<not> ba_bit ex_ba i) [nat (Bits ex_ba)..<64 * length (Elems ex_ba)]" by code_simp
  then show "clean_ba ex_ba" by (simp add: clean_ba_upt ex_ba_def)
qed

text \<open>
  Bit arrays round-trip through JSON: marshalling a well-formed bit array without stray bits
  never fails, and unmarshalling the text gives the same array.
\<close>

theorem BitArray_JSON_inverse:
  assumes "wf_ba b" and "clean_ba b"
  shows "\<exists>s. BitArray_MarshalJSON (Some b) = Ret s \<and> BitArray_UnmarshalJSON s = Ret (Inr b)"
  using BitArray_JSON_roundtrip [OF assms] .

theorem BitArray_JSON_inverse_witness:
  "\<exists>s. BitArray_MarshalJSON (Some ex_ba) = Ret s \<and> BitArray_UnmarshalJSON s = Ret (Inr ex_ba)"
  using BitArray_JSON_inverse [OF ex_ba_ok] .

text \<open>
  C38. The set operations act bit by bit, for arrays with exactly the words their size needs. \<^verbatim>\<open>Not\<close> flips the bits
  below the size. \<^verbatim>\<open>And\<close> has the smaller size and the common bits. \<^verbatim>\<open>Sub\<close> keeps the receiver's size and drops the
  bits set in the argument's words. \<^verbatim>\<open>Or\<close> has the larger size and the bits of both words, but only of words the receiver has:
  a longer argument is truncated. \<^verbatim>\<open>Sub\<close> and \<^verbatim>\<open>Or\<close> also read the stray bits that lie past the size in the last word
  of an array, as \<^verbatim>\<open>Not\<close> leaves them; exactly on arrays without them are the bits read the ones \<^verbatim>\<open>GetIndex\<close> reports.
\<close>

theorem BitArray_set_operations:
  assumes "wf_ba b" and "wf_ba q"
  shows "(\<exists>c. BitArray_Not (Some b) = Some c \<and> wf_ba c \<and> Bits c = Bits b \<and> (\<forall>i. ba_get c i = (int i < Bits b \<and> \<not> ba_get b i)))
    \<and> (\<exists>c. BitArray_And (Some b) (Some q) = Ret (Some c) \<and> wf_ba c \<and> Bits c = min (Bits b) (Bits q)
        \<and> (\<forall>i. ba_get c i = (ba_get b i \<and> ba_get q i)))
    \<and> (\<exists>c. BitArray_Sub (Some b) (Some q) = Ret (Some c) \<and> wf_ba c \<and> Bits c = Bits b
        \<and> (\<forall>i. ba_get c i = (ba_get b i \<and> \<not> word_bit q i)))
    \<and> (\<exists>c. BitArray_Or (Some b) (Some q) = Ret (Some c) \<and> wf_ba c \<and> Bits c = max (Bits b) (Bits q)
        \<and> (\<forall>i. ba_get c i = (int i < Bits c \<and> (word_bit b i \<or> word_bit q i \<and> i div 64 < length (Elems b)))))
    \<and> (clean_ba q \<longleftrightarrow> (\<forall>i. word_bit q i = ba_get q i))"
  using BitArray_Not_spec [OF assms(1)] BitArray_And_spec [OF assms] BitArray_Sub_spec [OF assms] BitArray_Or_spec [OF assms]
    clean_word_bit [OF assms(2)] by blast

text \<open>
  The receiver has one word and bit 65 of the argument is lost; bit 5 is a stray bit of the receiver of size 3, which
  becomes visible in the result.
\<close>

theorem BitArray_set_operations_witness:
  "\<exists>c. BitArray_Or (Some \<lparr>Bits = 3, Elems = [33]\<rparr>) (Some ex_ba) = Ret (Some c) \<and> Bits c = 66
     \<and> ba_get ex_ba 65 \<and> \<not> ba_get c 65 \<and> ba_get c 5 \<and> \<not> ba_get \<lparr>Bits = 3, Elems = [33]\<rparr> 5 \<and> \<not> ba_get ex_ba 5"
proof -
  let ?b = "\<lparr>Bits = 3, Elems = [33 :: uint64]\<rparr>"
  have "wf_ba ?b" "ba_get ex_ba 65" "\<not> word_bit ?b 65" "word_bit ?b 5" "\<not> ba_get ?b 5" "\<not> ba_get ex_ba 5" "Bits ex_ba = 66"
    "\<not> 65 div 64 < length (Elems ?b)" by code_simp+
  then show ?thesis using BitArray_set_operations [of ?b ex_ba] ex_ba_ok by auto
qed

text \<open>
  Picking a random bit is sound and complete: on a well-formed array \<^verbatim>\<open>PickRandom\<close> returns, it
  reports success with the index of a set bit, and it fails only when no bit is set. The random source
  is any function that returns a number below its bound.
\<close>

theorem PickRandom_sound:
  assumes "wf_ba b" and "\<And>n. 0 < n \<Longrightarrow> intn n < n"
  shows "\<exists>i ok. BitArray_PickRandom intn (Some b) = Ret (i, ok)
    \<and> (ok \<longrightarrow> (\<exists>j. i = int j \<and> ba_get b j)) \<and> (\<not> ok \<longrightarrow> (\<forall>j. \<not> ba_get b j))"
  using BitArray_PickRandom_spec [OF assms] .

theorem PickRandom_sound_witness:
  "\<exists>i. BitArray_PickRandom (\<lambda>n. n - 1) (Some ex_ba) = Ret (i, True)"
proof -
  have "ba_get ex_ba 0" by code_simp
  then show ?thesis using PickRandom_sound [OF ex_ba_ok(1), of "\<lambda>n. n - 1"] by auto
qed

text \<open>
  \<^verbatim>\<open>IsFull\<close> decides fullness: on a well-formed array the word-wise test with the arithmetic on the
  last word returns exactly whether every bit below the size is set.
\<close>

theorem IsFull_decides:
  assumes "wf_ba b"
  shows "BitArray_IsFull (Some b) = Ret (\<forall>i. int i < Bits b \<longrightarrow> ba_bit b i)"
  using BitArray_IsFull_spec [OF assms] .

theorem IsFull_decides_witness: "BitArray_IsFull (Some ex_ba) = Ret False"
proof -
  have "int 1 < Bits ex_ba" "\<not> ba_bit ex_ba 1" by code_simp+
  then show ?thesis using IsFull_decides [OF ex_ba_ok(1)] by (auto intro: exI [of _ 1])
qed

end
