(* ===== verification/Block_Types.thy ===== *)
theory Block_Types
  imports Voter_Set Bit_Array
begin

text \<open>
  Block identifiers, votes, proposals, commit signatures and commits (\<^verbatim>\<open>types/block.go\<close>, \<^verbatim>\<open>types/part_set.go\<close>,
  \<^verbatim>\<open>types/vote.go\<close>, \<^verbatim>\<open>types/proposal.go\<close>) and the bytes that are signed (\<^verbatim>\<open>types/canonical.go\<close>, the
  protobuf encoders of \<^verbatim>\<open>proto/ostracon/types/canonical.pb.go\<close>, \<^verbatim>\<open>libs/protoio/writer.go\<close>).

  A protobuf message with the fields of its Go struct shares the record type. A time is the number
  of nanoseconds since Go's zero time. A signature is an option, since the code tells \<^verbatim>\<open>nil\<close> (the
  signature is part of the aggregate) from an empty slice. The encoder of times is a library
  function, the parameter \<open>stdTime\<close>; \<open>None\<close> is its error for dates out of range.
\<close>

section \<open>Block identifiers\<close>

datatype types_error =
    WrongHash | WrongHashSize nat | NilMessage | InvalidType | NegativeHeight | NegativeRound
  | NegativePOLRound | BlockIDNotComplete | BlockIDNeitherEmptyNorComplete | WrongAddress nat
  | NegativeValidatorIndex | SignatureMissing | SignatureTooBig nat
  | UnknownBlockIDFlag byte | AddressPresent | TimePresent | SignaturePresent
  | CommitForNilBlock | NoSignatures | WrongCommitSig nat types_error | ErasedSignatures nat | NoErasedSignatures

definition ValidateHash :: "bytes \<Rightarrow> types_error option" where
  "ValidateHash h = (if length h > 0 \<and> length h \<noteq> tmhash_Size then Some (WrongHashSize (length h)) else None)"

definition MaxSignatureSize :: nat where
  "MaxSignatureSize = max (max ed25519_SignatureSize bls_SignatureSize) 64"

record PartSetHeader =
  psh_Total :: uint32
  psh_Hash :: bytes

definition PartSetHeader_IsZero :: "PartSetHeader \<Rightarrow> bool" where
  "PartSetHeader_IsZero psh \<longleftrightarrow> psh_Total psh = 0 \<and> length (psh_Hash psh) = 0"

definition PartSetHeader_Equals :: "PartSetHeader \<Rightarrow> PartSetHeader \<Rightarrow> bool" where
  "PartSetHeader_Equals psh other \<longleftrightarrow> psh_Total psh = psh_Total other \<and> psh_Hash psh = psh_Hash other"

definition PartSetHeader_ValidateBasic :: "PartSetHeader \<Rightarrow> types_error option" where
  "PartSetHeader_ValidateBasic psh = ValidateHash (psh_Hash psh)"

definition PartSetHeader_ToProto :: "PartSetHeader \<Rightarrow> PartSetHeader" where
  "PartSetHeader_ToProto psh = \<lparr>psh_Total = psh_Total psh, psh_Hash = psh_Hash psh\<rparr>"

definition PartSetHeaderFromProto :: "PartSetHeader option \<Rightarrow> PartSetHeader option \<times> types_error option" where
  "PartSetHeaderFromProto ppsh = (case ppsh of
       None \<Rightarrow> (None, Some NilMessage)
     | Some pb \<Rightarrow>
         let psh = \<lparr>psh_Total = psh_Total pb, psh_Hash = psh_Hash pb\<rparr>
         in (Some psh, PartSetHeader_ValidateBasic psh))"

record BlockID =
  bid_Hash :: bytes
  bid_PartSetHeader :: PartSetHeader

definition zero_PartSetHeader :: PartSetHeader where
  "zero_PartSetHeader = \<lparr>psh_Total = 0, psh_Hash = []\<rparr>"

definition zero_BlockID :: BlockID where
  "zero_BlockID = \<lparr>bid_Hash = [], bid_PartSetHeader = zero_PartSetHeader\<rparr>"

definition BlockID_Equals :: "BlockID \<Rightarrow> BlockID \<Rightarrow> bool" where
  "BlockID_Equals b other \<longleftrightarrow>
     bid_Hash b = bid_Hash other \<and> PartSetHeader_Equals (bid_PartSetHeader b) (bid_PartSetHeader other)"

definition BlockID_IsZero :: "BlockID \<Rightarrow> bool" where
  "BlockID_IsZero b \<longleftrightarrow> length (bid_Hash b) = 0 \<and> PartSetHeader_IsZero (bid_PartSetHeader b)"

definition BlockID_IsComplete :: "BlockID \<Rightarrow> bool" where
  "BlockID_IsComplete b \<longleftrightarrow>
     length (bid_Hash b) = tmhash_Size \<and> psh_Total (bid_PartSetHeader b) > 0
     \<and> length (psh_Hash (bid_PartSetHeader b)) = tmhash_Size"

definition BlockID_ValidateBasic :: "BlockID \<Rightarrow> types_error option" where
  "BlockID_ValidateBasic b =
     (if ValidateHash (bid_Hash b) \<noteq> None then Some WrongHash
      else PartSetHeader_ValidateBasic (bid_PartSetHeader b))"

definition BlockID_ToProto :: "BlockID \<Rightarrow> BlockID" where
  "BlockID_ToProto b = \<lparr>bid_Hash = bid_Hash b, bid_PartSetHeader = PartSetHeader_ToProto (bid_PartSetHeader b)\<rparr>"

definition BlockIDFromProto :: "BlockID option \<Rightarrow> BlockID option \<times> types_error option" where
  "BlockIDFromProto bID = (case bID of
       None \<Rightarrow> (None, Some NilMessage)
     | Some pb \<Rightarrow>
         (case PartSetHeaderFromProto (Some (bid_PartSetHeader pb)) of
            (_, Some err) \<Rightarrow> (None, Some err)
          | (None, None) \<Rightarrow> (None, None)
          | (Some ph, None) \<Rightarrow>
              let b = \<lparr>bid_Hash = bid_Hash pb, bid_PartSetHeader = ph\<rparr>
              in (Some b, BlockID_ValidateBasic b)))"

section \<open>Protobuf encoders\<close>

text \<open>A field is its tag and its payload; a varint field is left out when zero, a byte field when empty.\<close>

definition varint_field :: "byte \<Rightarrow> nat \<Rightarrow> bytes" where
  "varint_field tag n = (if n \<noteq> 0 then tag # uvarint n else [])"

definition fixed64_field :: "byte \<Rightarrow> int64 \<Rightarrow> bytes" where
  "fixed64_field tag n = (if n \<noteq> 0 then tag # le_bytes64 (word_of_int n) else [])"

definition message_field :: "byte \<Rightarrow> bytes \<Rightarrow> bytes" where
  "message_field tag bz = tag # uvarint (length bz) @ bz"

definition bytes_field :: "byte \<Rightarrow> bytes \<Rightarrow> bytes" where
  "bytes_field tag bz = (if length bz > 0 then message_field tag bz else [])"

definition uint64_of :: "int \<Rightarrow> nat" where
  "uint64_of n = unat (word_of_int n :: uint64)"

definition PartSetHeader_Marshal :: "PartSetHeader \<Rightarrow> bytes" where
  "PartSetHeader_Marshal m = varint_field 0x8 (unat (psh_Total m)) @ bytes_field 0x12 (psh_Hash m)"

definition CanonicalBlockID_Marshal :: "BlockID \<Rightarrow> bytes" where
  "CanonicalBlockID_Marshal m =
     bytes_field 0xa (bid_Hash m) @ message_field 0x12 (PartSetHeader_Marshal (bid_PartSetHeader m))"

text \<open>\<^verbatim>\<open>fmt.Sprint\<close> puts no space between two strings.\<close>

definition BlockID_Key :: "BlockID \<Rightarrow> bytes" where
  "BlockID_Key b = bid_Hash b @ PartSetHeader_Marshal (PartSetHeader_ToProto (bid_PartSetHeader b))"

section \<open>Votes and proposals\<close>

type_synonym SignedMsgType = int32

definition PrevoteType :: SignedMsgType where "PrevoteType = 1"
definition PrecommitType :: SignedMsgType where "PrecommitType = 2"
definition ProposalType :: SignedMsgType where "ProposalType = 32"

definition IsVoteTypeValid :: "SignedMsgType \<Rightarrow> bool" where
  "IsVoteTypeValid t \<longleftrightarrow> t = PrevoteType \<or> t = PrecommitType"

record Vote =
  v_Type :: SignedMsgType
  v_Height :: int64
  v_Round :: int32
  v_BlockID :: BlockID
  v_Timestamp :: Time
  v_ValidatorAddress :: bytes
  v_ValidatorIndex :: int32
  v_Signature :: "bytes option"

definition sig_bytes :: "bytes option \<Rightarrow> bytes" where
  "sig_bytes s = (case s of None \<Rightarrow> [] | Some b \<Rightarrow> b)"

definition Vote_ValidateBasic :: "Vote \<Rightarrow> types_error option" where
  "Vote_ValidateBasic vote =
     (if \<not> IsVoteTypeValid (v_Type vote) then Some InvalidType
      else if v_Height vote < 0 then Some NegativeHeight
      else if v_Round vote < 0 then Some NegativeRound
      else (case BlockID_ValidateBasic (v_BlockID vote) of
          Some err \<Rightarrow> Some err
        | None \<Rightarrow>
            if \<not> BlockID_IsZero (v_BlockID vote) \<and> \<not> BlockID_IsComplete (v_BlockID vote)
              then Some BlockIDNeitherEmptyNorComplete
            else if length (v_ValidatorAddress vote) \<noteq> AddressSize
              then Some (WrongAddress (length (v_ValidatorAddress vote)))
            else if v_ValidatorIndex vote < 0 then Some NegativeValidatorIndex
            else if length (sig_bytes (v_Signature vote)) = 0 then Some SignatureMissing
            else if length (sig_bytes (v_Signature vote)) > MaxSignatureSize
              then Some (SignatureTooBig (length (sig_bytes (v_Signature vote))))
            else None))"

definition Vote_ToProto :: "Vote \<Rightarrow> Vote" where
  "Vote_ToProto vote = vote\<lparr>v_BlockID := BlockID_ToProto (v_BlockID vote)\<rparr>"

definition VoteFromProto :: "Vote option \<Rightarrow> Vote option \<times> types_error option" where
  "VoteFromProto pv = (case pv of
       None \<Rightarrow> (None, Some NilMessage)
     | Some pb \<Rightarrow>
         (case BlockIDFromProto (Some (v_BlockID pb)) of
            (_, Some err) \<Rightarrow> (None, Some err)
          | (None, None) \<Rightarrow> (None, None)
          | (Some b, None) \<Rightarrow>
              let vote = pb\<lparr>v_BlockID := b\<rparr> in (Some vote, Vote_ValidateBasic vote)))"

record Proposal =
  p_Type :: SignedMsgType
  p_Height :: int64
  p_Round :: int32
  p_POLRound :: int32
  p_BlockID :: BlockID
  p_Timestamp :: Time
  p_Signature :: "bytes option"

definition NewProposal :: "Time \<Rightarrow> int64 \<Rightarrow> int32 \<Rightarrow> int32 \<Rightarrow> BlockID \<Rightarrow> Proposal" where
  "NewProposal now height rnd polRound blockID =
     \<lparr>p_Type = ProposalType, p_Height = height, p_Round = rnd, p_POLRound = polRound, p_BlockID = blockID,
      p_Timestamp = now, p_Signature = None\<rparr>"

definition Proposal_ValidateBasic :: "Proposal \<Rightarrow> types_error option" where
  "Proposal_ValidateBasic p =
     (if p_Type p \<noteq> ProposalType then Some InvalidType
      else if p_Height p < 0 then Some NegativeHeight
      else if p_Round p < 0 then Some NegativeRound
      else if p_POLRound p < -1 then Some NegativePOLRound
      else (case BlockID_ValidateBasic (p_BlockID p) of
          Some err \<Rightarrow> Some err
        | None \<Rightarrow>
            if \<not> BlockID_IsComplete (p_BlockID p) then Some BlockIDNotComplete
            else if length (sig_bytes (p_Signature p)) = 0 then Some SignatureMissing
            else if length (sig_bytes (p_Signature p)) > MaxSignatureSize
              then Some (SignatureTooBig (length (sig_bytes (p_Signature p))))
            else None))"

definition Proposal_ToProto :: "Proposal \<Rightarrow> Proposal" where
  "Proposal_ToProto p = p\<lparr>p_BlockID := BlockID_ToProto (p_BlockID p)\<rparr>"

definition ProposalFromProto :: "Proposal option \<Rightarrow> Proposal option \<times> types_error option" where
  "ProposalFromProto pp = (case pp of
       None \<Rightarrow> (None, Some NilMessage)
     | Some pb \<Rightarrow>
         (case BlockIDFromProto (Some (p_BlockID pb)) of
            (_, Some err) \<Rightarrow> (None, Some err)
          | (None, None) \<Rightarrow> (None, None)
          | (Some b, None) \<Rightarrow>
              let p = pb\<lparr>p_BlockID := b\<rparr> in (Some p, Proposal_ValidateBasic p)))"

section \<open>Sign bytes\<close>

record CanonicalVote =
  cv_Type :: SignedMsgType
  cv_Height :: int64
  cv_Round :: int64
  cv_BlockID :: "BlockID option"
  cv_Timestamp :: Time
  cv_ChainID :: bytes

record CanonicalProposal =
  cp_Type :: SignedMsgType
  cp_Height :: int64
  cp_Round :: int64
  cp_POLRound :: int64
  cp_BlockID :: "BlockID option"
  cp_Timestamp :: Time
  cp_ChainID :: bytes

definition CanonicalizeBlockID :: "BlockID \<Rightarrow> BlockID option go" where
  "CanonicalizeBlockID bid = (case BlockIDFromProto (Some bid) of
       (_, Some err) \<Rightarrow> Panic
     | (None, None) \<Rightarrow> Ret None
     | (Some rbid, None) \<Rightarrow> Ret (if BlockID_IsZero rbid then None else Some bid))"

definition CanonicalizeVote :: "bytes \<Rightarrow> Vote \<Rightarrow> CanonicalVote go" where
  "CanonicalizeVote chainID vote =
     do {
       cbid \<leftarrow> CanonicalizeBlockID (v_BlockID vote);
       Ret \<lparr>cv_Type = v_Type vote, cv_Height = v_Height vote, cv_Round = v_Round vote, cv_BlockID = cbid,
            cv_Timestamp = v_Timestamp vote, cv_ChainID = chainID\<rparr>
     }"

definition CanonicalizeProposal :: "bytes \<Rightarrow> Proposal \<Rightarrow> CanonicalProposal go" where
  "CanonicalizeProposal chainID p =
     do {
       cbid \<leftarrow> CanonicalizeBlockID (p_BlockID p);
       Ret \<lparr>cp_Type = ProposalType, cp_Height = p_Height p, cp_Round = p_Round p, cp_POLRound = p_POLRound p,
            cp_BlockID = cbid, cp_Timestamp = p_Timestamp p, cp_ChainID = chainID\<rparr>
     }"

type_synonym time_encoder = "Time \<Rightarrow> bytes option"

definition CanonicalVote_Marshal :: "time_encoder \<Rightarrow> CanonicalVote \<Rightarrow> bytes option" where
  "CanonicalVote_Marshal stdTime m =
     do {
       ts \<leftarrow> stdTime (cv_Timestamp m);
       Some (varint_field 0x8 (uint64_of (cv_Type m))
         @ fixed64_field 0x11 (cv_Height m)
         @ fixed64_field 0x19 (cv_Round m)
         @ (case cv_BlockID m of None \<Rightarrow> [] | Some b \<Rightarrow> message_field 0x22 (CanonicalBlockID_Marshal b))
         @ message_field 0x2a ts
         @ bytes_field 0x32 (cv_ChainID m))
     }"

definition CanonicalProposal_Marshal :: "time_encoder \<Rightarrow> CanonicalProposal \<Rightarrow> bytes option" where
  "CanonicalProposal_Marshal stdTime m =
     do {
       ts \<leftarrow> stdTime (cp_Timestamp m);
       Some (varint_field 0x8 (uint64_of (cp_Type m))
         @ fixed64_field 0x11 (cp_Height m)
         @ fixed64_field 0x19 (cp_Round m)
         @ varint_field 0x20 (uint64_of (cp_POLRound m))
         @ (case cp_BlockID m of None \<Rightarrow> [] | Some b \<Rightarrow> message_field 0x2a (CanonicalBlockID_Marshal b))
         @ message_field 0x32 ts
         @ bytes_field 0x3a (cp_ChainID m))
     }"

definition MarshalDelimited :: "bytes \<Rightarrow> bytes" where
  "MarshalDelimited msg = uvarint (length msg) @ msg"

text \<open>A marshalling error is a panic here.\<close>

definition VoteSignBytes :: "time_encoder \<Rightarrow> bytes \<Rightarrow> Vote \<Rightarrow> bytes go" where
  "VoteSignBytes stdTime chainID vote =
     do {
       pb \<leftarrow> CanonicalizeVote chainID vote;
       bz \<leftarrow> CanonicalVote_Marshal stdTime pb;
       Ret (MarshalDelimited bz)
     }"

definition ProposalSignBytes :: "time_encoder \<Rightarrow> bytes \<Rightarrow> Proposal \<Rightarrow> bytes go" where
  "ProposalSignBytes stdTime chainID p =
     do {
       pb \<leftarrow> CanonicalizeProposal chainID p;
       bz \<leftarrow> CanonicalProposal_Marshal stdTime pb;
       Ret (MarshalDelimited bz)
     }"

datatype vote_error =
    ErrVoteUnexpectedStep | ErrVoteInvalidValidatorIndex | ErrVoteInvalidValidatorAddress
  | ErrVoteInvalidSignature | ErrVoteInvalidBlockHash | ErrVoteNonDeterministicSignature | ErrVoteNil
  | ErrVoteConflictingVotes Vote Vote

definition Vote_Verify :: "crypto_lib \<Rightarrow> time_encoder \<Rightarrow> bytes \<Rightarrow> PubKey \<Rightarrow> Vote \<Rightarrow> vote_error option go" where
  "Vote_Verify C stdTime chainID pubKey vote =
     do {
       addr \<leftarrow> PubKey_Address C pubKey;
       if addr \<noteq> v_ValidatorAddress vote then Ret (Some ErrVoteInvalidValidatorAddress)
       else do {
         bz \<leftarrow> VoteSignBytes stdTime chainID (Vote_ToProto vote);
         if \<not> PubKey_VerifySignature C pubKey bz (sig_bytes (v_Signature vote))
         then Ret (Some ErrVoteInvalidSignature)
         else Ret None
       }
     }"

section \<open>Commit signatures\<close>

definition BlockIDFlagAbsent :: byte where "BlockIDFlagAbsent = 1"
definition BlockIDFlagCommit :: byte where "BlockIDFlagCommit = 2"
definition BlockIDFlagNil :: byte where "BlockIDFlagNil = 3"

record CommitSig =
  cs_BlockIDFlag :: byte
  cs_ValidatorAddress :: bytes
  cs_Timestamp :: Time
  cs_Signature :: "bytes option"

definition NewCommitSigForBlock :: "bytes option \<Rightarrow> bytes \<Rightarrow> Time \<Rightarrow> CommitSig" where
  "NewCommitSigForBlock signature valAddr ts =
     \<lparr>cs_BlockIDFlag = BlockIDFlagCommit, cs_ValidatorAddress = valAddr, cs_Timestamp = ts, cs_Signature = signature\<rparr>"

definition NewCommitSigAbsent :: CommitSig where
  "NewCommitSigAbsent =
     \<lparr>cs_BlockIDFlag = BlockIDFlagAbsent, cs_ValidatorAddress = [], cs_Timestamp = 0, cs_Signature = None\<rparr>"

definition ForBlock :: "CommitSig \<Rightarrow> bool" where
  "ForBlock cs \<longleftrightarrow> cs_BlockIDFlag cs = BlockIDFlagCommit"

definition Absent :: "CommitSig \<Rightarrow> bool" where
  "Absent cs \<longleftrightarrow> cs_BlockIDFlag cs = BlockIDFlagAbsent"

definition CommitSig_BlockID :: "CommitSig \<Rightarrow> BlockID \<Rightarrow> BlockID go" where
  "CommitSig_BlockID cs commitBlockID =
     (if cs_BlockIDFlag cs = BlockIDFlagAbsent then Ret zero_BlockID
      else if cs_BlockIDFlag cs = BlockIDFlagCommit then Ret commitBlockID
      else if cs_BlockIDFlag cs = BlockIDFlagNil then Ret zero_BlockID
      else Panic)"

definition CommitSig_ValidateBasic :: "CommitSig \<Rightarrow> types_error option" where
  "CommitSig_ValidateBasic cs =
     (if cs_BlockIDFlag cs \<notin> {BlockIDFlagAbsent, BlockIDFlagCommit, BlockIDFlagNil}
        then Some (UnknownBlockIDFlag (cs_BlockIDFlag cs))
      else if cs_BlockIDFlag cs = BlockIDFlagAbsent then
        (if length (cs_ValidatorAddress cs) \<noteq> 0 then Some AddressPresent
         else if cs_Timestamp cs \<noteq> 0 then Some TimePresent
         else if length (sig_bytes (cs_Signature cs)) \<noteq> 0 then Some SignaturePresent
         else None)
      else if length (cs_ValidatorAddress cs) \<noteq> AddressSize
        then Some (WrongAddress (length (cs_ValidatorAddress cs)))
      else if cs_Signature cs \<noteq> None \<and> length (sig_bytes (cs_Signature cs)) > MaxSignatureSize
        then Some (SignatureTooBig (length (sig_bytes (cs_Signature cs))))
      else None)"

text \<open>The protobuf flag is an \<open>int32\<close>; \<^verbatim>\<open>FromProto\<close> truncates it to a byte.\<close>

record CommitSigPB =
  csp_BlockIdFlag :: int32
  csp_ValidatorAddress :: bytes
  csp_Timestamp :: Time
  csp_Signature :: "bytes option"

definition CommitSig_ToProto :: "CommitSig \<Rightarrow> CommitSigPB" where
  "CommitSig_ToProto cs =
     \<lparr>csp_BlockIdFlag = uint (cs_BlockIDFlag cs), csp_ValidatorAddress = cs_ValidatorAddress cs,
      csp_Timestamp = cs_Timestamp cs, csp_Signature = cs_Signature cs\<rparr>"

definition CommitSig_FromProto :: "CommitSigPB \<Rightarrow> CommitSig \<times> types_error option" where
  "CommitSig_FromProto csp =
     (let cs = \<lparr>cs_BlockIDFlag = word_of_int (csp_BlockIdFlag csp), cs_ValidatorAddress = csp_ValidatorAddress csp,
                cs_Timestamp = csp_Timestamp csp, cs_Signature = csp_Signature csp\<rparr>
      in (cs, CommitSig_ValidateBasic cs))"

definition Vote_CommitSig :: "Vote option \<Rightarrow> CommitSig go" where
  "Vote_CommitSig vote = (case vote of
       None \<Rightarrow> Ret NewCommitSigAbsent
     | Some v \<Rightarrow>
         do {
           flag \<leftarrow> (if BlockID_IsComplete (v_BlockID v) then Ret BlockIDFlagCommit
                    else if BlockID_IsZero (v_BlockID v) then Ret BlockIDFlagNil
                    else Panic);
           Ret \<lparr>cs_BlockIDFlag = flag, cs_ValidatorAddress = v_ValidatorAddress v,
                cs_Timestamp = v_Timestamp v, cs_Signature = v_Signature v\<rparr>
         })"

definition MaxCommitOverheadBytes :: int64 where
  "MaxCommitOverheadBytes = (1 + 9) + (1 + 5) + (1 + 76 + 1)"

definition MaxCommitSigBytes :: "int \<Rightarrow> int64" where
  "MaxCommitSigBytes signBytes =
     (let sz = (1 + 1) + (1 + 20 + 1) + (1 + 17 + 1)
      in if signBytes > 0 then wrap64 (sz + (1 + signBytes + 1)) else sz)"

fun sum_commit_sigs :: "int64 \<Rightarrow> int list \<Rightarrow> int64 go" where
  "sum_commit_sigs acc [] = Ret acc"
| "sum_commit_sigs acc (sigSize # rest) =
     do {
       overhead \<leftarrow> (if sigSize = 0 then Ret 2
                    else if sigSize = int ed25519_SignatureSize then Ret 2
                    else if sigSize = int bls_SignatureSize then Ret 3
                    else Panic);
       sum_commit_sigs (wrap64 (acc + (MaxCommitSigBytes sigSize + overhead))) rest
     }"

definition MaxCommitBytes :: "int list \<Rightarrow> int \<Rightarrow> int64 go" where
  "MaxCommitBytes sigSizes aggrSigSize =
     do {
       sz \<leftarrow> sum_commit_sigs MaxCommitOverheadBytes sigSizes;
       Ret (if aggrSigSize > 0 then wrap64 (sz + (2 + aggrSigSize + 1)) else sz)
     }"

definition MaxVoteBytes :: "int \<Rightarrow> int64 go" where
  "MaxVoteBytes signSize =
     (let sz = (1 + 1) + (1 + 9) + (1 + 5) + (1 + 76 + 1) + (1 + 17 + 1) + (1 + 20 + 1) + (1 + 5)
      in if signSize = 0 then Ret sz
         else if signSize = int ed25519_SignatureSize \<or> signSize = int bls_SignatureSize
         then Ret (sz + (1 + signSize + 1))
         else Panic)"

section \<open>Commits\<close>

record Commit =
  c_Height :: int64
  c_Round :: int32
  c_BlockID :: BlockID
  c_Signatures :: "CommitSig list"
  c_AggregatedSignature :: "bytes option"
  c_hash :: "bytes option"
  c_bitArray :: "BitArray option"

definition NewCommit :: "int64 \<Rightarrow> int32 \<Rightarrow> BlockID \<Rightarrow> CommitSig list \<Rightarrow> Commit" where
  "NewCommit height rnd blockID commitSigs =
     \<lparr>c_Height = height, c_Round = rnd, c_BlockID = blockID, c_Signatures = commitSigs,
      c_AggregatedSignature = None, c_hash = None, c_bitArray = None\<rparr>"

definition Commit_Size :: "Commit option \<Rightarrow> int" where
  "Commit_Size commit = (case commit of None \<Rightarrow> 0 | Some c \<Rightarrow> int (length (c_Signatures c)))"

definition Commit_MaxCommitBytes :: "Commit \<Rightarrow> int64 go" where
  "Commit_MaxCommitBytes commit =
     MaxCommitBytes (map (\<lambda>cs. int (length (sig_bytes (cs_Signature cs)))) (c_Signatures commit))
       (int (length (sig_bytes (c_AggregatedSignature commit))))"

definition GetVote :: "Commit \<Rightarrow> int32 \<Rightarrow> Vote go" where
  "GetVote commit valIdx =
     do {
       cs \<leftarrow> index (c_Signatures commit) valIdx;
       b \<leftarrow> CommitSig_BlockID cs (c_BlockID commit);
       Ret \<lparr>v_Type = PrecommitType, v_Height = c_Height commit, v_Round = c_Round commit, v_BlockID = b,
            v_Timestamp = cs_Timestamp cs, v_ValidatorAddress = cs_ValidatorAddress cs,
            v_ValidatorIndex = valIdx, v_Signature = cs_Signature cs\<rparr>
     }"

definition Commit_VoteSignBytes :: "time_encoder \<Rightarrow> Commit \<Rightarrow> bytes \<Rightarrow> int32 \<Rightarrow> bytes go" where
  "Commit_VoteSignBytes stdTime commit chainID valIdx =
     do {
       v \<leftarrow> GetVote commit valIdx;
       VoteSignBytes stdTime chainID (Vote_ToProto v)
     }"

definition Commit_IsCommit :: "Commit \<Rightarrow> bool" where
  "Commit_IsCommit commit \<longleftrightarrow> length (c_Signatures commit) \<noteq> 0"

fun set_present :: "int \<Rightarrow> CommitSig list \<Rightarrow> BitArray option \<Rightarrow> BitArray option go" where
  "set_present i [] ba = Ret ba"
| "set_present i (cs # rest) ba =
     do {
       (_, ba') \<leftarrow> BitArray_SetIndex ba i (\<not> Absent cs);
       set_present (i + 1) rest ba'
     }"

definition Commit_BitArray :: "Commit \<Rightarrow> (Commit \<times> BitArray option) go" where
  "Commit_BitArray commit =
     (if c_bitArray commit = None then
        do {
          ba \<leftarrow> set_present 0 (c_Signatures commit) (NewBitArray (int (length (c_Signatures commit))));
          Ret (commit\<lparr>c_bitArray := ba\<rparr>, ba)
        }
      else Ret (commit, c_bitArray commit))"

fun aggregate_loop ::
  "crypto_lib \<Rightarrow> CommitSig list \<Rightarrow> bytes option \<Rightarrow> (CommitSig list \<times> bytes option) go" where
  "aggregate_loop C [] agg = Ret ([], agg)"
| "aggregate_loop C (cs # rest) agg =
     (if \<not> Absent cs \<and> length (sig_bytes (cs_Signature cs)) = bls_SignatureSize then
        do {
          agg' \<leftarrow> (case agg of
              None \<Rightarrow> Ret (cs_Signature cs)
            | Some a \<Rightarrow> (case AddSignature C (Some a) (sig_bytes (cs_Signature cs)) of
                  Inl err \<Rightarrow> Panic
                | Inr s \<Rightarrow> Ret (Some s)));
          (rest', agg'') \<leftarrow> aggregate_loop C rest agg';
          Ret (cs\<lparr>cs_Signature := None\<rparr> # rest', agg'')
        }
      else
        do {
          (rest', agg'') \<leftarrow> aggregate_loop C rest agg;
          Ret (cs # rest', agg'')
        })"

definition AggregateSignatures :: "crypto_lib \<Rightarrow> Commit \<Rightarrow> Commit go" where
  "AggregateSignatures C commit =
     (if c_AggregatedSignature commit \<noteq> None then Panic
      else
        do {
          (sigs, agg) \<leftarrow> aggregate_loop C (c_Signatures commit) None;
          Ret (commit\<lparr>c_Signatures := sigs, c_AggregatedSignature := agg\<rparr>)
        })"

fun validate_sigs :: "nat \<Rightarrow> CommitSig list \<Rightarrow> types_error option" where
  "validate_sigs i [] = None"
| "validate_sigs i (cs # rest) = (case CommitSig_ValidateBasic cs of
       Some err \<Rightarrow> Some (WrongCommitSig i err)
     | None \<Rightarrow> validate_sigs (Suc i) rest)"

definition omittedSignatures :: "CommitSig list \<Rightarrow> nat" where
  "omittedSignatures sigs = length (filter (\<lambda>cs. \<not> Absent cs \<and> cs_Signature cs = None) sigs)"

definition Commit_ValidateBasic :: "Commit \<Rightarrow> types_error option" where
  "Commit_ValidateBasic commit =
     (if c_Height commit < 0 then Some NegativeHeight
      else if c_Round commit < 0 then Some NegativeRound
      else if c_Height commit \<ge> 1 then
        (if BlockID_IsZero (c_BlockID commit) then Some CommitForNilBlock
         else if length (c_Signatures commit) = 0 then Some NoSignatures
         else (case validate_sigs 0 (c_Signatures commit) of
             Some err \<Rightarrow> Some err
           | None \<Rightarrow>
               let omitted = omittedSignatures (c_Signatures commit) in
               (case c_AggregatedSignature commit of
                  None \<Rightarrow> if omitted > 0 then Some (ErasedSignatures omitted) else None
                | Some agg \<Rightarrow>
                    if omitted = 0 then Some NoErasedSignatures
                    else if length agg > MaxSignatureSize then Some (SignatureTooBig (length agg))
                    else None)))
      else None)"

definition Commit_Hash :: "hashfn \<Rightarrow> (CommitSigPB \<Rightarrow> bytes go) \<Rightarrow> Commit option \<Rightarrow> (Commit option \<times> bytes option) go" where
  "Commit_Hash H marshal commit = (case commit of
       None \<Rightarrow> Ret (None, None)
     | Some c \<Rightarrow>
         if c_hash c = None then
           do {
             bs \<leftarrow> map_go (\<lambda>cs. marshal (CommitSig_ToProto cs)) (c_Signatures c);
             let h = HashFromByteSlices H (bs @ [sig_bytes (c_AggregatedSignature c)]);
             Ret (Some (c\<lparr>c_hash := Some h\<rparr>), Some h)
           }
         else Ret (commit, c_hash c))"

record CommitPB =
  cpb_Height :: int64
  cpb_Round :: int32
  cpb_BlockID :: BlockID
  cpb_Signatures :: "CommitSigPB list"
  cpb_AggregatedSignature :: "bytes option"

definition Commit_ToProto :: "Commit option \<Rightarrow> CommitPB option" where
  "Commit_ToProto commit = map_option (\<lambda>c.
     \<lparr>cpb_Height = c_Height c, cpb_Round = c_Round c, cpb_BlockID = BlockID_ToProto (c_BlockID c),
      cpb_Signatures = map CommitSig_ToProto (c_Signatures c),
      cpb_AggregatedSignature = c_AggregatedSignature c\<rparr>) commit"

fun sigs_FromProto :: "CommitSigPB list \<Rightarrow> types_error + CommitSig list" where
  "sigs_FromProto [] = Inr []"
| "sigs_FromProto (p # ps) = (case CommitSig_FromProto p of
       (_, Some err) \<Rightarrow> Inl err
     | (cs, None) \<Rightarrow> (case sigs_FromProto ps of Inl err \<Rightarrow> Inl err | Inr css \<Rightarrow> Inr (cs # css)))"

definition CommitFromProto :: "CommitPB option \<Rightarrow> Commit option \<times> types_error option" where
  "CommitFromProto cp = (case cp of
       None \<Rightarrow> (None, Some NilMessage)
     | Some pb \<Rightarrow>
         (case BlockIDFromProto (Some (cpb_BlockID pb)) of
            (_, Some err) \<Rightarrow> (None, Some err)
          | (None, None) \<Rightarrow> (None, None)
          | (Some bi, None) \<Rightarrow>
              (case sigs_FromProto (cpb_Signatures pb) of
                 Inl err \<Rightarrow> (None, Some err)
               | Inr sigs \<Rightarrow>
                   let commit = (NewCommit (cpb_Height pb) (cpb_Round pb) bi sigs)
                         \<lparr>c_AggregatedSignature := cpb_AggregatedSignature pb\<rparr>
                   in (Some commit, Commit_ValidateBasic commit))))"

fun GetSignatureKey :: "PubKey \<Rightarrow> bytes option" where
  "GetSignatureKey (PubKeyComposite s v) = GetSignatureKey s"
| "GetSignatureKey (PubKeyBLS12 k) = Some k"
| "GetSignatureKey (PubKeyEd25519 k) = None"
| "GetSignatureKey (PubKeySecp256k1 k) = None"
| "GetSignatureKey (PubKeySr25519 k) = None"

end
