(* ===== verification/Sign_Bytes.thy ===== *)
theory Sign_Bytes
  imports Block_Types
begin

text \<open>
  The bytes that are signed determine what is signed. A protobuf field is recognised by its tag and its
  payload is self-delimiting, so equal encodings have equal fields; hence a signature for one vote is
  never a signature for another vote, another chain or a proposal.
\<close>

section \<open>Fields\<close>

named_theorems pb_field_simps \<open>the first byte of an encoded message\<close>

definition starts_not :: "byte \<Rightarrow> bytes \<Rightarrow> bool" where
  "starts_not t bz \<longleftrightarrow> bz = [] \<or> hd bz \<noteq> t"

lemma starts_not_fields [pb_field_simps]:
  "starts_not t []"
  "t \<noteq> u \<Longrightarrow> starts_not t R \<Longrightarrow> starts_not t (varint_field u n @ R)"
  "t \<noteq> u \<Longrightarrow> starts_not t R \<Longrightarrow> starts_not t (fixed64_field u k @ R)"
  "t \<noteq> u \<Longrightarrow> starts_not t (message_field u bz @ R)"
  "t \<noteq> u \<Longrightarrow> starts_not t (message_field u bz)"
  "t \<noteq> u \<Longrightarrow> starts_not t R \<Longrightarrow> starts_not t (bytes_field u bz @ R)"
  "t \<noteq> u \<Longrightarrow> starts_not t (bytes_field u bz)"
  by (auto simp: starts_not_def varint_field_def fixed64_field_def message_field_def bytes_field_def)

lemma starts_not_Cons [simp]: "starts_not t (u # R) \<longleftrightarrow> u \<noteq> t"
  by (simp add: starts_not_def)

lemma varint_field_cancel:
  assumes "varint_field t a @ x = varint_field t b @ y" and "starts_not t x" and "starts_not t y"
  shows "a = b \<and> x = y"
  using assms uvarint_prefix_free [of a x b y] by (auto simp: varint_field_def split: if_splits)

lemma message_field_cancel: "message_field t a @ x = message_field t b @ y \<Longrightarrow> a = b \<and> x = y"
  using encodeByteSlice_prefix_free [of a x b y] by (simp add: message_field_def encodeByteSlice_def)

lemma bytes_field_cancel:
  assumes "bytes_field t a @ x = bytes_field t b @ y" and "starts_not t x" and "starts_not t y"
  shows "a = b \<and> x = y"
  using assms message_field_cancel [of t a x b y]
  by (auto simp: bytes_field_def split: if_splits) (auto simp: message_field_def)

lemma length_le_bytes64 [simp]: "length (le_bytes64 w) = 8"
  by (simp add: le_bytes64_def)

lemma le_bytes_value:
  "foldr (\<lambda>b n. unat b + 256 * n) (map (\<lambda>i. word_of_nat (n div 256 ^ i) :: byte) [0..<k]) 0 = n mod 256 ^ k"
proof (induction k arbitrary: n)
  case (Suc k)
  have "unat (word_of_nat n :: byte) = n mod 256" by (simp add: unsigned_of_nat take_bit_nat_def)
  moreover have "map (\<lambda>i. word_of_nat (n div 256 ^ i) :: byte) [0..<Suc k]
      = word_of_nat n # map (\<lambda>i. word_of_nat (n div 256 div 256 ^ i)) [0..<k]"
    by (simp add: upt_rec [of 0 "Suc k"] map_Suc_upt [symmetric] div_mult2_eq comp_def del: upt_Suc)
  ultimately show ?case using Suc.IH [of "n div 256"] by (simp add: mod_mult2_eq del: upt_Suc)
qed simp

lemma le_uint64_bytes: "le_uint64 (le_bytes64 w) = w"
  using unat_uint64 [of w] unfolding le_uint64_def le_bytes64_def le_bytes_value by simp

lemma word64_inj: "in64 a \<Longrightarrow> in64 b \<Longrightarrow> (word_of_int a :: uint64) = word_of_int b \<Longrightarrow> a = b"
proof -
  assume ab: "in64 a" "in64 b" and eq: "(word_of_int a :: uint64) = word_of_int b"
  have "sint (word_of_int x :: uint64) = x" if "in64 x" for x
    using that by (simp add: signed_of_int signed_take_bit_int_eq_self in64_def int_limits)
  then show "a = b" using ab eq by metis
qed

lemma fixed64_field_cancel:
  assumes eq: "fixed64_field t a @ x = fixed64_field t b @ y" and "starts_not t x" and "starts_not t y"
    and "in64 a" and "in64 b"
  shows "a = b \<and> x = y"
proof -
  have "a = b \<and> x = y" if "le_bytes64 (word_of_int a) @ x = le_bytes64 (word_of_int b) @ y"
  proof -
    have "le_bytes64 (word_of_int a) = le_bytes64 (word_of_int b)" "x = y" using that by simp_all
    then have "(word_of_int a :: uint64) = word_of_int b" by (metis le_uint64_bytes)
    then show ?thesis using word64_inj assms(4,5) \<open>x = y\<close> by blast
  qed
  then show ?thesis using assms by (auto simp: fixed64_field_def split: if_splits)
qed

lemma uint64_of_inj: "in64 a \<Longrightarrow> in64 b \<Longrightarrow> uint64_of a = uint64_of b \<Longrightarrow> a = b"
  unfolding uint64_of_def using word64_inj unsigned_word_eqI by blast

lemma in32_in64: "in32 x \<Longrightarrow> in64 x"
  by (simp add: in32_def in64_def int_limits)

section \<open>Block identifiers\<close>

lemma PartSetHeader_Marshal_inj: "PartSetHeader_Marshal a = PartSetHeader_Marshal b \<Longrightarrow> a = b"
proof -
  assume eq: "PartSetHeader_Marshal a = PartSetHeader_Marshal b"
  then have "unat (psh_Total a) = unat (psh_Total b) \<and> bytes_field 0x12 (psh_Hash a) = bytes_field 0x12 (psh_Hash b)"
    unfolding PartSetHeader_Marshal_def by (rule varint_field_cancel) (simp_all add: pb_field_simps)
  moreover from this have "psh_Hash a = psh_Hash b"
    using bytes_field_cancel [of "0x12" "psh_Hash a" "[]" "psh_Hash b" "[]"] by (simp add: pb_field_simps)
  ultimately show "a = b" using unsigned_word_eqI [of "psh_Total a" "psh_Total b"] by (cases a; cases b) simp
qed

lemma CanonicalBlockID_Marshal_inj: "CanonicalBlockID_Marshal a = CanonicalBlockID_Marshal b \<Longrightarrow> a = b"
proof -
  assume eq: "CanonicalBlockID_Marshal a = CanonicalBlockID_Marshal b"
  let ?p = "\<lambda>b. message_field 0x12 (PartSetHeader_Marshal (bid_PartSetHeader b))"
  have "bid_Hash a = bid_Hash b \<and> ?p a = ?p b"
    using eq unfolding CanonicalBlockID_Marshal_def by (rule bytes_field_cancel) (simp_all add: pb_field_simps)
  moreover from this have "PartSetHeader_Marshal (bid_PartSetHeader a) = PartSetHeader_Marshal (bid_PartSetHeader b)"
    using message_field_cancel [of "0x12" _ "[]" _ "[]"] by simp
  ultimately show "a = b" using PartSetHeader_Marshal_inj by (cases a; cases b) fastforce
qed

lemma BlockID_zero_iff: "BlockID_IsZero b \<longleftrightarrow> b = zero_BlockID"
  by (cases b; cases "bid_PartSetHeader b")
    (auto simp: BlockID_IsZero_def PartSetHeader_IsZero_def zero_BlockID_def zero_PartSetHeader_def)

lemma record_eta [simp]:
  "\<lparr>psh_Total = psh_Total p, psh_Hash = psh_Hash p\<rparr> = p"
  "\<lparr>bid_Hash = bid_Hash b, bid_PartSetHeader = bid_PartSetHeader b\<rparr> = b"
  by simp_all

lemma BlockID_ToProto_id [simp]: "BlockID_ToProto b = b"
  by (simp add: BlockID_ToProto_def PartSetHeader_ToProto_def)

lemma Vote_ToProto_id [simp]: "Vote_ToProto v = v"
  by (simp add: Vote_ToProto_def)

lemma BlockID_Equals_iff [simp]: "BlockID_Equals a b \<longleftrightarrow> a = b"
  by (cases a; cases b; cases "bid_PartSetHeader a"; cases "bid_PartSetHeader b")
    (auto simp: BlockID_Equals_def PartSetHeader_Equals_def)

lemma BlockIDFromProto_valid:
  "BlockID_ValidateBasic b = None \<Longrightarrow> BlockIDFromProto (Some b) = (Some b, None)"
  by (auto simp: BlockIDFromProto_def PartSetHeaderFromProto_def BlockID_ValidateBasic_def Let_def split: if_splits)

lemma CanonicalizeBlockID_Ret:
  "CanonicalizeBlockID b = Some c \<Longrightarrow> c = (if BlockID_IsZero b then None else Some b)"
  by (auto simp: CanonicalizeBlockID_def BlockIDFromProto_def PartSetHeaderFromProto_def Let_def
      split: prod.splits option.splits if_splits)

definition proper_BlockID :: "BlockID \<Rightarrow> bool" where
  "proper_BlockID b \<longleftrightarrow> BlockID_IsZero b \<or> BlockID_IsComplete b"

lemma BlockID_Key_inj:
  assumes "proper_BlockID a" and "proper_BlockID b" and eq: "BlockID_Key a = BlockID_Key b"
  shows "a = b"
proof -
  have key: "BlockID_Key c = bid_Hash c @ PartSetHeader_Marshal (bid_PartSetHeader c)" for c
    by (simp add: BlockID_Key_def PartSetHeader_ToProto_def)
  have zero: "BlockID_Key c = [] \<longleftrightarrow> BlockID_IsZero c" if "proper_BlockID c" for c
    using that by (auto simp: key proper_BlockID_def BlockID_IsZero_def BlockID_IsComplete_def tmhash_Size_def
        PartSetHeader_IsZero_def PartSetHeader_Marshal_def varint_field_def bytes_field_def)
  show ?thesis
  proof (cases "BlockID_IsZero a")
    case True
    then show ?thesis using zero [OF assms(1)] zero [OF assms(2)] eq BlockID_zero_iff by metis
  next
    case False
    then have "BlockID_IsComplete a" "BlockID_IsComplete b"
      using zero [OF assms(1)] zero [OF assms(2)] eq assms(1,2) by (auto simp: proper_BlockID_def)
    then have "length (bid_Hash a) = length (bid_Hash b)" by (simp add: BlockID_IsComplete_def)
    then have "bid_Hash a = bid_Hash b"
      "PartSetHeader_Marshal (bid_PartSetHeader a) = PartSetHeader_Marshal (bid_PartSetHeader b)"
      using eq by (simp_all add: key)
    then show ?thesis using PartSetHeader_Marshal_inj by (cases a; cases b) fastforce
  qed
qed

section \<open>Canonical messages\<close>

definition signed_content :: "Vote \<Rightarrow> SignedMsgType \<times> int64 \<times> int32 \<times> BlockID \<times> Time" where
  "signed_content v = (v_Type v, v_Height v, v_Round v, v_BlockID v, v_Timestamp v)"

definition vote_in_range :: "Vote \<Rightarrow> bool" where
  "vote_in_range v \<longleftrightarrow> in32 (v_Type v) \<and> in64 (v_Height v) \<and> in32 (v_Round v)"

definition injective_encoder :: "time_encoder \<Rightarrow> bool" where
  "injective_encoder T \<longleftrightarrow> (\<forall>a b x. T a = Some x \<longrightarrow> T b = Some x \<longrightarrow> a = b)"

definition block_field :: "byte \<Rightarrow> BlockID option \<Rightarrow> bytes" where
  "block_field t b = (case b of None \<Rightarrow> [] | Some b \<Rightarrow> message_field t (CanonicalBlockID_Marshal b))"

lemma starts_not_block [pb_field_simps]: "t \<noteq> u \<Longrightarrow> starts_not t R \<Longrightarrow> starts_not t (block_field u b @ R)"
  by (cases b) (simp_all add: block_field_def pb_field_simps)

lemma block_field_cancel:
  assumes "block_field t a @ x = block_field t b @ y" and "starts_not t x" and "starts_not t y"
  shows "a = b \<and> x = y"
proof (cases a; cases b)
  fix c d assume ab: "a = Some c" "b = Some d"
  then have "message_field t (CanonicalBlockID_Marshal c) @ x = message_field t (CanonicalBlockID_Marshal d) @ y"
    using assms(1) by (simp add: block_field_def)
  from message_field_cancel [OF this] show ?thesis using CanonicalBlockID_Marshal_inj [of c d] ab by simp
qed (use assms in \<open>auto simp: block_field_def message_field_def\<close>)

lemma CanonicalVote_Marshal_inj:
  assumes "CanonicalVote_Marshal T a = Some bz" and "CanonicalVote_Marshal T b = Some bz"
    and "injective_encoder T" and "in32 (cv_Type a)" "in32 (cv_Type b)" "in64 (cv_Height a)" "in64 (cv_Height b)"
    and "in64 (cv_Round a)" "in64 (cv_Round b)"
  shows "a = b"
proof -
  obtain ta tb where T: "T (cv_Timestamp a) = Some ta" "T (cv_Timestamp b) = Some tb"
    using assms(1,2) by (auto simp: CanonicalVote_Marshal_def split: bind_splits)
  let ?r5 = "\<lambda>m. bytes_field 0x32 (cv_ChainID m)"
  let ?r4 = "\<lambda>m ts. message_field 0x2a ts @ ?r5 m"
  let ?r3 = "\<lambda>m ts. block_field 0x22 (cv_BlockID m) @ ?r4 m ts"
  let ?r2 = "\<lambda>m ts. fixed64_field 0x19 (cv_Round m) @ ?r3 m ts"
  let ?r1 = "\<lambda>m ts. fixed64_field 0x11 (cv_Height m) @ ?r2 m ts"
  have "varint_field 0x8 (uint64_of (cv_Type a)) @ ?r1 a ta = varint_field 0x8 (uint64_of (cv_Type b)) @ ?r1 b tb"
    using assms(1,2) T by (simp add: CanonicalVote_Marshal_def block_field_def)
  from varint_field_cancel [OF this]
  have ty: "uint64_of (cv_Type a) = uint64_of (cv_Type b)" and 1: "?r1 a ta = ?r1 b tb" by (simp_all add: pb_field_simps)
  from fixed64_field_cancel [OF 1] have h: "cv_Height a = cv_Height b" and 2: "?r2 a ta = ?r2 b tb"
    using assms by (simp_all add: pb_field_simps)
  from fixed64_field_cancel [OF 2] have r: "cv_Round a = cv_Round b" and 3: "?r3 a ta = ?r3 b tb"
    using assms by (simp_all add: pb_field_simps)
  from block_field_cancel [OF 3] have bl: "cv_BlockID a = cv_BlockID b" and 4: "?r4 a ta = ?r4 b tb"
    by (simp_all add: pb_field_simps)
  from message_field_cancel [OF 4] have ts: "ta = tb" and 5: "?r5 a = ?r5 b" by simp_all
  have "cv_ChainID a = cv_ChainID b"
    using bytes_field_cancel [of "0x32" "cv_ChainID a" "[]" "cv_ChainID b" "[]"] 5 by (simp add: pb_field_simps)
  moreover have "cv_Type a = cv_Type b" using ty uint64_of_inj assms in32_in64 by blast
  moreover have "cv_Timestamp a = cv_Timestamp b" using T ts assms(3) by (auto simp: injective_encoder_def)
  ultimately show ?thesis using h r bl by (cases a; cases b) simp
qed

lemma MarshalDelimited_inj: "MarshalDelimited a = MarshalDelimited b \<Longrightarrow> a = b"
  using encodeByteSlice_prefix_free [of a "[]" b "[]"] by (simp add: MarshalDelimited_def encodeByteSlice_def)

lemma VoteSignBytes_Ret:
  assumes "VoteSignBytes T chainID v = Some bz"
  shows "\<exists>m. CanonicalVote_Marshal T \<lparr>cv_Type = v_Type v, cv_Height = v_Height v, cv_Round = v_Round v,
      cv_BlockID = (if BlockID_IsZero (v_BlockID v) then None else Some (v_BlockID v)),
      cv_Timestamp = v_Timestamp v, cv_ChainID = chainID\<rparr> = Some m \<and> bz = MarshalDelimited m"
  using assms by (auto simp: VoteSignBytes_def CanonicalizeVote_def split: bind_splits dest!: CanonicalizeBlockID_Ret)

section \<open>Properties\<close>

text \<open>A concrete encoder of times: minutes since the zero time in one byte.\<close>

definition ex_time :: time_encoder where
  "ex_time t = (if 0 \<le> t \<and> t < 256 then Some [word_of_int t] else None)"

lemma ex_time_injective: "injective_encoder ex_time"
proof -
  have "uint (word_of_int a :: byte) = a" if "0 \<le> a" "a < 256" for a
    using that by (simp add: uint_word_of_int_eq take_bit_int_eq_self_iff)
  then have "a = b" if "0 \<le> a" "a < 256" "0 \<le> b" "b < 256" "(word_of_int a :: byte) = word_of_int b" for a b
    using that by metis
  then show ?thesis by (auto simp: injective_encoder_def ex_time_def split: if_splits)
qed

definition ex_vote :: Vote where
  "ex_vote = \<lparr>v_Type = PrecommitType, v_Height = 7, v_Round = 1, v_BlockID = zero_BlockID, v_Timestamp = 9,
     v_ValidatorAddress = [], v_ValidatorIndex = 0, v_Signature = Some [1]\<rparr>"

lemma ex_vote_signed: "\<exists>bz. VoteSignBytes ex_time [99] ex_vote = Ret bz"
  by (simp add: VoteSignBytes_def CanonicalizeVote_def CanonicalVote_Marshal_def ex_time_def ex_vote_def
      CanonicalizeBlockID_def BlockIDFromProto_valid BlockID_ValidateBasic_def PartSetHeader_ValidateBasic_def
      ValidateHash_def zero_BlockID_def zero_PartSetHeader_def)

lemma VoteSignBytes_inj:
  assumes "VoteSignBytes stdTime c1 v1 = Ret bz" and "VoteSignBytes stdTime c2 v2 = Ret bz"
    and "injective_encoder stdTime" and "vote_in_range v1" and "vote_in_range v2"
  shows "c1 = c2 \<and> signed_content v1 = signed_content v2"
proof -
  obtain m where m: "CanonicalVote_Marshal stdTime \<lparr>cv_Type = v_Type v1, cv_Height = v_Height v1, cv_Round = v_Round v1,
      cv_BlockID = (if BlockID_IsZero (v_BlockID v1) then None else Some (v_BlockID v1)),
      cv_Timestamp = v_Timestamp v1, cv_ChainID = c1\<rparr> = Some m" "bz = MarshalDelimited m"
    using VoteSignBytes_Ret [OF assms(1)] by blast
  obtain n where n: "CanonicalVote_Marshal stdTime \<lparr>cv_Type = v_Type v2, cv_Height = v_Height v2, cv_Round = v_Round v2,
      cv_BlockID = (if BlockID_IsZero (v_BlockID v2) then None else Some (v_BlockID v2)),
      cv_Timestamp = v_Timestamp v2, cv_ChainID = c2\<rparr> = Some n" "bz = MarshalDelimited n"
    using VoteSignBytes_Ret [OF assms(2)] by blast
  have "m = n" using m(2) n(2) MarshalDelimited_inj by simp
  from CanonicalVote_Marshal_inj [OF m(1) n(1) [folded this] assms(3)] assms(4,5)
  show ?thesis
    by (auto simp: vote_in_range_def in32_in64 signed_content_def BlockID_zero_iff split: if_splits)
qed

text \<open>
  C26. A signature binds the vote: when two votes within the integer ranges have the same sign bytes, for
  possibly different chains, then the chains, types, heights, rounds, block identifiers and timestamps
  are the same, provided the encoder of times is injective.
\<close>

theorem VoteSignBytes_binding:
  assumes "VoteSignBytes stdTime c1 v1 = Ret bz" and "VoteSignBytes stdTime c2 v2 = Ret bz"
    and "injective_encoder stdTime" and "vote_in_range v1" and "vote_in_range v2"
  shows "c1 = c2 \<and> signed_content v1 = signed_content v2"
  using VoteSignBytes_inj [OF assms] .

theorem VoteSignBytes_binding_witness:
  "\<exists>bz. VoteSignBytes ex_time [99] ex_vote = Ret bz
     \<and> (\<forall>c v. VoteSignBytes ex_time c v = Ret bz \<longrightarrow> vote_in_range v \<longrightarrow> c = [99] \<and> signed_content v = signed_content ex_vote)"
proof -
  have r: "vote_in_range ex_vote" by (simp add: vote_in_range_def ex_vote_def PrecommitType_def in32_def in64_def int_limits)
  obtain bz where "VoteSignBytes ex_time [99] ex_vote = Ret bz" using ex_vote_signed by blast
  then show ?thesis using VoteSignBytes_binding [OF _ _ ex_time_injective _ r] by blast
qed

text \<open>
  C28. Votes and proposals are signed apart: the sign bytes of a prevote or precommit never equal
  the sign bytes of a proposal.
\<close>

theorem vote_is_not_proposal:
  assumes "VoteSignBytes stdTime c1 v = Ret bz" and "IsVoteTypeValid (v_Type v)"
  shows "ProposalSignBytes stdTime c2 p \<noteq> Ret bz"
proof
  assume p: "ProposalSignBytes stdTime c2 p = Ret bz"
  obtain m where m: "CanonicalVote_Marshal stdTime \<lparr>cv_Type = v_Type v, cv_Height = v_Height v, cv_Round = v_Round v,
      cv_BlockID = (if BlockID_IsZero (v_BlockID v) then None else Some (v_BlockID v)),
      cv_Timestamp = v_Timestamp v, cv_ChainID = c1\<rparr> = Some m" "bz = MarshalDelimited m"
    using VoteSignBytes_Ret [OF assms(1)] by blast
  obtain cb n where n: "CanonicalProposal_Marshal stdTime \<lparr>cp_Type = ProposalType, cp_Height = p_Height p,
      cp_Round = p_Round p, cp_POLRound = p_POLRound p, cp_BlockID = cb, cp_Timestamp = p_Timestamp p,
      cp_ChainID = c2\<rparr> = Some n" "bz = MarshalDelimited n"
    using p by (auto simp: ProposalSignBytes_def CanonicalizeProposal_def split: bind_splits)
  have "m = n" using m(2) n(2) MarshalDelimited_inj by simp
  obtain x y where "varint_field 0x8 (uint64_of (v_Type v)) @ x = m" "varint_field 0x8 (uint64_of ProposalType) @ y = n"
    using m(1) n(1) by (auto simp: CanonicalVote_Marshal_def CanonicalProposal_Marshal_def split: bind_splits)
  then have "varint_field 0x8 (uint64_of (v_Type v)) @ x = varint_field 0x8 (uint64_of ProposalType) @ y"
    using \<open>m = n\<close> by simp
  moreover have "uint64_of (v_Type v) \<in> {1, 2}" "uint64_of ProposalType = 32"
    using assms(2) by (auto simp: IsVoteTypeValid_def uint64_of_def PrevoteType_def PrecommitType_def ProposalType_def)
  ultimately show False
    using uvarint_prefix_free [of "uint64_of (v_Type v)" x 32 y] by (auto simp: varint_field_def)
qed

theorem vote_is_not_proposal_witness:
  "\<exists>bz. VoteSignBytes ex_time [99] ex_vote = Ret bz \<and> (\<forall>p. ProposalSignBytes ex_time [99] p \<noteq> Ret bz)"
proof -
  have t: "IsVoteTypeValid (v_Type ex_vote)" by (simp add: IsVoteTypeValid_def ex_vote_def)
  obtain bz where "VoteSignBytes ex_time [99] ex_vote = Ret bz" using ex_vote_signed by blast
  then show ?thesis using vote_is_not_proposal [OF _ t] by blast
qed

end
