(* ===== verification/Voter_Election.thy ===== *)
theory Voter_Election
  imports Voter_Set
begin

text \<open>
  Correctness of the election of voters: the loop of \<^verbatim>\<open>electVotersNonDup\<close> always ends without a panic
  when some validator has power, elects distinct validators, keeps the weights within the total
  power, and stops early only when no coalition of tolerable power holds a third of the weight.
\<close>

section \<open>Sums\<close>

definition sum_weights :: "Validator list \<Rightarrow> int" where
  "sum_weights vs = sum_list (map VotingWeight vs)"

lemma foldl_wrap_sum:
  fixes f :: "'a \<Rightarrow> int"
  assumes "\<forall>x \<in> set xs. 0 \<le> f x" and "0 \<le> s" and "s + sum_list (map f xs) \<le> MaxInt64"
  shows "foldl (\<lambda>s v. wrap64 (s + f v)) s xs = s + sum_list (map f xs)"
  using assms
proof (induction xs arbitrary: s)
  case (Cons x xs)
  have "0 \<le> sum_list (map f xs)" using Cons.prems(1) by (auto intro!: sum_list_nonneg)
  then have "wrap64 (s + f x) = s + f x" using Cons.prems by (intro wrap64_id) (auto simp: in64_def int_limits)
  then show ?case using Cons.IH [of "s + f x"] Cons.prems by (simp add: add.assoc)
qed simp

lemma sum_list_div_le:
  fixes f :: "'a \<Rightarrow> int"
  assumes "0 < t"
  shows "sum_list (map (\<lambda>x. f x div t) xs) \<le> sum_list (map f xs) div t"
proof -
  have "t * sum_list (map (\<lambda>x. f x div t) xs) \<le> sum_list (map f xs)"
  proof (induction xs)
    case (Cons x xs)
    have "t * (f x div t) \<le> f x" using minus_mod_eq_mult_div [of "f x" t] pos_mod_sign [OF assms, of "f x"] by linarith
    then show ?case using Cons.IH by (simp add: distrib_left)
  qed simp
  then show ?thesis using assms zdiv_mono1 [of "t * sum_list (map (\<lambda>x. f x div t) xs)" _ t] by simp
qed

section \<open>The weight of a coalition\<close>

interpretation by_ratio: sort_on voter_less
  "\<lambda>v. (- (rat_of_int (VotingWeight (voter_val v)) / rat_of_int (VotingPower (voter_val v))), Address (voter_val v))"
  "{v. 0 < VotingPower (voter_val v)}"
proof unfold_locales
  fix x y :: voter assume xy: "x \<in> {v. 0 < VotingPower (voter_val v)}" "y \<in> {v. 0 < VotingPower (voter_val v)}"
  let ?a = "VotingWeight (voter_val x)" and ?p = "VotingPower (voter_val x)"
  let ?b = "VotingWeight (voter_val y)" and ?q = "VotingPower (voter_val y)"
  have "rat_of_int ?b / of_int ?q < rat_of_int ?a / of_int ?p \<longleftrightarrow> ?b * ?p < ?a * ?q"
    using xy by (simp add: divide_simps mult.commute flip: of_int_mult)
  moreover have "rat_of_int ?b / of_int ?q = rat_of_int ?a / of_int ?p \<longleftrightarrow> ?b * ?p = ?a * ?q"
    using xy by (simp add: divide_simps mult.commute flip: of_int_mult)
  ultimately show "voter_less x y \<longleftrightarrow>
      (- (rat_of_int ?a / rat_of_int ?p), Address (voter_val x)) < (- (rat_of_int ?b / rat_of_int ?q), Address (voter_val y))"
    unfolding voter_less_def Let_def less_prod_simp neg_less_iff_less neg_le_iff_le
    by (cases "?b * ?p" "?a * ?q" rule: linorder_cases) simp_all
qed

definition heavier :: "Validator \<Rightarrow> Validator \<Rightarrow> bool" where
  "heavier a b \<longleftrightarrow> VotingWeight b * VotingPower a \<le> VotingWeight a * VotingPower b"

lemma sortVoters_heavier:
  assumes "\<forall>v \<in> set vs. 0 < VotingPower (voter_val v)"
  shows "sorted_wrt heavier (map voter_val (sortVoters vs))"
proof -
  let ?r = "\<lambda>v. rat_of_int (VotingWeight (voter_val v)) / rat_of_int (VotingPower (voter_val v))"
  have pos: "\<forall>v \<in> set (sortVoters vs). 0 < VotingPower (voter_val v)"
    using assms by (simp add: sortVoters_def)
  have "sorted (map (\<lambda>v. (- ?r v, Address (voter_val v))) (sortVoters vs))"
    unfolding sortVoters_def using assms by (intro by_ratio.sorted_sort_by_on) auto
  then have "sorted_wrt (\<lambda>x y. (- ?r x, Address (voter_val x)) \<le> (- ?r y, Address (voter_val y))) (sortVoters vs)"
    by (simp add: sorted_map)
  then have "sorted_wrt (\<lambda>x y. heavier (voter_val x) (voter_val y)) (sortVoters vs)"
  proof (rule sorted_wrt_mono_rel [rotated])
    fix x y assume "x \<in> set (sortVoters vs)" "y \<in> set (sortVoters vs)"
      and le: "(- ?r x, Address (voter_val x)) \<le> (- ?r y, Address (voter_val y))"
    then have px: "0 < VotingPower (voter_val x)" and py: "0 < VotingPower (voter_val y)" using pos by auto
    have "?r y \<le> ?r x" using le by (auto simp: less_eq_prod_def)
    then have "rat_of_int (VotingWeight (voter_val y) * VotingPower (voter_val x))
        \<le> rat_of_int (VotingWeight (voter_val x) * VotingPower (voter_val y))"
      using px py by (simp add: divide_simps mult.commute)
    then show "heavier (voter_val x) (voter_val y)" by (simp only: heavier_def of_int_le_iff)
  qed
  then show ?thesis by (simp add: sorted_wrt_map)
qed

lemma top_byzantine_prefix:
  assumes "\<forall>v \<in> set vs. 0 \<le> VotingPower (voter_val v) \<and> 0 \<le> VotingWeight (voter_val v)"
    and "0 \<le> p" and "0 \<le> w" and "p + sum_powers (map voter_val vs) \<le> MaxInt64"
    and "w + sum_weights (map voter_val vs) \<le> MaxInt64"
  shows "\<exists>pre suf. vs = pre @ suf \<and> top_byzantine tol p w vs = w + sum_weights (map voter_val pre)
    \<and> (suf = [] \<or> pre \<noteq> [] \<and> tol \<le> p + sum_powers (map voter_val pre))"
  using assms
proof (induction vs arbitrary: p w)
  case (Cons v vs)
  let ?p = "p + VotingPower (voter_val v)" and ?w = "w + VotingWeight (voter_val v)"
  have nn: "0 \<le> sum_powers (map voter_val vs)" "0 \<le> sum_weights (map voter_val vs)"
    using Cons.prems(1) by (auto simp: sum_powers_def sum_weights_def intro!: sum_list_nonneg)
  have wr: "wrap64 ?p = ?p" "wrap64 ?w = ?w"
    using Cons.prems nn by (auto intro!: wrap64_id simp: in64_def int_limits sum_powers_def sum_weights_def)
  show ?case
  proof (cases "p < tol \<and> ?p \<ge> tol")
    case True
    then have "top_byzantine tol p w (v # vs) = ?w" by (simp add: wr)
    then show ?thesis using True
      by (intro exI [of _ "[v]"] exI [of _ vs]) (simp add: sum_weights_def sum_powers_def)
  next
    case False
    have "\<exists>pre suf. vs = pre @ suf \<and> top_byzantine tol ?p ?w vs = ?w + sum_weights (map voter_val pre)
      \<and> (suf = [] \<or> pre \<noteq> [] \<and> tol \<le> ?p + sum_powers (map voter_val pre))"
      using Cons.prems by (intro Cons.IH) (auto simp: sum_powers_def sum_weights_def)
    then obtain pre suf where "vs = pre @ suf" "top_byzantine tol ?p ?w vs = ?w + sum_weights (map voter_val pre)"
      "suf = [] \<or> pre \<noteq> [] \<and> tol \<le> ?p + sum_powers (map voter_val pre)" by blast
    moreover have "top_byzantine tol p w (v # vs) = top_byzantine tol ?p ?w vs" using False by (auto simp: wr)
    ultimately show ?thesis
      by (intro exI [of _ "v # pre"] exI [of _ suf]) (auto simp: sum_weights_def sum_powers_def)
  qed
qed (simp add: sum_weights_def)

lemma sum_mset_le_scaled:
  fixes f g :: "'a \<Rightarrow> int"
  assumes "\<And>x. x \<in># M \<Longrightarrow> c * f x \<le> d * g x"
  shows "c * sum_mset (image_mset f M) \<le> d * sum_mset (image_mset g M)"
  using assms by (induction M) (simp_all add: distrib_left add_mono)

text \<open>
  The exchange argument: in a list sorted by weight per power, no part of at most the power of a
  prefix weighs more than the prefix.
\<close>

lemma prefix_is_heaviest:
  fixes S :: "Validator multiset"
  assumes sorted: "sorted_wrt heavier (pre @ suf)" and ne: "pre \<noteq> []"
    and pos: "\<forall>v \<in> set (pre @ suf). 0 < VotingPower v \<and> 0 \<le> VotingWeight v"
    and sub: "S \<subseteq># mset (pre @ suf)"
    and le: "sum_mset (image_mset VotingPower S) \<le> sum_powers pre"
  shows "sum_mset (image_mset VotingWeight S) \<le> sum_weights pre"
proof -
  let ?P = "mset pre"
  let ?pw = "\<lambda>M. sum_mset (image_mset VotingPower M)" and ?wt = "\<lambda>M. sum_mset (image_mset VotingWeight M)"
  define x where "x = last pre"
  have x: "x \<in> set pre" using ne by (simp add: x_def)
  have S: "S = (S \<inter># ?P) + (S - ?P)" and P: "?P = (S \<inter># ?P) + (?P - S)"
    by (auto simp: multiset_eq_iff)
  have pwS: "?pw S = ?pw (S \<inter># ?P) + ?pw (S - ?P)" and wtS: "?wt S = ?wt (S \<inter># ?P) + ?wt (S - ?P)"
    using arg_cong [OF S, of ?pw] arg_cong [OF S, of ?wt] by simp_all
  have pwP: "?pw ?P = ?pw (S \<inter># ?P) + ?pw (?P - S)" and wtP: "?wt ?P = ?wt (S \<inter># ?P) + ?wt (?P - S)"
    using arg_cong [OF P, of ?pw] arg_cong [OF P, of ?wt] by simp_all
  have "?pw ?P = sum_powers pre" by (simp add: sum_powers_def sum_mset_sum_list flip: mset_map)
  then have swap: "?pw (S - ?P) \<le> ?pw (?P - S)" using le pwS pwP by simp
  have suf: "y \<in> set suf" if "y \<in># S - ?P" for y
    using mset_subset_eqD [OF _ that, of "mset suf"] sub by (simp add: subset_eq_diff_conv add.commute)
  have low: "VotingPower x * VotingWeight y \<le> VotingWeight x * VotingPower y" if "y \<in># S - ?P" for y
    using sorted suf [OF that] x by (auto simp: sorted_wrt_append heavier_def mult.commute)
  have high: "VotingWeight x * VotingPower y \<le> VotingPower x * VotingWeight y" if "y \<in> set pre" for y
  proof (cases "y = x")
    case False
    have "pre = butlast pre @ [x]" using ne by (simp add: x_def)
    moreover from this have "y \<in> set (butlast pre)" using that False
      by (metis Un_iff empty_iff insert_iff list.set(1,2) set_append)
    moreover have "sorted_wrt heavier pre" using sorted by (simp add: sorted_wrt_append)
    ultimately have "heavier y x" by (metis in_set_conv_decomp sorted_wrt_append list.set_intros(1) Un_iff set_append)
    then show ?thesis by (simp add: heavier_def mult.commute)
  qed simp
  have "VotingPower x * ?wt (S - ?P) \<le> VotingWeight x * ?pw (S - ?P)"
    by (rule sum_mset_le_scaled) (rule low)
  also have "\<dots> \<le> VotingWeight x * ?pw (?P - S)"
    using swap pos x by (simp add: mult_left_mono)
  also have "\<dots> \<le> VotingPower x * ?wt (?P - S)"
    by (rule sum_mset_le_scaled) (use high in_diffD in fastforce)
  finally have "?wt (S - ?P) \<le> ?wt (?P - S)" using pos x by simp
  moreover have "?wt ?P = sum_weights pre" by (simp add: sum_weights_def sum_mset_sum_list flip: mset_map)
  ultimately show ?thesis using wtS wtP by simp
qed

definition safe_against :: "int \<Rightarrow> Validator list \<Rightarrow> bool" where
  "safe_against tol vs \<longleftrightarrow>
     (\<forall>S. S \<subseteq># mset vs \<longrightarrow> sum_mset (image_mset VotingPower S) \<le> tol \<longrightarrow>
        3 * sum_mset (image_mset VotingWeight S) < sum_weights vs)"

lemma early_exit_safe:
  assumes pos: "\<forall>v \<in> set vs. 0 < VotingPower (voter_val v) \<and> 0 \<le> VotingWeight (voter_val v)"
    and bounds: "sum_powers (map voter_val vs) \<le> MaxInt64" "sum_weights (map voter_val vs) \<le> MaxInt64"
    and top: "getTopByzantineVotingWeight (sortVoters vs) tol < sum_weights (map voter_val vs) sdiv 3"
  shows "0 < sum_weights (map voter_val vs) \<and> safe_against tol (map voter_val (sortVoters vs))"
  unfolding safe_against_def
proof (intro conjI allI impI)
  let ?vs = "sortVoters vs"
  have same: "sum_powers (map voter_val ?vs) = sum_powers (map voter_val vs)"
      "sum_weights (map voter_val ?vs) = sum_weights (map voter_val vs)"
    by (simp_all add: sortVoters_def sum_powers_def sum_weights_def comp_def)
  have pos': "\<forall>v \<in> set (map voter_val ?vs). 0 < VotingPower v \<and> 0 \<le> VotingWeight v"
    using pos by (simp add: sortVoters_def)
  have "\<exists>pre suf. ?vs = pre @ suf \<and> top_byzantine tol 0 0 ?vs = 0 + sum_weights (map voter_val pre)
    \<and> (suf = [] \<or> pre \<noteq> [] \<and> tol \<le> 0 + sum_powers (map voter_val pre))"
    using pos' bounds same by (intro top_byzantine_prefix) (auto simp: less_imp_le)
  then obtain pre suf where ps: "?vs = pre @ suf"
      "top_byzantine tol 0 0 ?vs = sum_weights (map voter_val pre)"
      "suf = [] \<or> pre \<noteq> [] \<and> tol \<le> sum_powers (map voter_val pre)"
    unfolding add_0 by blast
  have "0 \<le> sum_weights (map voter_val vs)"
    using pos by (auto simp: sum_weights_def intro!: sum_list_nonneg)
  then have third: "3 * sum_weights (map voter_val pre) < sum_weights (map voter_val ?vs)"
    using top ps(2) same by (simp add: getTopByzantineVotingWeight_def sdiv_nonneg)
  have "0 \<le> sum_weights (map voter_val pre)"
    using pos' ps(1) by (auto simp: sum_weights_def intro!: sum_list_nonneg)
  then show "0 < sum_weights (map voter_val vs)" using third same by simp
  fix S assume S: "S \<subseteq># mset (map voter_val ?vs)" "sum_mset (image_mset VotingPower S) \<le> tol"
  have "sum_mset (image_mset VotingWeight S) \<le> sum_weights (map voter_val pre)"
  proof (cases "suf = []")
    case True
    obtain T where T: "mset (map voter_val ?vs) = S + T" using S(1) by (auto simp: subset_mset.le_iff_add)
    have "\<forall>v. v \<in># T \<longrightarrow> 0 \<le> VotingWeight v" 
    proof (intro allI impI)
      fix v assume "v \<in># T"
      then have "v \<in># mset (map voter_val ?vs)" unfolding T by simp
      then have "v \<in> set (map voter_val ?vs)" unfolding set_mset_mset .
      then show "0 \<le> VotingWeight v" using pos' by blast
    qed
    then have "0 \<le> sum_mset (image_mset VotingWeight T)" by (induction T) auto
    moreover have "sum_weights (map voter_val ?vs) = sum_mset (image_mset VotingWeight (mset (map voter_val ?vs)))"
      by (simp add: sum_weights_def sum_mset_sum_list comp_def flip: mset_map)
    ultimately show ?thesis using True ps(1) T by simp
  next
    case False
    have "sorted_wrt heavier (map voter_val pre @ map voter_val suf)"
      using sortVoters_heavier [of vs] pos ps(1) by simp
    then show ?thesis using False ps S pos' by (intro prefix_is_heaviest [of _ "map voter_val suf"]) auto
  qed
  then show "3 * sum_mset (image_mset VotingWeight S) < sum_weights (map voter_val ?vs)" using third by simp
qed

section \<open>One pass of the loop\<close>

definition ident :: "Validator \<Rightarrow> Validator" where
  "ident v = v\<lparr>VotingWeight := 0\<rparr>"

lemma ident_simps [simp]:
  "VotingPower (ident v) = VotingPower v" "Address (ident v) = Address v"
  "ident (v\<lparr>VotingWeight := w\<rparr>) = ident v"
  by (simp_all add: ident_def)

lemma big_Div_pos: "0 < b \<Longrightarrow> big_Div a b = Ret (a div b)"
  by (simp add: big_Div_def)

lemma sum_powers_zero: "\<forall>v \<in> set vs. VotingPower v = 0 \<Longrightarrow> sum_powers vs = 0"
  by (induction vs) (auto simp: sum_powers_def)

lemma sum_powers_ident_mono:
  assumes "mset (map ident as) \<subseteq># mset (map ident bs)" and "\<forall>v \<in> set bs. 0 \<le> VotingPower v"
  shows "sum_powers as \<le> sum_powers bs"
proof -
  have ms: "sum_powers vs = sum_mset (image_mset VotingPower (mset (map ident vs)))" for vs
    by (induction vs) (simp_all add: sum_powers_def)
  obtain T where T: "mset (map ident bs) = mset (map ident as) + T"
    using assms(1) by (auto simp: subset_mset.le_iff_add)
  have nn: "\<forall>v. v \<in># T \<longrightarrow> 0 \<le> VotingPower v"
  proof (intro allI impI)
    fix v assume "v \<in># T"
    then have "v \<in># mset (map ident bs)" unfolding T by simp
    then show "0 \<le> VotingPower v" using assms(2) by auto
  qed
  then have "0 \<le> sum_mset (image_mset VotingPower T)" by (induction T) auto
  then show ?thesis unfolding ms T by simp
qed

lemma uint_word64: "0 \<le> x \<Longrightarrow> x \<le> MaxInt64 \<Longrightarrow> uint (word_of_int x :: uint64) = x"
  by (simp add: uint_word_of_int_eq take_bit_int_eq_self_iff int_limits)

lemma elect_search_finds:
  assumes "\<forall>c \<in> set cs. 0 \<le> VotingPower c" and "0 \<le> cum" and "cum + sum_powers cs \<le> MaxInt64"
    and "cs \<noteq> []" and "uint t < cum + sum_powers cs"
  shows "\<exists>j w. elect_search t i cum cs = Some (j, w)"
  using assms
proof (induction cs arbitrary: i cum)
  case (Cons c cs)
  let ?cum = "cum + VotingPower c"
  have nn: "0 \<le> sum_powers cs" using Cons.prems(1) by (auto simp: sum_powers_def intro!: sum_list_nonneg)
  then have wr: "wrap64 ?cum = ?cum"
    using Cons.prems by (intro wrap64_id) (auto simp: in64_def int_limits sum_powers_def)
  have u: "uint (word_of_int ?cum :: uint64) = ?cum"
    using Cons.prems nn by (intro uint_word64) (auto simp: sum_powers_def)
  show ?case
  proof (cases "t < word_of_int ?cum")
    case False
    then have "?cum \<le> uint t" using u by (simp add: word_less_def)
    then have "cs \<noteq> []" using Cons.prems(5) by (auto simp: sum_powers_def)
    moreover have "uint t < ?cum + sum_powers cs" using Cons.prems(5) by (simp add: sum_powers_def)
    ultimately have "\<exists>j w. elect_search t (Suc i) ?cum cs = Some (j, w)"
      using Cons.prems by (intro Cons.IH) (auto simp: sum_powers_def)
    then show ?thesis using False by (simp add: wr)
  qed (simp add: wr)
qed simp

lemma electVoter_finds:
  assumes "\<forall>c \<in> set ls. 0 < VotingPower c" and "ls \<noteq> []" and "sum_powers ls \<le> MaxInt64"
    and "length ws = k"
  shows "\<exists>seed' i. electVoter seed (ls @ ws) k (sum_powers ls) = Ret (seed', i, ls ! i) \<and> i < length ls"
proof -
  obtain seed' t where rt: "RandomThreshold seed (word_of_int (sum_powers ls)) = (seed', t)" by fastforce
  have pos: "0 < sum_powers ls"
    using assms(1,2) sum_list_nonneg [of "map VotingPower (tl ls)"]
    by (cases ls) (force simp: sum_powers_def less_imp_le)+
  then have u: "uint (word_of_int (sum_powers ls) :: uint64) = sum_powers ls" using assms(3) by (intro uint_word64) auto
  then have "(0 :: uint64) < word_of_int (sum_powers ls)" using pos by (simp add: word_less_def)
  from RandomThreshold_less [OF this, of seed] have "uint t < sum_powers ls"
    using u by (simp add: rt word_less_def)
  then obtain j w where j: "elect_search t 0 0 ls = Some (j, w)"
    using elect_search_finds [of ls 0 t 0] assms by (auto simp: less_imp_le)
  then show ?thesis using elect_search_bound [OF j] assms(4) rt by (simp add: electVoter_def)
qed

lemma accumulateWinPoints_total:
  assumes "0 \<le> losers" and "\<forall>v \<in> set voters. 0 < VotingPower (voter_val v)"
  shows "accumulateWinPoints losers voters = Ret (map (\<lambda>v. v\<lparr>winPoint := winPoint v
     + VotingPower (voter_val v) * 1000 div (losers + VotingPower (voter_val v))\<rparr>) voters)"
  unfolding accumulateWinPoints_def
  by (rule map_go_map) (use assms in \<open>simp add: big_Div_pos add_nonneg_pos precisionForSelection_def\<close>)

definition weigh :: "int \<Rightarrow> int \<Rightarrow> voter \<Rightarrow> voter" where
  "weigh tvp t v = v\<lparr>voter_val := (voter_val v)\<lparr>VotingWeight := winPoint v * tvp div t\<rparr>\<rparr>"

lemma calculateVotingWeight_total:
  assumes ne: "voters \<noteq> []" and wp: "\<forall>v \<in> set voters. 0 < winPoint v" and tvp: "0 \<le> tvp" "tvp \<le> MaxTotalVotingPower"
  defines "vs \<equiv> map (weigh tvp (sum_list (map winPoint voters))) voters"
  shows "calculateVotingWeight tvp voters = Ret (vs, sum_weights (map voter_val vs))
    \<and> sum_weights (map voter_val vs) \<le> tvp \<and> (\<forall>v \<in> set vs. 0 \<le> VotingWeight (voter_val v))"
proof -
  let ?t = "sum_list (map winPoint voters)"
  have t: "0 < ?t"
    using ne wp sum_list_nonneg [of "map winPoint (tl voters)"] by (cases voters) (force simp: less_imp_le)+
  have nn: "\<forall>v \<in> set vs. 0 \<le> VotingWeight (voter_val v)"
    using wp tvp t by (auto simp: vs_def weigh_def pos_imp_zdiv_nonneg_iff less_imp_le)
  have "sum_weights (map voter_val vs) = sum_list (map (\<lambda>v. winPoint v * tvp div ?t) voters)"
    by (simp add: vs_def sum_weights_def weigh_def comp_def)
  also have "\<dots> \<le> sum_list (map (\<lambda>v. winPoint v * tvp) voters) div ?t" using sum_list_div_le [OF t] .
  also have "\<dots> = tvp" using t by (simp add: sum_list_mult_const)
  finally have sw: "sum_weights (map voter_val vs) \<le> tvp" .
  have set: "set_weight tvp ?t v = Ret (weigh tvp ?t v)" if v: "v \<in> set voters" for v
  proof -
    have le: "winPoint v * tvp div ?t \<le> tvp"
    proof -
      have "VotingWeight (voter_val (weigh tvp ?t v)) \<le> sum_weights (map voter_val vs)"
        unfolding sum_weights_def map_map comp_def using v nn
        by (intro sum_list_member_le [of vs "\<lambda>v. VotingWeight (voter_val v)"]) (auto simp: vs_def)
      then show ?thesis using sw by (simp add: weigh_def)
    qed
    have "winPoint v * 1000 * tvp div ?t div 1000 = (winPoint v * tvp) * 1000 div (?t * 1000)"
      by (simp add: div_mult2_eq [symmetric] ac_simps zdiv_zmult2_eq [symmetric])
    also have "\<dots> = winPoint v * tvp div ?t" by simp
    finally have q: "winPoint v * 1000 * tvp div ?t div 1000 = winPoint v * tvp div ?t" .
    have "wrap64 (winPoint v * tvp div ?t) = winPoint v * tvp div ?t"
      using le tvp t wp v
      by (intro wrap64_id) (auto simp: in64_def max_power pos_imp_zdiv_nonneg_iff less_imp_le intro: order_trans [of _ 0])
    then show ?thesis
      using t q by (simp add: set_weight_def big_Div_pos precisionForSelection_def precisionCorrectionForSelection_def weigh_def)
  qed
  have "foldl (\<lambda>s v. wrap64 (s + VotingWeight (voter_val v))) 0 vs = sum_weights (map voter_val vs)"
    using foldl_wrap_sum [of vs "\<lambda>v. VotingWeight (voter_val v)" 0] nn sw tvp
    by (simp add: sum_weights_def comp_def max_power)
  moreover have "map_go (set_weight tvp ?t) voters = Ret vs"
    unfolding vs_def by (rule map_go_map) (rule set)
  ultimately show ?thesis using sw nn by (simp add: calculateVotingWeight_def)
qed

definition elect_inv ::
  "Validator list \<Rightarrow> nat \<Rightarrow> Validator list \<Rightarrow> Validator list \<Rightarrow> voter list \<Rightarrow> int \<Rightarrow> bool" where
  "elect_inv vals z ls ws voters losers \<longleftrightarrow>
     mset (map ident (ls @ ws)) = mset (map ident vals)
     \<and> length ws = z + length voters \<and> ls \<noteq> [] \<and> (\<forall>c \<in> set ls. 0 < VotingPower c) \<and> losers = sum_powers ls
     \<and> (\<forall>v \<in> set voters. 0 < VotingPower (voter_val v) \<and> 0 < winPoint v)
     \<and> mset (map (\<lambda>v. ident (voter_val v)) voters) \<subseteq># mset (map ident ws)"

text \<open>
  What the election promises: either the validators themselves with their powers as weights, or at
  least the demanded number of them, weighted within the total power and safe against a coalition of
  the tolerable power.
\<close>

definition election_ok :: "Validator list \<Rightarrow> int \<Rightarrow> int \<Rightarrow> Validator list \<Rightarrow> bool" where
  "election_ok vals tol m res \<longleftrightarrow>
     (mset (map ident res) = mset (map ident vals) \<and> (\<forall>v \<in> set res. VotingWeight v = VotingPower v))
     \<or> (mset (map ident res) \<subseteq># mset (map ident vals) \<and> m \<le> int (length res)
        \<and> (\<forall>v \<in> set res. 0 < VotingPower v \<and> 0 \<le> VotingWeight v)
        \<and> 0 < sum_weights res \<and> sum_weights res \<le> sum_powers vals \<and> safe_against tol res)"

lemma subset_mset_snoc:
  "A \<subseteq># B \<Longrightarrow> add_mset x A \<subseteq># add_mset x B"
  by simp

lemma mset_remove_nth: "i < length xs \<Longrightarrow> add_mset (f (xs ! i)) (image_mset f (mset (take i xs)) + image_mset f (mset (drop (Suc i) xs)))
    = image_mset f (mset xs)"
  by (subst (4) id_take_nth_drop) (auto simp: ac_simps)

lemma elect_pass_spec:
  assumes inv: "elect_inv vals z ls ws voters losers"
    and pos: "\<forall>v \<in> set vals. 0 \<le> VotingPower v" and tvp: "sum_powers vals \<le> MaxTotalVotingPower"
  shows "(\<exists>res. elect_pass (sum_powers vals) tol z m seed (ls @ ws) voters losers = Ret (Elected res)
      \<and> election_ok vals tol m res)
    \<or> (\<exists>seed' ls' ws' voters' losers'. elect_pass (sum_powers vals) tol z m seed (ls @ ws) voters losers
        = Ret (NextPass seed' (ls' @ ws') voters' losers') \<and> elect_inv vals z ls' ws' voters' losers'
        \<and> length ws' = Suc (length ws))"
proof -
  have cands: "mset (map ident (ls @ ws)) = mset (map ident vals)" and lw: "length ws = z + length voters"
    and ne: "ls \<noteq> []" and lpos: "\<forall>c \<in> set ls. 0 < VotingPower c" and lo: "losers = sum_powers ls"
    and vpos: "\<forall>v \<in> set voters. 0 < VotingPower (voter_val v) \<and> 0 < winPoint v"
    and sub: "mset (map (\<lambda>v. ident (voter_val v)) voters) \<subseteq># mset (map ident ws)"
    using inv by (auto simp: elect_inv_def)
  have tot0: "0 \<le> sum_powers vals" using pos by (auto simp: sum_powers_def intro!: sum_list_nonneg)
  have lo0: "0 \<le> losers" using lpos lo by (auto simp: sum_powers_def less_imp_le intro!: sum_list_nonneg)
  have "mset (map ident ls) \<subseteq># mset (map ident vals)" unfolding cands [symmetric] by simp
  then have "sum_powers ls \<le> sum_powers vals" using pos by (rule sum_powers_ident_mono)
  then have lmax: "sum_powers ls \<le> MaxInt64" using tvp by (simp add: max_power)
  define acc :: "voter \<Rightarrow> voter" where "acc = (\<lambda>v. v\<lparr>winPoint := winPoint v
     + VotingPower (voter_val v) * 1000 div (losers + VotingPower (voter_val v))\<rparr>)"
  have a: "accumulateWinPoints losers voters = Ret (map acc voters)"
    unfolding acc_def using vpos lo0 by (intro accumulateWinPoints_total) auto
  obtain seed' i where e: "electVoter seed (ls @ ws) (length (map acc voters) + z) losers = Ret (seed', i, ls ! i)"
      and i: "i < length ls"
    using electVoter_finds [OF lpos ne lmax, of ws "length (map acc voters) + z" seed] lw lo by auto
  let ?ls = "take i ls @ drop (Suc i) ls" and ?ws = "ws @ [ls ! i]"
  let ?vs = "map acc voters @ [\<lparr>voter_val = ls ! i, winPoint = precisionForSelection\<rparr>]"
  let ?losers = "wrap64 (losers - VotingPower (ls ! i))"
  have mv: "moveWinnerToLast (ls @ ws) i = Ret (?ls @ ?ws)" using i by (simp add: moveWinnerToLast_def nth_append)
  have wp: "\<forall>v \<in> set ?vs. 0 < winPoint v"
    using vpos lo0 by (auto simp: acc_def precisionForSelection_def intro!: add_pos_nonneg div_int_pos_iff [THEN iffD2])
  let ?us = "map (weigh (sum_powers vals) (sum_list (map winPoint ?vs))) ?vs"
  have c: "calculateVotingWeight (sum_powers vals) ?vs = Ret (?us, sum_weights (map voter_val ?us))"
    and sw: "sum_weights (map voter_val ?us) \<le> sum_powers vals"
    and nn: "\<forall>v \<in> set ?us. 0 \<le> VotingWeight (voter_val v)"
    using calculateVotingWeight_total [of ?vs "sum_powers vals"] wp tot0 tvp by auto
  define enough where "enough \<longleftrightarrow> m \<le> int (length ?us)"
  define us where "us = (if enough then sortVoters ?us else ?us)"
  have us: "mset us = mset ?us" "set us = set ?us" "length us = Suc (length voters)"
    by (auto simp: us_def sortVoters_def)
  have p: "elect_pass (sum_powers vals) tol z m seed (ls @ ws) voters losers =
     (if enough \<and> getTopByzantineVotingWeight us tol < sum_weights (map voter_val ?us) sdiv 3
      then Ret (Elected (map voter_val us))
      else if length us + z = length (?ls @ ?ws)
      then Ret (Elected (map (\<lambda>c. c\<lparr>VotingWeight := VotingPower c\<rparr>) (?ls @ ?ws)))
      else Ret (NextPass seed' (?ls @ ?ws) us ?losers))"
    unfolding elect_pass_def a e mv c Let_def us_def enough_def bind.simps prod.case by (simp add: mv c e)
  have upos: "\<forall>v \<in> set us. 0 < VotingPower (voter_val v) \<and> 0 < winPoint v \<and> 0 \<le> VotingWeight (voter_val v)"
    using nn wp vpos lpos i unfolding us(2) by (auto simp: weigh_def acc_def)
  have cands': "mset (map ident (?ls @ ?ws)) = mset (map ident vals)"
    unfolding cands [symmetric] by (simp add: mset_remove_nth [OF i, of ident, symmetric] add.assoc)
  have "mset (map (\<lambda>v. ident (voter_val v)) us) = image_mset (\<lambda>v. ident (voter_val v)) (mset ?us)"
    unfolding us(1) [symmetric] by simp
  then have sub': "mset (map (\<lambda>v. ident (voter_val v)) us) \<subseteq># mset (map ident ?ws)"
    using sub by (simp add: weigh_def acc_def multiset.map_comp comp_def)
  have lo': "?losers = sum_powers ?ls"
  proof -
    have "sum_powers ls = VotingPower (ls ! i) + sum_powers ?ls"
      using i by (subst (1) id_take_nth_drop [OF i]) (simp add: sum_powers_def)
    moreover have "0 \<le> sum_powers ?ls"
      using lpos by (intro sum_powers_nonneg) (auto simp: less_imp_le dest: in_set_takeD in_set_dropD)
    moreover have "0 < VotingPower (ls ! i)" using lpos i by simp
    ultimately show ?thesis using lo lmax by (subst wrap64_id) (auto simp: in64_def int_limits)
  qed
  show ?thesis
  proof (cases "enough \<and> getTopByzantineVotingWeight us tol < sum_weights (map voter_val ?us) sdiv 3")
    case True
    have usub: "mset (map ident (map voter_val us)) \<subseteq># mset (map ident vals)"
      using sub' unfolding cands' [symmetric] by (auto simp: comp_def intro: subset_mset.order_trans)
    then have up: "sum_powers (map voter_val us) \<le> sum_powers vals" using pos by (rule sum_powers_ident_mono)
    have same: "sum_powers (map voter_val us) = sum_powers (map voter_val ?us)"
        "sum_weights (map voter_val us) = sum_weights (map voter_val ?us)"
      unfolding us_def by (simp_all add: sortVoters_def sum_powers_def sum_weights_def comp_def)
    have "0 < sum_weights (map voter_val ?us) \<and> safe_against tol (map voter_val (sortVoters ?us))"
      using True upos up same sw tvp unfolding us(2)
      by (intro early_exit_safe) (auto simp: us_def max_power)
    then have "election_ok vals tol m (map voter_val us)"
      using True usub upos same sw us(3) by (auto simp: election_ok_def us_def enough_def)
    then show ?thesis using p True by auto
  next
    case False
    show ?thesis
    proof (cases "length us + z = length (?ls @ ?ws)")
      case True
      have "election_ok vals tol m (map (\<lambda>c. c\<lparr>VotingWeight := VotingPower c\<rparr>) (?ls @ ?ws))"
        using cands' by (auto simp: election_ok_def multiset.map_comp comp_def)
      then show ?thesis using p False True by auto
    next
      case ne': False
      have "?ls \<noteq> []" using ne' us(3) lw by auto
      moreover have "\<forall>c \<in> set ?ls. 0 < VotingPower c" using lpos by (auto dest: in_set_takeD in_set_dropD)
      ultimately have "elect_inv vals z ?ls ?ws us ?losers"
        using cands' us(3) lw lo' upos sub' by (auto simp: elect_inv_def)
      then show ?thesis using p False ne' by (intro disjI2 exI conjI) auto
    qed
  qed
qed

section \<open>The election\<close>

lemma elect_loop_spec:
  assumes "\<forall>v \<in> set vals. 0 \<le> VotingPower v" and "sum_powers vals \<le> MaxTotalVotingPower"
    and "elect_inv vals z ls ws voters losers"
  shows "\<exists>res. elect_loop (sum_powers vals) tol z m seed (ls @ ws) voters losers = Ret res \<and> election_ok vals tol m res"
  using assms(3)
proof (induction "length vals - length ws" arbitrary: ls ws voters losers seed rule: less_induct)
  case less
  have "length (ls @ ws) = length vals"
    using less.prems unfolding elect_inv_def by (metis length_map mset_eq_length)
  then have shorter: "length ws < length vals"
    using less.prems by (cases ls) (auto simp: elect_inv_def)
  from elect_pass_spec [OF less.prems assms(1,2), of tol m seed] show ?case
  proof (elim disjE exE conjE)
    fix res assume "elect_pass (sum_powers vals) tol z m seed (ls @ ws) voters losers = Ret (Elected res)"
      "election_ok vals tol m res"
    then show ?thesis by (subst elect_loop.simps) simp
  next
    fix seed' ls' ws' voters' losers'
    assume nx: "elect_pass (sum_powers vals) tol z m seed (ls @ ws) voters losers
        = Ret (NextPass seed' (ls' @ ws') voters' losers')"
      "elect_inv vals z ls' ws' voters' losers'" "length ws' = Suc (length ws)"
    then have "length vals - length ws' < length vals - length ws" using shorter by simp
    from less.hyps [OF this nx(2)] show ?thesis
      using nx(1) by (subst elect_loop.simps) simp
  qed
qed

interpretation by_power_desc: sort_interface validator_less "\<lambda>v. (- VotingPower v, Address v)"
  by unfold_locales (auto simp: validator_less_def)

lemma count_zero_rev:
  assumes "\<exists>v \<in> set cs. VotingPower v \<noteq> 0"
  shows "\<exists>ls zs. cs = ls @ zs \<and> count_zero (rev cs) = Ret (length zs) \<and> ls \<noteq> [] \<and> VotingPower (last ls) \<noteq> 0
    \<and> (\<forall>v \<in> set zs. VotingPower v = 0)"
  using assms
proof (induction cs rule: rev_induct)
  case (snoc c cs)
  show ?case
  proof (cases "VotingPower c = 0")
    case True
    then obtain ls zs where "cs = ls @ zs" "count_zero (rev cs) = Ret (length zs)" "ls \<noteq> []"
      "VotingPower (last ls) \<noteq> 0" "\<forall>v \<in> set zs. VotingPower v = 0" using snoc by auto
    then show ?thesis using True by (intro exI [of _ ls] exI [of _ "zs @ [c]"]) simp
  qed (auto intro!: exI [of _ "cs @ [c]"])
qed simp

lemma electVotersNonDup_spec:
  assumes pos: "\<forall>v \<in> set vals. 0 \<le> VotingPower v" and tot: "0 < sum_powers vals" "sum_powers vals \<le> MaxTotalVotingPower"
    and percent: "percent < BftMaxTolerableByzantinePercentage"
  shows "\<exists>res. electVotersNonDup vals seed percent m = Ret res
    \<and> election_ok vals (getTolerableByzantinePower (sum_powers vals) percent) m res"
proof -
  let ?cs = "sortValidators vals"
  have tvp: "getTotalVotingPower vals = sum_powers vals"
    using foldl_wrap_sum [of vals VotingPower 0] pos tot(2)
    by (simp add: getTotalVotingPower_def sum_powers_def max_power)
  have "\<exists>v \<in> set ?cs. VotingPower v \<noteq> 0"
  proof (rule ccontr)
    assume "\<not> ?thesis"
    then have "sum_powers vals = 0" by (intro sum_powers_zero) (auto simp: sortValidators_def)
    then show False using tot(1) by simp
  qed
  then obtain ls zs where cs: "?cs = ls @ zs" "count_zero (rev ?cs) = Ret (length zs)" "ls \<noteq> []"
      "VotingPower (last ls) \<noteq> 0" "\<forall>v \<in> set zs. VotingPower v = 0"
    using count_zero_rev by blast
  have sorted: "sorted (map (\<lambda>v. (- VotingPower v, Address v)) ?cs)"
    unfolding sortValidators_def by (rule by_power_desc.sorted_sort_by)
  have pos': "0 \<le> VotingPower v" if "v \<in> set ls" for v
    using pos that cs(1) set_sort_by [of validator_less vals] by (auto simp: sortValidators_def)
  have lpos: "0 < VotingPower v" if v: "v \<in> set ls" for v
  proof (cases "v = last ls")
    case False
    have "ls = butlast ls @ [last ls]" using cs(3) by simp
    then have "sorted (map (\<lambda>v. (- VotingPower v, Address v)) (butlast ls @ [last ls]))" "v \<in> set (butlast ls)"
      using sorted cs(1) v False
      by (simp_all add: sorted_append) (metis Un_iff empty_iff insert_iff list.set(1,2) set_append)
    then have "VotingPower (last ls) \<le> VotingPower v" by (auto simp: sorted_append less_eq_prod_def)
    then show ?thesis using pos' [of "last ls"] cs(3,4) by simp
  qed (use pos' v cs(4) in force)
  have "sum_powers vals = sum_powers ls"
  proof -
    have "sum_powers vals = sum_powers ?cs" by (simp add: sortValidators_def sum_powers_def)
    moreover have "sum_powers zs = 0" using cs(5) by (rule sum_powers_zero)
    ultimately show ?thesis unfolding cs(1) by (simp add: sum_powers_def)
  qed
  moreover have "mset (map ident (ls @ zs)) = mset (map ident vals)"
    unfolding cs(1) [symmetric] mset_map by (simp add: sortValidators_def)
  ultimately have "elect_inv vals (length zs) ls zs [] (sum_powers vals)"
    using cs(3) lpos by (simp add: elect_inv_def)
  from elect_loop_spec [OF pos tot(2) this] show ?thesis
    using percent cs(1,2) by (simp add: electVotersNonDup_def tvp Let_def)
qed

section \<open>Voter sets\<close>

definition wf_voters :: "VoterSet \<Rightarrow> bool" where
  "wf_voters voters \<longleftrightarrow>
     distinct (map Address (Voters voters))
     \<and> (\<forall>v \<in> set (Voters voters). 0 \<le> VotingWeight v)
     \<and> sum_weights (Voters voters) \<le> MaxTotalVotingWeight
     \<and> totalVotingWeight voters = sum_weights (Voters voters)"

lemma sum_weight_total:
  assumes "\<forall>v \<in> set vs. 0 \<le> VotingWeight v" and "0 \<le> s" and "s + sum_weights vs \<le> MaxTotalVotingWeight"
  shows "sum_weight s vs = Ret (s + sum_weights vs)"
  using assms
proof (induction vs arbitrary: s)
  case (Cons v vs)
  have nn: "0 \<le> sum_weights vs" using Cons.prems(1) by (auto simp: sum_weights_def intro!: sum_list_nonneg)
  have "safeAddClip s (VotingWeight v) = s + VotingWeight v"
    using Cons.prems nn
    by (subst safeAddClip_eq) (auto simp: in64_def clip64_def sum_weights_def MaxTotalVotingWeight_def max_power)
  then show ?case using Cons.IH [of "s + VotingWeight v"] Cons.prems nn by (simp add: sum_weights_def add.assoc)
qed (simp add: sum_weights_def)

lemma WrapValidatorsToVoterSet_spec:
  assumes "distinct (map Address vs)" and "\<forall>v \<in> set vs. 0 \<le> VotingWeight v"
    and "sum_weights vs \<le> MaxTotalVotingWeight"
  shows "\<exists>voters. WrapValidatorsToVoterSet vs = Ret voters \<and> mset (Voters voters) = mset vs \<and> wf_voters voters"
proof -
  let ?vs = "sort_by ValidatorsByVotingPower vs"
  have "sum_weights ?vs = sum_weights vs" by (simp add: sum_weights_def)
  then show ?thesis using assms sum_weight_total [of ?vs 0]
    by (simp add: WrapValidatorsToVoterSet_def updateTotalVotingWeight_def wf_voters_def)
qed

lemma TotalVotingWeight_wf: "wf_voters voters \<Longrightarrow> TotalVotingWeight voters = Ret (voters, sum_weights (Voters voters))"
  using sum_weight_total [of "Voters voters" 0]
  by (auto simp: TotalVotingWeight_def updateTotalVotingWeight_def wf_voters_def)

lemma tolerable_power_covers:
  assumes "0 \<le> tvp" "tvp \<le> MaxTotalVotingPower" and "0 \<le> percent" "percent \<le> 100"
    and "100 * p \<le> percent * tvp"
  shows "p \<le> getTolerableByzantinePower tvp percent"
proof -
  let ?m = "tvp * percent"
  have m: "0 \<le> ?m" "?m \<le> tvp * 100" using assms by (auto intro: mult_left_mono)
  have "p \<le> ?m div 100" using assms(5) by (simp add: mult.commute)
  moreover have "wrap64 (if ?m div 100 * 100 < ?m then ?m div 100 + 1 else ?m div 100)
      = (if ?m div 100 * 100 < ?m then ?m div 100 + 1 else ?m div 100)"
    using m assms(2) by (intro wrap64_id) (auto simp: in64_def max_power)
  ultimately show ?thesis by (simp add: getTolerableByzantinePower_def Let_def)
qed

lemma safe_against_mono: "safe_against t vs \<Longrightarrow> mset us = mset vs \<Longrightarrow> s \<le> t \<Longrightarrow> safe_against s us"
  unfolding safe_against_def sum_weights_def
  by (metis mset_map order_trans sum_mset_sum_list)

definition all_validators_vote :: "ValidatorSet \<Rightarrow> VoterSet \<Rightarrow> bool" where
  "all_validators_vote vals voters \<longleftrightarrow>
     mset (Voters voters) = mset (map (\<lambda>v. v\<lparr>VotingWeight := VotingPower v\<rparr>) (Validators vals))"

lemma weights_are_powers:
  assumes "\<forall>v \<in> set vs. VotingWeight v = VotingPower v" and "mset (map ident vs) = mset (map ident us)"
  shows "mset vs = mset (map (\<lambda>v. v\<lparr>VotingWeight := VotingPower v\<rparr>) us)"
proof -
  let ?f = "\<lambda>v. v\<lparr>VotingWeight := VotingPower v\<rparr>"
  have f: "(ident v)\<lparr>VotingWeight := VotingPower v\<rparr> = ?f v" for v :: Validator by (simp add: ident_def)
  have "mset vs = mset (map ?f vs)" using assms(1) by (induction vs) auto
  also have "\<dots> = image_mset ?f (mset (map ident vs))" by (simp add: multiset.map_comp comp_def f)
  also have "\<dots> = mset (map ?f us)" unfolding assms(2) by (simp add: multiset.map_comp comp_def f)
  finally show ?thesis .
qed

lemma Address_of_idents: "mset (map ident vs) \<subseteq># mset (map ident us) \<Longrightarrow> mset (map Address vs) \<subseteq># mset (map Address us)"
  using image_mset_subseteq_mono [of "mset (map ident vs)" "mset (map ident us)" Address]
  by (simp add: multiset.map_comp comp_def)

lemma distinct_submset: "mset xs \<subseteq># mset ys \<Longrightarrow> distinct ys \<Longrightarrow> distinct xs"
  by (metis distinct_append mset_append mset_eq_imp_distinct_iff subset_mset.le_iff_add ex_mset)

lemma count_zero_all: "\<forall>v \<in> set vs. VotingPower v = 0 \<Longrightarrow> count_zero vs = Panic"
  by (induction vs) auto

lemma ToVoterAll_spec:
  assumes wf: "wf_vals vals"
  shows "\<exists>voters. ToVoterAll (Validators vals) = Ret voters \<and> wf_voters voters \<and> all_validators_vote vals voters"
proof -
  let ?f = "\<lambda>v. v\<lparr>VotingWeight := VotingPower v\<rparr>"
  have pos: "\<forall>v \<in> set (Validators vals). 0 < VotingPower v" using wf by (simp add: wf_vals_def)
  then have all: "filter (\<lambda>v. VotingPower v \<noteq> 0) (Validators vals) = Validators vals" by (auto simp: filter_id_conv)
  have "sum_weights (map ?f (Validators vals)) \<le> MaxTotalVotingWeight"
    using wf by (simp add: sum_weights_def comp_def wf_vals_def sum_powers_def MaxTotalVotingWeight_def)
  then have "\<exists>voters. WrapValidatorsToVoterSet (map ?f (Validators vals)) = Ret voters
      \<and> mset (Voters voters) = mset (map ?f (Validators vals)) \<and> wf_voters voters"
    using wf pos by (intro WrapValidatorsToVoterSet_spec) (auto simp: wf_vals_def comp_def less_imp_le)
  then show ?thesis unfolding ToVoterAll_def all all_validators_vote_def by blast
qed

lemma mset_sum_weights: "mset us = mset vs \<Longrightarrow> sum_weights us = sum_weights vs"
  unfolding sum_weights_def by (metis mset_map sum_mset_sum_list)

lemma all_validators_vote_weight:
  "all_validators_vote vals voters \<Longrightarrow> sum_weights (Voters voters) = sum_powers (Validators vals)"
  unfolding all_validators_vote_def
  by (drule mset_sum_weights) (simp add: sum_weights_def sum_powers_def comp_def)

definition voters_of :: "ValidatorSet \<Rightarrow> VoterSet \<Rightarrow> bool" where
  "voters_of vals voters \<longleftrightarrow> mset (map ident (Voters voters)) \<subseteq># mset (map ident (Validators vals))"

lemma all_validators_vote_voters_of: "all_validators_vote vals voters \<Longrightarrow> voters_of vals voters"
  by (simp add: all_validators_vote_def voters_of_def multiset.map_comp comp_def)

lemma elected_voters:
  assumes wf: "wf_vals vals" and ne: "Validators vals \<noteq> []" and ok: "election_ok (Validators vals) tol m res"
  shows "\<exists>voters. WrapValidatorsToVoterSet res = Ret voters \<and> wf_voters voters \<and> voters_of vals voters
    \<and> 0 < totalVotingWeight voters
    \<and> (all_validators_vote vals voters
       \<or> m \<le> int (length (Voters voters)) \<and> safe_against tol (Voters voters))"
proof -
  have pos: "\<forall>v \<in> set (Validators vals). 0 < VotingPower v" and d: "distinct (map Address (Validators vals))"
    and mx: "sum_powers (Validators vals) \<le> MaxTotalVotingPower"
    using wf by (auto simp: wf_vals_def)
  have "0 < sum_powers (Validators vals)"
    using ne pos sum_powers_nonneg [of "tl (Validators vals)"]
    by (cases "Validators vals") (auto simp: sum_powers_def)
  moreover have "\<forall>v \<in> set res. 0 \<le> VotingWeight v"
    and sub: "mset (map ident res) \<subseteq># mset (map ident (Validators vals))"
    and bound: "sum_weights res \<le> sum_powers (Validators vals)"
    and pos_or: "0 < sum_weights res \<or> sum_weights res = sum_powers (Validators vals)"
    and cases: "mset res = mset (map (\<lambda>v. v\<lparr>VotingWeight := VotingPower v\<rparr>) (Validators vals))
      \<or> m \<le> int (length res) \<and> safe_against tol res"
  proof -
    have "(\<forall>v \<in> set res. 0 \<le> VotingWeight v) \<and> mset (map ident res) \<subseteq># mset (map ident (Validators vals))
      \<and> sum_weights res \<le> sum_powers (Validators vals)
      \<and> (0 < sum_weights res \<or> sum_weights res = sum_powers (Validators vals))
      \<and> (mset res = mset (map (\<lambda>v. v\<lparr>VotingWeight := VotingPower v\<rparr>) (Validators vals))
         \<or> m \<le> int (length res) \<and> safe_against tol res)"
      using ok unfolding election_ok_def
    proof (elim disjE conjE)
      assume r: "mset (map ident res) = mset (map ident (Validators vals))" "\<forall>v \<in> set res. VotingWeight v = VotingPower v"
      note m = weights_are_powers [OF r(2,1)]
      have "\<forall>v \<in> set res. 0 \<le> VotingWeight v"
        using arg_cong [OF m, of set_mset] pos by (auto simp: less_imp_le)
      moreover have "sum_weights res = sum_powers (Validators vals)"
        using mset_sum_weights [OF m] by (simp add: sum_weights_def sum_powers_def comp_def)
      ultimately show ?thesis using r m by simp
    qed auto
    then show "\<forall>v \<in> set res. 0 \<le> VotingWeight v" "mset (map ident res) \<subseteq># mset (map ident (Validators vals))"
      "sum_weights res \<le> sum_powers (Validators vals)"
      "0 < sum_weights res \<or> sum_weights res = sum_powers (Validators vals)"
      "mset res = mset (map (\<lambda>v. v\<lparr>VotingWeight := VotingPower v\<rparr>) (Validators vals))
        \<or> m \<le> int (length res) \<and> safe_against tol res"
      by blast+
  qed
  moreover have "distinct (map Address res)" using distinct_submset [OF Address_of_idents [OF sub] d] .
  moreover have "sum_weights res \<le> MaxTotalVotingWeight" using bound mx by (simp add: MaxTotalVotingWeight_def)
  ultimately obtain voters where v: "WrapValidatorsToVoterSet res = Ret voters" "mset (Voters voters) = mset res" "wf_voters voters"
    using WrapValidatorsToVoterSet_spec [of res] by blast
  have "voters_of vals voters" using sub v(2) by (simp add: voters_of_def)
  moreover have "0 < totalVotingWeight voters"
    using v(3) mset_sum_weights [OF v(2)] pos_or \<open>0 < sum_powers (Validators vals)\<close> by (auto simp: wf_voters_def)
  moreover have "all_validators_vote vals voters \<or> m \<le> int (length (Voters voters)) \<and> safe_against tol (Voters voters)"
    using cases v(2) safe_against_mono [of tol res "Voters voters" tol] mset_eq_length [OF v(2)]
    by (auto simp: all_validators_vote_def)
  ultimately show ?thesis using v by blast
qed

section \<open>Properties\<close>

text \<open>
  C3. Byzantine coalitions stay below a third: on a well-formed non-empty validator set \<^verbatim>\<open>SelectVoter\<close>
  never panics. The voters are distinct validators of the set, the cached total is the sum of their
  weights, within the maximum and positive. Either every validator votes with its power as weight,
  or at least \<^verbatim>\<open>VoterElectionThreshold\<close> voters were elected and every coalition of voters whose voting
  power is at most \<^verbatim>\<open>MaxTolerableByzantinePercentage\<close> percent of the whole validator set has less than a
  third of the voting weight.
\<close>

theorem SelectVoter_safe:
  assumes "wf_vals vals" and "Validators vals \<noteq> []" and "0 \<le> MaxTolerableByzantinePercentage params"
  shows "\<exists>voters. SelectVoter vals proofHash params = Ret voters \<and> wf_voters voters \<and> voters_of vals voters
    \<and> 0 < totalVotingWeight voters
    \<and> (all_validators_vote vals voters
       \<or> VoterElectionThreshold params \<le> int (length (Voters voters))
         \<and> (\<forall>S. S \<subseteq># mset (Voters voters)
              \<longrightarrow> 100 * sum_mset (image_mset VotingPower S)
                  \<le> MaxTolerableByzantinePercentage params * totalVotingPower vals
              \<longrightarrow> 3 * sum_mset (image_mset VotingWeight S) < totalVotingWeight voters))"
proof (cases "length proofHash = 0 \<or> ValidatorSet_Size vals \<le> VoterElectionThreshold params
    \<or> MaxTolerableByzantinePercentage params \<ge> BftMaxTolerableByzantinePercentage")
  case True
  obtain voters where v: "ToVoterAll (Validators vals) = Ret voters" "wf_voters voters" "all_validators_vote vals voters"
    using ToVoterAll_spec [OF assms(1)] by blast
  have "0 < totalVotingPower vals"
    using assms(1,2) sum_powers_nonneg [of "tl (Validators vals)"]
    by (cases "Validators vals") (auto simp: sum_powers_def wf_vals_def)
  then have "0 < totalVotingWeight voters"
    using v assms(1) all_validators_vote_weight [OF v(3)] by (simp add: wf_voters_def wf_vals_def)
  moreover have "SelectVoter vals proofHash params = Ret voters"
    unfolding SelectVoter_def using True v(1) by (simp only: if_True)
  ultimately show ?thesis using v all_validators_vote_voters_of by blast
next
  case False
  let ?p = "MaxTolerableByzantinePercentage params"
  let ?tol = "getTolerableByzantinePower (sum_powers (Validators vals)) ?p"
  have wf: "\<forall>v \<in> set (Validators vals). 0 < VotingPower v" "sum_powers (Validators vals) \<le> MaxTotalVotingPower"
    "totalVotingPower vals = sum_powers (Validators vals)" using assms(1) by (auto simp: wf_vals_def)
  have tot: "0 < sum_powers (Validators vals)"
    using assms(2) wf sum_powers_nonneg [of "tl (Validators vals)"]
    by (cases "Validators vals") (auto simp: sum_powers_def)
  obtain res where r: "electVotersNonDup (Validators vals) (hashToSeed proofHash) ?p (VoterElectionThreshold params) = Ret res"
      "election_ok (Validators vals) ?tol (VoterElectionThreshold params) res"
    using electVotersNonDup_spec [of "Validators vals" ?p] wf tot False by (metis less_imp_le linorder_not_le)
  obtain voters where v: "WrapValidatorsToVoterSet res = Ret voters" "wf_voters voters" "voters_of vals voters"
      "0 < totalVotingWeight voters" "all_validators_vote vals voters
        \<or> VoterElectionThreshold params \<le> int (length (Voters voters)) \<and> safe_against ?tol (Voters voters)"
    using elected_voters [OF assms(1,2) r(2)] by blast
  have "SelectVoter vals proofHash params = Ret voters"
    unfolding SelectVoter_def using False r(1) v(1) by simp
  moreover have "\<forall>S. S \<subseteq># mset (Voters voters)
      \<longrightarrow> 100 * sum_mset (image_mset VotingPower S) \<le> ?p * totalVotingPower vals
      \<longrightarrow> 3 * sum_mset (image_mset VotingWeight S) < totalVotingWeight voters" if "safe_against ?tol (Voters voters)"
    using that v(2) tolerable_power_covers [of "sum_powers (Validators vals)" ?p] wf tot assms(3) False
    by (auto simp: safe_against_def wf_voters_def BftMaxTolerableByzantinePercentage_def)
  ultimately show ?thesis using v by blast
qed

theorem SelectVoter_safe_witness:
  "\<exists>voters. SelectVoter ex_vals [7] \<lparr>VoterElectionThreshold = 1, MaxTolerableByzantinePercentage = 20\<rparr> = Ret voters
     \<and> wf_voters voters \<and> 0 < totalVotingWeight voters"
  using SelectVoter_safe [OF ex_vals_wf, of "\<lparr>VoterElectionThreshold = 1, MaxTolerableByzantinePercentage = 20\<rparr>" "[7]"]
  by auto

text \<open>
  C29. The election ends: with a percentage below 33 and powers that are not negative and within the
  maximum, the loop of \<^verbatim>\<open>electVotersNonDup\<close> ends for every seed, with a result exactly when some
  validator has voting power and with a panic otherwise.
\<close>

theorem electVotersNonDup_returns:
  assumes "\<forall>v \<in> set vals. 0 \<le> VotingPower v" and "sum_powers vals \<le> MaxTotalVotingPower"
    and "percent < BftMaxTolerableByzantinePercentage"
  shows "(\<exists>res. electVotersNonDup vals seed percent minVoters = Ret res) \<longleftrightarrow> (\<exists>v \<in> set vals. VotingPower v \<noteq> 0)"
proof
  assume "\<exists>res. electVotersNonDup vals seed percent minVoters = Ret res"
  then show "\<exists>v \<in> set vals. VotingPower v \<noteq> 0"
    using count_zero_all [of "rev (sortValidators vals)"]
    by (auto simp: electVotersNonDup_def Let_def sortValidators_def split: if_splits bind_splits)
next
  assume ex: "\<exists>v \<in> set vals. VotingPower v \<noteq> 0"
  then obtain v where v: "v \<in> set vals" "0 < VotingPower v" using assms(1) by force
  then have "0 < sum_powers vals"
    using sum_list_member_le [of vals VotingPower v] assms(1) by (simp add: sum_powers_def)
  then show "\<exists>res. electVotersNonDup vals seed percent minVoters = Ret res"
    using electVotersNonDup_spec [OF assms(1) _ assms(2,3)] by blast
qed

theorem electVotersNonDup_returns_witness:
  "\<exists>res. electVotersNonDup [ex_val 2 30, ex_val 3 0, ex_val 1 10] 5 20 2 = Ret res"
  by (subst electVotersNonDup_returns)
    (simp_all add: ex_val_def sum_powers_def max_power BftMaxTolerableByzantinePercentage_def)

end
