(* ===== verification/Commit_Verify.thy ===== *)
theory Commit_Verify
  imports Sign_Bytes Voter_Election
begin

text \<open>
  Verification of commits (\<^verbatim>\<open>VerifyCommit\<close>, \<^verbatim>\<open>VerifyCommitLight\<close> and \<^verbatim>\<open>VerifyCommitLightTrusting\<close> of
  \<^verbatim>\<open>types/voter_set.go\<close>, \<^verbatim>\<open>Commit.VerifySignatures\<close> of \<^verbatim>\<open>types/block.go\<close>). A commit that passes carries
  signatures of voters with the required share of the voting weight. Each verifier returns the voter
  set, whose cached total it may fill.
\<close>

section \<open>The verifiers\<close>

datatype commit_error =
    NilVotersOrCommit
  | ErrInvalidCommitSignatures int int
  | ErrInvalidCommitHeight int64 int64
  | WrongBlockID
  | WrongSignature nat
  | OmittedNotBLS nat
  | WrongAggregatedSignature bls_error
  | ErrNotEnoughVotingWeightSigned int64 int64
  | ZeroDenominator
  | TrustLevelOverflow
  | DoubleVote nat nat
  | MissingPublicKey bytes

definition verifySignatureOrCollectBlsPubKeysAndGetVotingWeight ::
  "crypto_lib \<Rightarrow> nat \<Rightarrow> CommitSig \<Rightarrow> Validator \<Rightarrow> bytes \<Rightarrow> bytes list \<Rightarrow> bytes list
     \<Rightarrow> (commit_error + int64 \<times> int64 \<times> bytes list \<times> bytes list) go" where
  "verifySignatureOrCollectBlsPubKeysAndGetVotingWeight C idx cs v voteSignBytes keys msgs =
     (case cs_Signature cs of
        Some sig \<Rightarrow>
          (case PubKey v of
             None \<Rightarrow> Panic
           | Some pk \<Rightarrow>
               if \<not> PubKey_VerifySignature C pk voteSignBytes sig then Ret (Inl (WrongSignature idx))
               else Ret (Inr (VotingWeight v, 0, keys, msgs)))
      | None \<Rightarrow>
          (case Option.bind (PubKey v) GetSignatureKey of
             None \<Rightarrow> Ret (Inl (OmittedNotBLS idx))
           | Some k \<Rightarrow> Ret (Inr (0, VotingWeight v, keys @ [k], msgs @ [voteSignBytes]))))"

fun verify_all ::
  "crypto_lib \<Rightarrow> time_encoder \<Rightarrow> bytes \<Rightarrow> Commit \<Rightarrow> Validator list \<Rightarrow> nat \<Rightarrow> CommitSig list
     \<Rightarrow> int64 \<Rightarrow> bytes list \<Rightarrow> bytes list \<Rightarrow> (commit_error + int64 \<times> bytes list \<times> bytes list) go" where
  "verify_all C T chainID commit voters idx [] tally keys msgs = Ret (Inr (tally, keys, msgs))"
| "verify_all C T chainID commit voters idx (cs # rest) tally keys msgs =
     (if Absent cs then verify_all C T chainID commit voters (Suc idx) rest tally keys msgs
      else
        do {
          voter \<leftarrow> index voters (int idx);
          bz \<leftarrow> Commit_VoteSignBytes T commit chainID (wrap32 (int idx));
          r \<leftarrow> verifySignatureOrCollectBlsPubKeysAndGetVotingWeight C idx cs voter bz keys msgs;
          (case r of
             Inl err \<Rightarrow> Ret (Inl err)
           | Inr (ver, unver, keys', msgs') \<Rightarrow>
               verify_all C T chainID commit voters (Suc idx) rest
                 (if ForBlock cs then wrap64 (tally + wrap64 (ver + unver)) else tally) keys' msgs')
        })"

definition check_commit :: "VoterSet \<Rightarrow> BlockID \<Rightarrow> int64 \<Rightarrow> Commit \<Rightarrow> commit_error option" where
  "check_commit voters blockID height commit =
     (if VoterSet_Size voters \<noteq> int (length (c_Signatures commit))
        then Some (ErrInvalidCommitSignatures (VoterSet_Size voters) (int (length (c_Signatures commit))))
      else if height \<noteq> c_Height commit then Some (ErrInvalidCommitHeight height (c_Height commit))
      else if \<not> BlockID_Equals blockID (c_BlockID commit) then Some WrongBlockID
      else None)"

definition VerifyCommit ::
  "crypto_lib \<Rightarrow> time_encoder \<Rightarrow> VoterSet option \<Rightarrow> bytes \<Rightarrow> BlockID \<Rightarrow> int64 \<Rightarrow> Commit option
     \<Rightarrow> (VoterSet option \<times> commit_error option) go" where
  "VerifyCommit C T voters chainID blockID height commit =
     (case (voters, commit) of
        (Some vs, Some c) \<Rightarrow>
          (case check_commit vs blockID height c of
             Some err \<Rightarrow> Ret (voters, Some err)
           | None \<Rightarrow>
               do {
                 (vs', tot) \<leftarrow> TotalVotingWeight vs;
                 let required = wrap64 (tot * 2) sdiv 3;
                 r \<leftarrow> verify_all C T chainID c (Voters vs') 0 (c_Signatures c) 0 [] [];
                 (case r of
                    Inl err \<Rightarrow> Ret (Some vs', Some err)
                  | Inr (tallied, keys, msgs) \<Rightarrow>
                      (case VerifyAggregatedSignature C (c_AggregatedSignature c) keys msgs of
                         Some err \<Rightarrow> Ret (Some vs', Some (WrongAggregatedSignature err))
                       | None \<Rightarrow>
                           if tallied \<le> required
                           then Ret (Some vs', Some (ErrNotEnoughVotingWeightSigned tallied required))
                           else Ret (Some vs', None)))
               })
      | _ \<Rightarrow> Ret (voters, Some NilVotersOrCommit))"

text \<open>
  The loop of the light verifiers: it returns at once when the individually verified weight is enough,
  otherwise the tallies and what is left to verify in one aggregate.
\<close>

datatype light_result =
    LightError commit_error
  | LightEnough
  | LightRest int64 int64 "bytes list" "bytes list"

fun light_loop ::
  "crypto_lib \<Rightarrow> time_encoder \<Rightarrow> bytes \<Rightarrow> Commit \<Rightarrow> VoterSet \<Rightarrow> int64 \<Rightarrow> nat \<Rightarrow> CommitSig list
     \<Rightarrow> int64 \<Rightarrow> int64 \<Rightarrow> bytes list \<Rightarrow> bytes list \<Rightarrow> light_result go" where
  "light_loop C T chainID commit voters required idx [] tally untally keys msgs =
     Ret (LightRest tally untally keys msgs)"
| "light_loop C T chainID commit voters required idx (cs # rest) tally untally keys msgs =
     (if \<not> ForBlock cs then light_loop C T chainID commit voters required (Suc idx) rest tally untally keys msgs
      else (case VoterSet_GetByAddress voters (cs_ValidatorAddress cs) of
          (_, None) \<Rightarrow> light_loop C T chainID commit voters required (Suc idx) rest tally untally keys msgs
        | (_, Some voter) \<Rightarrow>
            do {
              bz \<leftarrow> Commit_VoteSignBytes T commit chainID (wrap32 (int idx));
              r \<leftarrow> verifySignatureOrCollectBlsPubKeysAndGetVotingWeight C idx cs voter bz keys msgs;
              (case r of
                 Inl err \<Rightarrow> Ret (LightError err)
               | Inr (ver, unver, keys', msgs') \<Rightarrow>
                   let tally' = wrap64 (tally + ver); untally' = wrap64 (untally + unver) in
                   if tally' > required then Ret LightEnough
                   else light_loop C T chainID commit voters required (Suc idx) rest tally' untally' keys' msgs')
            }))"

definition light_finish ::
  "crypto_lib \<Rightarrow> Commit \<Rightarrow> int64 \<Rightarrow> light_result \<Rightarrow> commit_error option" where
  "light_finish C commit required r = (case r of
       LightError err \<Rightarrow> Some err
     | LightEnough \<Rightarrow> None
     | LightRest tally untally keys msgs \<Rightarrow>
         (case VerifyAggregatedSignature C (c_AggregatedSignature commit) keys msgs of
            Some err \<Rightarrow> Some (WrongAggregatedSignature err)
          | None \<Rightarrow>
              let tallied = wrap64 (tally + untally) in
              if tallied > required then None
              else Some (ErrNotEnoughVotingWeightSigned tallied required)))"

definition VerifyCommitLight ::
  "crypto_lib \<Rightarrow> time_encoder \<Rightarrow> VoterSet option \<Rightarrow> bytes \<Rightarrow> BlockID \<Rightarrow> int64 \<Rightarrow> Commit option
     \<Rightarrow> (VoterSet option \<times> commit_error option) go" where
  "VerifyCommitLight C T voters chainID blockID height commit =
     (case (voters, commit) of
        (Some vs, Some c) \<Rightarrow>
          (case check_commit vs blockID height c of
             Some err \<Rightarrow> Ret (voters, Some err)
           | None \<Rightarrow>
               do {
                 (vs', tot) \<leftarrow> TotalVotingWeight vs;
                 let required = wrap64 (tot * 2) sdiv 3;
                 r \<leftarrow> light_loop C T chainID c vs' required 0 (c_Signatures c) 0 0 [] [];
                 Ret (Some vs', light_finish C c required r)
               })
      | _ \<Rightarrow> Ret (voters, Some NilVotersOrCommit))"

fun trusting_loop ::
  "crypto_lib \<Rightarrow> time_encoder \<Rightarrow> bytes \<Rightarrow> Commit \<Rightarrow> VoterSet \<Rightarrow> int64 \<Rightarrow> (int32 \<rightharpoonup> nat) \<Rightarrow> nat \<Rightarrow> CommitSig list
     \<Rightarrow> int64 \<Rightarrow> int64 \<Rightarrow> bytes list \<Rightarrow> bytes list \<Rightarrow> light_result go" where
  "trusting_loop C T chainID commit voters required seen idx [] tally untally keys msgs =
     Ret (LightRest tally untally keys msgs)"
| "trusting_loop C T chainID commit voters required seen idx (cs # rest) tally untally keys msgs =
     (if \<not> ForBlock cs then trusting_loop C T chainID commit voters required seen (Suc idx) rest tally untally keys msgs
      else (case VoterSet_GetByAddress voters (cs_ValidatorAddress cs) of
          (_, None) \<Rightarrow> trusting_loop C T chainID commit voters required seen (Suc idx) rest tally untally keys msgs
        | (voterIdx, Some voter) \<Rightarrow>
            (case seen voterIdx of
               Some firstIndex \<Rightarrow> Ret (LightError (DoubleVote firstIndex idx))
             | None \<Rightarrow>
                 do {
                   bz \<leftarrow> Commit_VoteSignBytes T commit chainID (wrap32 (int idx));
                   r \<leftarrow> verifySignatureOrCollectBlsPubKeysAndGetVotingWeight C idx cs voter bz keys msgs;
                   (case r of
                      Inl err \<Rightarrow> Ret (LightError err)
                    | Inr (ver, unver, keys', msgs') \<Rightarrow>
                        let tally' = wrap64 (tally + ver); untally' = wrap64 (untally + unver) in
                        if tally' > required then Ret LightEnough
                        else trusting_loop C T chainID commit voters required (seen(voterIdx \<mapsto> idx)) (Suc idx) rest
                               tally' untally' keys' msgs')
                 })))"

definition VerifyCommitLightTrusting ::
  "crypto_lib \<Rightarrow> time_encoder \<Rightarrow> VoterSet \<Rightarrow> bytes \<Rightarrow> Commit \<Rightarrow> Fraction \<Rightarrow> (VoterSet \<times> commit_error option) go" where
  "VerifyCommitLightTrusting C T voters chainID commit trustLevel =
     (if Denominator trustLevel = 0 then Ret (voters, Some ZeroDenominator)
      else
        do {
          (voters', tot) \<leftarrow> TotalVotingWeight voters;
          (case safeMul tot (wrap64 (int (Numerator trustLevel))) of
             (_, True) \<Rightarrow> Ret (voters', Some TrustLevelOverflow)
           | (m, False) \<Rightarrow>
               do {
                 required \<leftarrow> go_div m (wrap64 (int (Denominator trustLevel)));
                 r \<leftarrow> trusting_loop C T chainID commit voters' required Map.empty 0 (c_Signatures commit) 0 0 [] [];
                 Ret (voters', light_finish C commit required r)
               })
        })"

text \<open>\<^verbatim>\<open>Commit.VerifySignatures\<close>: a missing validator is allowed unless its signature is in the aggregate.\<close>

fun verify_signatures ::
  "crypto_lib \<Rightarrow> time_encoder \<Rightarrow> bytes \<Rightarrow> Commit \<Rightarrow> Validator option list \<Rightarrow> nat \<Rightarrow> CommitSig list
     \<Rightarrow> bytes list \<Rightarrow> bytes list \<Rightarrow> (commit_error + bytes list \<times> bytes list) go" where
  "verify_signatures C T chainID commit vals idx [] keys msgs = Ret (Inr (keys, msgs))"
| "verify_signatures C T chainID commit vals idx (cs # rest) keys msgs =
     (if Absent cs then verify_signatures C T chainID commit vals (Suc idx) rest keys msgs
      else
        do {
          vo \<leftarrow> index vals (int idx);
          (case vo of
             Some v \<Rightarrow>
               do {
                 bz \<leftarrow> Commit_VoteSignBytes T commit chainID (wrap32 (int idx));
                 r \<leftarrow> verifySignatureOrCollectBlsPubKeysAndGetVotingWeight C idx cs v bz keys msgs;
                 (case r of
                    Inl err \<Rightarrow> Ret (Inl err)
                  | Inr (_, _, keys', msgs') \<Rightarrow> verify_signatures C T chainID commit vals (Suc idx) rest keys' msgs')
               }
           | None \<Rightarrow>
               if cs_Signature cs = None then Ret (Inl (MissingPublicKey (cs_ValidatorAddress cs)))
               else verify_signatures C T chainID commit vals (Suc idx) rest keys msgs)
        })"

definition VerifySignatures ::
  "crypto_lib \<Rightarrow> time_encoder \<Rightarrow> Commit \<Rightarrow> bytes \<Rightarrow> Validator option list \<Rightarrow> commit_error option go" where
  "VerifySignatures C T commit chainID vals =
     do {
       r \<leftarrow> verify_signatures C T chainID commit vals 0 (c_Signatures commit) [] [];
       (case r of
          Inl err \<Rightarrow> Ret (Some err)
        | Inr (keys, msgs) \<Rightarrow>
            Ret (map_option WrongAggregatedSignature
              (VerifyAggregatedSignature C (c_AggregatedSignature commit) keys msgs)))
     }"

end
