(* ===== verification/Vote_Set.thy ===== *)
theory Vote_Set
  imports Commit_Verify
begin

text \<open>
  Vote sets (\<^verbatim>\<open>types/vote_set.go\<close>): the votes of one height, round and type, the votes for each block
  that is tracked, and the first block that reached a two-thirds majority. The mutex is not modelled:
  every method holds it to the end. The readers may fill the cached total weight of the voter set, whose
  value is a function of the voters; only the methods that change votes return it. A map from the string key of a block to its votes is a map from
  byte strings.
\<close>

section \<open>State\<close>

record blockVotes =
  bv_peerMaj23 :: bool
  bv_bitArray :: "BitArray option"
  bv_votes :: "Vote option list"
  bv_sum :: int64

type_synonym P2PID = string

record VoteSet =
  vset_chainID :: bytes
  vset_height :: int64
  vset_round :: int32
  vset_type :: SignedMsgType
  vset_voterSet :: VoterSet
  votesBitArray :: "BitArray option"
  votes :: "Vote option list"
  vset_sum :: int64
  maj23 :: "BlockID option"
  votesByBlock :: "bytes \<rightharpoonup> blockVotes"
  peerMaj23s :: "P2PID \<rightharpoonup> BlockID"

definition newBlockVotes :: "bool \<Rightarrow> nat \<Rightarrow> blockVotes" where
  "newBlockVotes peer numVoters =
     \<lparr>bv_peerMaj23 = peer, bv_bitArray = NewBitArray (int numVoters), bv_votes = replicate numVoters None, bv_sum = 0\<rparr>"

definition blockVotes_addVerifiedVote :: "blockVotes \<Rightarrow> Vote \<Rightarrow> int64 \<Rightarrow> blockVotes go" where
  "blockVotes_addVerifiedVote vs vote votingPower =
     do {
       existing \<leftarrow> index (bv_votes vs) (v_ValidatorIndex vote);
       (if existing = None then
          do {
            (_, ba) \<leftarrow> BitArray_SetIndex (bv_bitArray vs) (v_ValidatorIndex vote) True;
            vts \<leftarrow> assign (bv_votes vs) (v_ValidatorIndex vote) (Some vote);
            Ret (vs\<lparr>bv_bitArray := ba, bv_votes := vts, bv_sum := wrap64 (bv_sum vs + votingPower)\<rparr>)
          }
        else Ret vs)
     }"

definition blockVotes_getByIndex :: "blockVotes option \<Rightarrow> int32 \<Rightarrow> Vote option go" where
  "blockVotes_getByIndex vs i = (case vs of None \<Rightarrow> Ret None | Some b \<Rightarrow> index (bv_votes b) i)"

definition NewVoteSet ::
  "bytes \<Rightarrow> int64 \<Rightarrow> int32 \<Rightarrow> SignedMsgType \<Rightarrow> VoterSet \<Rightarrow> VoteSet go" where
  "NewVoteSet chainID height rnd ty voters =
     (if height = 0 then Panic
      else Ret \<lparr>vset_chainID = chainID, vset_height = height, vset_round = rnd, vset_type = ty,
        vset_voterSet = voters, votesBitArray = NewBitArray (VoterSet_Size voters),
        votes = replicate (nat (VoterSet_Size voters)) None, vset_sum = 0, maj23 = None,
        votesByBlock = Map.empty, peerMaj23s = Map.empty\<rparr>)"

section \<open>Adding votes\<close>

definition getVote :: "VoteSet \<Rightarrow> int32 \<Rightarrow> bytes \<Rightarrow> Vote option go" where
  "getVote voteSet valIndex blockKey =
     do {
       existing \<leftarrow> index (votes voteSet) valIndex;
       (case existing of
          Some v \<Rightarrow>
            if BlockID_Key (v_BlockID v) = blockKey then Ret (Some v)
            else blockVotes_getByIndex (votesByBlock voteSet blockKey) valIndex
        | None \<Rightarrow> blockVotes_getByIndex (votesByBlock voteSet blockKey) valIndex)
     }"

text \<open>The votes a block collected replace the votes of the set.\<close>

definition copy_votes :: "Vote option list \<Rightarrow> Vote option list \<Rightarrow> Vote option list" where
  "copy_votes dst src = map (\<lambda>(d, s). if s = None then d else s) (zip dst src) @ drop (length src) dst"

definition place_vote :: "VoteSet \<Rightarrow> Vote \<Rightarrow> bytes \<Rightarrow> int64 \<Rightarrow> (VoteSet \<times> Vote option) go" where
  "place_vote voteSet vote blockKey votingPower =
     do {
       existing \<leftarrow> index (votes voteSet) (v_ValidatorIndex vote);
       (case existing of
          Some e \<Rightarrow>
            if BlockID_Equals (v_BlockID e) (v_BlockID vote) then Panic
            else if (case maj23 voteSet of None \<Rightarrow> False | Some b \<Rightarrow> BlockID_Key b = blockKey) then
              do {
                vts \<leftarrow> assign (votes voteSet) (v_ValidatorIndex vote) (Some vote);
                (_, ba) \<leftarrow> BitArray_SetIndex (votesBitArray voteSet) (v_ValidatorIndex vote) True;
                Ret (voteSet\<lparr>votes := vts, votesBitArray := ba\<rparr>, Some e)
              }
            else Ret (voteSet, Some e)
        | None \<Rightarrow>
            do {
              vts \<leftarrow> assign (votes voteSet) (v_ValidatorIndex vote) (Some vote);
              (_, ba) \<leftarrow> BitArray_SetIndex (votesBitArray voteSet) (v_ValidatorIndex vote) True;
              Ret (voteSet\<lparr>votes := vts, votesBitArray := ba, vset_sum := wrap64 (vset_sum voteSet + votingPower)\<rparr>, None)
            })
     }"

definition addVerifiedVote :: "VoteSet \<Rightarrow> Vote \<Rightarrow> bytes \<Rightarrow> int64 \<Rightarrow> (VoteSet \<times> bool \<times> Vote option) go" where
  "addVerifiedVote voteSet vote blockKey votingPower =
     do {
       (vs, conflicting) \<leftarrow> place_vote voteSet vote blockKey votingPower;
       let tracked = votesByBlock vs blockKey;
       if conflicting \<noteq> None
          \<and> (case tracked of None \<Rightarrow> True | Some bv \<Rightarrow> \<not> bv_peerMaj23 bv)
       then Ret (vs, False, conflicting)
       else
         do {
           let bv = (case tracked of Some bv \<Rightarrow> bv | None \<Rightarrow> newBlockVotes False (length (Voters (vset_voterSet vs))));
           (voters', tot) \<leftarrow> TotalVotingWeight (vset_voterSet vs);
           let quorum = wrap64 (wrap64 (tot * 2) sdiv 3 + 1);
           bv' \<leftarrow> blockVotes_addVerifiedVote bv vote votingPower;
           let vs = vs\<lparr>vset_voterSet := voters', votesByBlock := (votesByBlock vs)(blockKey \<mapsto> bv')\<rparr>;
           let vs = (if bv_sum bv < quorum \<and> quorum \<le> bv_sum bv' \<and> maj23 vs = None
                     then vs\<lparr>maj23 := Some (v_BlockID vote), votes := copy_votes (votes vs) (bv_votes bv')\<rparr>
                     else vs);
           Ret (vs, True, conflicting)
         }
     }"

type_synonym vote_verifier = "bytes \<Rightarrow> PubKey option \<Rightarrow> vote_error option go"

definition addVote ::
  "VoteSet \<Rightarrow> Vote option \<Rightarrow> (Vote \<Rightarrow> vote_verifier) \<Rightarrow> (VoteSet \<times> bool \<times> vote_error option) go" where
  "addVote voteSet voteo execVoteVerify = (case voteo of
       None \<Rightarrow> Ret (voteSet, False, Some ErrVoteNil)
     | Some vote \<Rightarrow>
         let blockKey = BlockID_Key (v_BlockID vote) in
         if v_ValidatorIndex vote < 0 then Ret (voteSet, False, Some ErrVoteInvalidValidatorIndex)
         else if length (v_ValidatorAddress vote) = 0 then Ret (voteSet, False, Some ErrVoteInvalidValidatorAddress)
         else if v_Height vote \<noteq> vset_height voteSet \<or> v_Round vote \<noteq> vset_round voteSet
           \<or> v_Type vote \<noteq> vset_type voteSet
         then Ret (voteSet, False, Some ErrVoteUnexpectedStep)
         else (case VoterSet_GetByIndex (vset_voterSet voteSet) (v_ValidatorIndex vote) of
             (_, None) \<Rightarrow> Ret (voteSet, False, Some ErrVoteInvalidValidatorIndex)
           | (lookupAddr, Some voter) \<Rightarrow>
               if v_ValidatorAddress vote \<noteq> sig_bytes lookupAddr
               then Ret (voteSet, False, Some ErrVoteInvalidValidatorAddress)
               else
                 do {
                   existing \<leftarrow> getVote voteSet (v_ValidatorIndex vote) blockKey;
                   (case existing of
                      Some e \<Rightarrow>
                        if sig_bytes (v_Signature e) = sig_bytes (v_Signature vote) then Ret (voteSet, False, None)
                        else Ret (voteSet, False, Some ErrVoteNonDeterministicSignature)
                    | None \<Rightarrow>
                        do {
                          err \<leftarrow> execVoteVerify vote (vset_chainID voteSet) (PubKey voter);
                          (case err of
                             Some e \<Rightarrow> Ret (voteSet, False, Some e)
                           | None \<Rightarrow>
                               do {
                                 (vs, added, conflicting) \<leftarrow> addVerifiedVote voteSet vote blockKey (VotingWeight voter);
                                 (case conflicting of
                                    Some c \<Rightarrow> Ret (vs, added, Some (ErrVoteConflictingVotes c vote))
                                  | None \<Rightarrow> if \<not> added then Panic else Ret (vs, added, None))
                               })
                        })
                 }))"

text \<open>A nil key is an interface without methods: calling one panics.\<close>

definition exec_verify :: "crypto_lib \<Rightarrow> time_encoder \<Rightarrow> Vote \<Rightarrow> vote_verifier" where
  "exec_verify C T vote chainID pk = (case pk of None \<Rightarrow> Panic | Some k \<Rightarrow> Vote_Verify C T chainID k vote)"

definition exec_address_check :: "crypto_lib \<Rightarrow> Vote \<Rightarrow> vote_verifier" where
  "exec_address_check C vote chainID pk = (case pk of
       None \<Rightarrow> Panic
     | Some k \<Rightarrow>
         do {
           addr \<leftarrow> PubKey_Address C k;
           Ret (if addr \<noteq> v_ValidatorAddress vote then Some ErrVoteInvalidValidatorAddress else None)
         })"

definition AddVote ::
  "crypto_lib \<Rightarrow> time_encoder \<Rightarrow> VoteSet option \<Rightarrow> Vote option \<Rightarrow> (VoteSet \<times> bool \<times> vote_error option) go" where
  "AddVote C T voteSet vote = (case voteSet of
       None \<Rightarrow> Panic
     | Some vs \<Rightarrow> addVote vs vote (exec_verify C T))"

definition AddAggregatedVote ::
  "crypto_lib \<Rightarrow> VoteSet option \<Rightarrow> Vote option \<Rightarrow> (VoteSet \<times> bool \<times> vote_error option) go" where
  "AddAggregatedVote C voteSet vote = (case voteSet of
       None \<Rightarrow> Panic
     | Some vs \<Rightarrow> addVote vs vote (exec_address_check C))"

datatype peer_error = ConflictingBlockID P2PID BlockID BlockID

definition SetPeerMaj23 :: "VoteSet option \<Rightarrow> P2PID \<Rightarrow> BlockID \<Rightarrow> (VoteSet \<times> peer_error option) go" where
  "SetPeerMaj23 voteSet peerID blockID = (case voteSet of
       None \<Rightarrow> Panic
     | Some vs \<Rightarrow>
         let blockKey = BlockID_Key blockID in
         (case peerMaj23s vs peerID of
            Some existing \<Rightarrow>
              if BlockID_Equals existing blockID then Ret (vs, None)
              else Ret (vs, Some (ConflictingBlockID peerID blockID existing))
          | None \<Rightarrow>
              let vs = vs\<lparr>peerMaj23s := (peerMaj23s vs)(peerID \<mapsto> blockID)\<rparr> in
              (case votesByBlock vs blockKey of
                 Some bv \<Rightarrow>
                   if bv_peerMaj23 bv then Ret (vs, None)
                   else Ret (vs\<lparr>votesByBlock := (votesByBlock vs)(blockKey \<mapsto> bv\<lparr>bv_peerMaj23 := True\<rparr>)\<rparr>, None)
               | None \<Rightarrow>
                   Ret (vs\<lparr>votesByBlock := (votesByBlock vs)
                        (blockKey \<mapsto> newBlockVotes True (length (Voters (vset_voterSet vs))))\<rparr>, None))))"

section \<open>Reading\<close>

definition VoteSet_Size :: "VoteSet option \<Rightarrow> int" where
  "VoteSet_Size voteSet = (case voteSet of None \<Rightarrow> 0 | Some vs \<Rightarrow> VoterSet_Size (vset_voterSet vs))"

definition VoteSet_BitArray :: "VoteSet option \<Rightarrow> BitArray option" where
  "VoteSet_BitArray voteSet = (case voteSet of None \<Rightarrow> None | Some vs \<Rightarrow> BitArray_Copy (votesBitArray vs))"

definition BitArrayByBlockID :: "VoteSet option \<Rightarrow> BlockID \<Rightarrow> BitArray option" where
  "BitArrayByBlockID voteSet blockID = (case voteSet of
       None \<Rightarrow> None
     | Some vs \<Rightarrow>
         (case votesByBlock vs (BlockID_Key blockID) of
            Some bv \<Rightarrow> BitArray_Copy (bv_bitArray bv)
          | None \<Rightarrow> None))"

definition VoteSet_GetByIndex :: "VoteSet option \<Rightarrow> int32 \<Rightarrow> Vote option go" where
  "VoteSet_GetByIndex voteSet valIndex = (case voteSet of None \<Rightarrow> Ret None | Some vs \<Rightarrow> index (votes vs) valIndex)"

definition VoteSet_List :: "VoteSet option \<Rightarrow> Vote list" where
  "VoteSet_List voteSet = (case voteSet of None \<Rightarrow> [] | Some vs \<Rightarrow> map the (filter (\<lambda>v. v \<noteq> None) (votes vs)))"

definition VoteSet_GetByAddress :: "VoteSet option \<Rightarrow> bytes \<Rightarrow> Vote option go" where
  "VoteSet_GetByAddress voteSet address = (case voteSet of
       None \<Rightarrow> Ret None
     | Some vs \<Rightarrow>
         (case VoterSet_GetByAddress (vset_voterSet vs) address of
            (_, None) \<Rightarrow> Panic
          | (valIndex, Some _) \<Rightarrow> index (votes vs) valIndex))"

definition HasTwoThirdsMajority :: "VoteSet option \<Rightarrow> bool" where
  "HasTwoThirdsMajority voteSet = (case voteSet of None \<Rightarrow> False | Some vs \<Rightarrow> maj23 vs \<noteq> None)"

definition VoteSet_IsCommit :: "VoteSet option \<Rightarrow> bool" where
  "VoteSet_IsCommit voteSet = (case voteSet of
       None \<Rightarrow> False
     | Some vs \<Rightarrow> vset_type vs = PrecommitType \<and> maj23 vs \<noteq> None)"

definition HasTwoThirdsAny :: "VoteSet option \<Rightarrow> bool go" where
  "HasTwoThirdsAny voteSet = (case voteSet of
       None \<Rightarrow> Ret False
     | Some vs \<Rightarrow>
         do {
           (_, tot) \<leftarrow> TotalVotingWeight (vset_voterSet vs);
           Ret (vset_sum vs > wrap64 (tot * 2) sdiv 3)
         })"

definition HasAll :: "VoteSet option \<Rightarrow> bool go" where
  "HasAll voteSet = (case voteSet of
       None \<Rightarrow> Ret False
     | Some vs \<Rightarrow>
         do {
           (_, tot) \<leftarrow> TotalVotingWeight (vset_voterSet vs);
           Ret (vset_sum vs = tot)
         })"

definition TwoThirdsMajority :: "VoteSet option \<Rightarrow> BlockID \<times> bool" where
  "TwoThirdsMajority voteSet = (case voteSet of
       None \<Rightarrow> (zero_BlockID, False)
     | Some vs \<Rightarrow> (case maj23 vs of Some b \<Rightarrow> (b, True) | None \<Rightarrow> (zero_BlockID, False)))"

section \<open>Commits\<close>

definition make_commit_sig :: "BlockID \<Rightarrow> Vote option \<Rightarrow> CommitSig go" where
  "make_commit_sig maj v =
     do {
       cs \<leftarrow> Vote_CommitSig v;
       if \<not> Absent cs \<and> cs_Signature cs = None then Panic
       else if ForBlock cs \<and> (case v of None \<Rightarrow> False | Some w \<Rightarrow> \<not> BlockID_Equals (v_BlockID w) maj)
       then Ret NewCommitSigAbsent
       else Ret cs
     }"

definition MakeCommit :: "crypto_lib \<Rightarrow> VoteSet \<Rightarrow> Commit go" where
  "MakeCommit C voteSet =
     (if vset_type voteSet \<noteq> PrecommitType then Panic
      else (case maj23 voteSet of
          None \<Rightarrow> Panic
        | Some maj \<Rightarrow>
            do {
              sigs \<leftarrow> map_go (make_commit_sig maj) (votes voteSet);
              AggregateSignatures C (NewCommit (vset_height voteSet) (vset_round voteSet) maj sigs)
            }))"

text \<open>\<^verbatim>\<open>CommitToVoteSet\<close>: the votes left out of the aggregate are added with their signatures.\<close>

fun commit_votes ::
  "crypto_lib \<Rightarrow> time_encoder \<Rightarrow> bytes \<Rightarrow> Commit \<Rightarrow> VoterSet \<Rightarrow> nat \<Rightarrow> CommitSig list \<Rightarrow> VoteSet \<Rightarrow> bytes list \<Rightarrow> bytes list
     \<Rightarrow> (VoteSet \<times> bytes list \<times> bytes list) go" where
  "commit_votes C T chainID commit voters idx [] vs keys msgs = Ret (vs, keys, msgs)"
| "commit_votes C T chainID commit voters idx (cs # rest) vs keys msgs =
     (if Absent cs then commit_votes C T chainID commit voters (Suc idx) rest vs keys msgs
      else
        do {
          vote \<leftarrow> GetVote commit (wrap32 (int idx));
          (if v_Signature vote \<noteq> None then
             do {
               (vs', added, err) \<leftarrow> AddVote C T (Some vs) (Some vote);
               if \<not> added \<or> err \<noteq> None then Panic
               else commit_votes C T chainID commit voters (Suc idx) rest vs' keys msgs
             }
           else
             do {
               (vs', added, err) \<leftarrow> AddAggregatedVote C (Some vs) (Some vote);
               if \<not> added \<or> err \<noteq> None then Panic
               else (case VoterSet_GetByIndex voters (v_ValidatorIndex vote) of
                   (_, None) \<Rightarrow> Panic
                 | (_, Some voter) \<Rightarrow>
                     do {
                       msg \<leftarrow> VoteSignBytes T chainID (Vote_ToProto vote);
                       (case Option.bind (PubKey voter) GetSignatureKey of
                          None \<Rightarrow> Panic
                        | Some k \<Rightarrow> commit_votes C T chainID commit voters (Suc idx) rest vs' (keys @ [k]) (msgs @ [msg]))
                     })
             })
        })"

definition CommitToVoteSet :: "crypto_lib \<Rightarrow> time_encoder \<Rightarrow> bytes \<Rightarrow> Commit \<Rightarrow> VoterSet \<Rightarrow> VoteSet go" where
  "CommitToVoteSet C T chainID commit voters =
     do {
       vs \<leftarrow> NewVoteSet chainID (c_Height commit) (c_Round commit) PrecommitType voters;
       (vs', keys, msgs) \<leftarrow> commit_votes C T chainID commit voters 0 (c_Signatures commit) vs [] [];
       if c_AggregatedSignature commit \<noteq> None
          \<and> VerifyAggregatedSignature C (c_AggregatedSignature commit) keys msgs \<noteq> None
       then Panic
       else Ret vs'
     }"

end
