(* ===== verification/Commit_Sound.thy ===== *)
theory Commit_Sound
  imports Commit_Verify
begin

text \<open>
  Soundness of commit verification: a commit that is accepted carries valid signatures of distinct
  voters with more than two thirds (or the trust level) of the total voting weight.
\<close>

section \<open>One signature\<close>

text \<open>
  \<open>attested\<close>: the signature is valid for the voter's key, or it was left out and the voter's BLS key
  is in the aggregate with these bytes.
\<close>

definition attested :: "crypto_lib \<Rightarrow> bytes list \<Rightarrow> bytes list \<Rightarrow> CommitSig \<Rightarrow> Validator \<Rightarrow> bytes \<Rightarrow> bool" where
  "attested C keys msgs cs v bz = (case cs_Signature cs of
       Some sig \<Rightarrow> (\<exists>pk. PubKey v = Some pk \<and> PubKey_VerifySignature C pk bz sig)
     | None \<Rightarrow> (\<exists>pk k. PubKey v = Some pk \<and> GetSignatureKey pk = Some k \<and> (k, bz) \<in> set (zip keys msgs)))"

lemma verify_one:
  assumes "verifySignatureOrCollectBlsPubKeysAndGetVotingWeight C idx cs v bz keys msgs = Ret (Inr (ver, unver, keys', msgs'))"
  shows "(ver = VotingWeight v \<and> unver = 0 \<and> keys' = keys \<and> msgs' = msgs \<and> attested C [] [] cs v bz)
    \<or> (\<exists>k. ver = 0 \<and> unver = VotingWeight v \<and> keys' = keys @ [k] \<and> msgs' = msgs @ [bz]
         \<and> (length keys = length msgs \<longrightarrow> attested C keys' msgs' cs v bz))"
  using assms unfolding verifySignatureOrCollectBlsPubKeysAndGetVotingWeight_def attested_def
  by (auto split: option.splits if_splits bind_splits)

lemma attested_mono:
  "attested C keys msgs cs v bz \<Longrightarrow> length keys = length msgs \<Longrightarrow> attested C (keys @ ks) (msgs @ ms) cs v bz"
  by (auto simp: attested_def split: option.splits)

lemma attested_Nil: "attested C [] [] cs v bz \<Longrightarrow> attested C ks ms cs v bz"
  by (auto simp: attested_def split: option.splits)

lemma verify_one_extends:
  assumes "verifySignatureOrCollectBlsPubKeysAndGetVotingWeight C idx cs v bz keys msgs = Ret (Inr (ver, unver, keys', msgs'))"
    and "length keys = length msgs"
  shows "ver + unver = VotingWeight v \<and> attested C keys' msgs' cs v bz \<and> length keys' = length msgs'
    \<and> (\<exists>ks ms. keys' = keys @ ks \<and> msgs' = msgs @ ms)"
  using verify_one [OF assms(1)] assms(2) by (auto intro: attested_Nil)

section \<open>All signatures\<close>

definition block_weight :: "CommitSig list \<Rightarrow> Validator list \<Rightarrow> int" where
  "block_weight sigs vs = sum_list (map (\<lambda>(cs, v). if ForBlock cs then VotingWeight v else 0) (zip sigs vs))"

lemma block_weight_simps [simp]:
  "block_weight [] vs = 0"
  "block_weight (cs # sigs) (v # vs) = (if ForBlock cs then VotingWeight v else 0) + block_weight sigs vs"
  by (simp_all add: block_weight_def)

lemma block_weight_bounds:
  "\<forall>v \<in> set vs. 0 \<le> VotingWeight v \<Longrightarrow> 0 \<le> block_weight sigs vs \<and> block_weight sigs vs \<le> sum_weights vs"
proof (induction vs arbitrary: sigs)
  case Nil
  then show ?case by (simp add: block_weight_def sum_weights_def)
next
  case (Cons v vs)
  then show ?case
  proof (cases sigs)
    case Nil
    then show ?thesis using Cons.prems by (auto simp: sum_weights_def intro!: add_nonneg_nonneg sum_list_nonneg)
  next
    case (Cons cs sigs')
    then show ?thesis using Cons.IH [of sigs'] Cons.prems by (auto simp: sum_weights_def)
  qed
qed

lemma sum_weights_nonneg: "\<forall>v \<in> set vs. 0 \<le> VotingWeight v \<Longrightarrow> 0 \<le> sum_weights vs"
  by (auto simp: sum_weights_def intro!: sum_list_nonneg)

lemma verify_all_spec:
  assumes "verify_all C T chainID c vs idx sigs tally keys msgs = Ret (Inr (tally', keys', msgs'))"
    and "length keys = length msgs" and "length sigs + idx = length vs"
    and "\<forall>v \<in> set vs. 0 \<le> VotingWeight v" and "0 \<le> tally" and "tally + sum_weights (drop idx vs) \<le> MaxInt64"
  shows "tally' = tally + block_weight sigs (drop idx vs) \<and> length keys' = length msgs'
    \<and> (\<exists>ks ms. keys' = keys @ ks \<and> msgs' = msgs @ ms)
    \<and> (\<forall>j < length sigs. \<not> Absent (sigs ! j) \<longrightarrow>
         (\<exists>bz. Commit_VoteSignBytes T c chainID (wrap32 (int (idx + j))) = Ret bz
            \<and> attested C keys' msgs' (sigs ! j) (vs ! (idx + j)) bz))"
  using assms
proof (induction sigs arbitrary: idx tally keys msgs)
  case (Cons cs sigs)
  have idx: "idx < length vs" using Cons.prems(3) by simp
  then have dr: "drop idx vs = vs ! idx # drop (Suc idx) vs" by (simp add: Cons_nth_drop_Suc)
  have w0: "0 \<le> VotingWeight (vs ! idx)" using Cons.prems(4) idx by simp
  have rest: "0 \<le> sum_weights (drop (Suc idx) vs)"
    using Cons.prems(4) set_drop_subset [of "Suc idx" vs] by (intro sum_weights_nonneg) auto
  show ?case
  proof (cases "Absent cs")
    case True
    have nb: "\<not> ForBlock cs" using True by (simp add: Absent_def ForBlock_def BlockIDFlagAbsent_def BlockIDFlagCommit_def)
    have "verify_all C T chainID c vs (Suc idx) sigs tally keys msgs = Ret (Inr (tally', keys', msgs'))"
      using Cons.prems(1) True by simp
    moreover have "length sigs + Suc idx = length vs" using Cons.prems(3) by simp
    moreover have "tally + sum_weights (drop (Suc idx) vs) \<le> MaxInt64"
      using Cons.prems(6) dr w0 by (simp add: sum_weights_def)
    ultimately show ?thesis using Cons.IH [of "Suc idx", OF _ Cons.prems(2) _ Cons.prems(4,5)] True dr nb
      by (auto simp: less_Suc_eq_0_disj ac_simps)
  next
    case False
    obtain bz ver unver keys1 msgs1 where bz: "Commit_VoteSignBytes T c chainID (wrap32 (int idx)) = Ret bz"
      and one: "verifySignatureOrCollectBlsPubKeysAndGetVotingWeight C idx cs (vs ! idx) bz keys msgs
          = Ret (Inr (ver, unver, keys1, msgs1))"
      and rec: "verify_all C T chainID c vs (Suc idx) sigs
          (if ForBlock cs then wrap64 (tally + wrap64 (ver + unver)) else tally) keys1 msgs1 = Ret (Inr (tally', keys', msgs'))"
      using Cons.prems(1) False idx by (auto simp: index_in split: bind_splits sum.splits prod.splits)
    note ext = verify_one_extends [OF one Cons.prems(2)]
    have "wrap64 (ver + unver) = VotingWeight (vs ! idx)"
      and "wrap64 (tally + VotingWeight (vs ! idx)) = tally + VotingWeight (vs ! idx)"
      using ext w0 rest Cons.prems(5,6) dr by (auto intro!: wrap64_id simp: in64_def int_limits sum_weights_def)
    then have t: "(if ForBlock cs then wrap64 (tally + wrap64 (ver + unver)) else tally)
        = tally + (if ForBlock cs then VotingWeight (vs ! idx) else 0)" by simp
    have ih: "tally' = tally + (if ForBlock cs then VotingWeight (vs ! idx) else 0) + block_weight sigs (drop (Suc idx) vs)
        \<and> length keys' = length msgs' \<and> (\<exists>ks ms. keys' = keys1 @ ks \<and> msgs' = msgs1 @ ms)
        \<and> (\<forall>j < length sigs. \<not> Absent (sigs ! j) \<longrightarrow>
             (\<exists>bz. Commit_VoteSignBytes T c chainID (wrap32 (int (Suc idx + j))) = Ret bz
                \<and> attested C keys' msgs' (sigs ! j) (vs ! (Suc idx + j)) bz))"
    proof (rule Cons.IH [OF rec [unfolded t] _ _ Cons.prems(4)])
      show "0 \<le> tally + (if ForBlock cs then VotingWeight (vs ! idx) else 0)" using Cons.prems(5) w0 by simp
      show "tally + (if ForBlock cs then VotingWeight (vs ! idx) else 0) + sum_weights (drop (Suc idx) vs) \<le> MaxInt64"
        using Cons.prems(6) w0 dr by (simp add: sum_weights_def)
    qed (use ext Cons.prems(3) in auto)
    obtain ks ms where ks: "keys' = keys1 @ ks" "msgs' = msgs1 @ ms" using ih by blast
    have first: "attested C keys' msgs' cs (vs ! idx) bz" unfolding ks using ext attested_mono by blast
    have "\<exists>ks ms. keys' = keys @ ks \<and> msgs' = msgs @ ms" using ks ext by auto
    moreover have "tally' = tally + block_weight (cs # sigs) (drop idx vs)" using ih dr by simp
    moreover have "\<exists>bz. Commit_VoteSignBytes T c chainID (wrap32 (int (idx + j))) = Ret bz
        \<and> attested C keys' msgs' ((cs # sigs) ! j) (vs ! (idx + j)) bz"
      if "j < length (cs # sigs)" "\<not> Absent ((cs # sigs) ! j)" for j
      using that ih first bz by (cases j) auto
    ultimately show ?thesis using ih by blast
  qed
qed (simp add: block_weight_def)

lemma required_iff:
  assumes "0 \<le> tot" and "tot \<le> MaxTotalVotingWeight"
  shows "wrap64 (tot * 2) sdiv 3 < got \<longleftrightarrow> 2 * tot < 3 * got"
proof -
  have "wrap64 (tot * 2) = tot * 2"
    using assms by (intro wrap64_id) (auto simp: in64_def MaxTotalVotingWeight_def max_power)
  moreover have "tot * 2 sdiv 3 = tot * 2 div 3" using assms by (intro sdiv_nonneg) auto
  ultimately show ?thesis by (simp add: mult.commute) linarith
qed

lemma wf_voters_total: "wf_voters vs \<Longrightarrow> 0 \<le> totalVotingWeight vs \<and> totalVotingWeight vs \<le> MaxTotalVotingWeight"
  by (auto simp: wf_voters_def sum_weights_def intro!: sum_list_nonneg)

lemma VerifyCommit_accepts:
  assumes wf: "wf_voters vs" and ok: "VerifyCommit C T (Some vs) chainID blockID height (Some c) = Ret (vs', None)"
  shows "\<exists>keys msgs. vs' = Some vs \<and> check_commit vs blockID height c = None
    \<and> verify_all C T chainID c (Voters vs) 0 (c_Signatures c) 0 [] [] = Ret (Inr (block_weight (c_Signatures c) (Voters vs), keys, msgs))
    \<and> VerifyAggregatedSignature C (c_AggregatedSignature c) keys msgs = None
    \<and> 2 * totalVotingWeight vs < 3 * block_weight (c_Signatures c) (Voters vs)
    \<and> (\<forall>j < length (c_Signatures c). \<not> Absent (c_Signatures c ! j) \<longrightarrow>
         (\<exists>bz. Commit_VoteSignBytes T c chainID (wrap32 (int j)) = Ret bz
            \<and> attested C keys msgs (c_Signatures c ! j) (Voters vs ! j) bz))"
proof -
  let ?req = "wrap64 (totalVotingWeight vs * 2) sdiv 3"
  have tot: "sum_weights (Voters vs) = totalVotingWeight vs" using wf by (simp add: wf_voters_def)
  have chk: "check_commit vs blockID height c = None"
    using ok by (auto simp: VerifyCommit_def split: option.splits)
  obtain tally keys msgs where v: "vs' = Some vs"
      and all: "verify_all C T chainID c (Voters vs) 0 (c_Signatures c) 0 [] [] = Ret (Inr (tally, keys, msgs))"
      and agg: "VerifyAggregatedSignature C (c_AggregatedSignature c) keys msgs = None" and gt: "?req < tally"
    using ok chk TotalVotingWeight_wf [OF wf] tot
    by (auto simp: VerifyCommit_def Let_def split: bind_splits sum.splits prod.splits option.splits if_splits)
  have len: "length (c_Signatures c) + 0 = length (Voters vs)"
    using chk by (auto simp: check_commit_def VoterSet_Size_def split: if_splits)
  have nn: "\<forall>v \<in> set (Voters vs). 0 \<le> VotingWeight v" using wf by (simp add: wf_voters_def)
  have "0 + sum_weights (drop 0 (Voters vs)) \<le> MaxInt64"
    using wf_voters_total [OF wf] tot by (simp add: MaxTotalVotingWeight_def max_power)
  from verify_all_spec [OF all _ len nn _ this]
  have t: "tally = block_weight (c_Signatures c) (Voters vs)"
    and att: "\<forall>j < length (c_Signatures c). \<not> Absent (c_Signatures c ! j) \<longrightarrow>
         (\<exists>bz. Commit_VoteSignBytes T c chainID (wrap32 (int j)) = Ret bz
            \<and> attested C keys msgs (c_Signatures c ! j) (Voters vs ! j) bz)"
    by simp_all
  have "2 * totalVotingWeight vs < 3 * tally" using gt required_iff wf_voters_total [OF wf] by blast
  then show ?thesis using v chk all agg att unfolding t by blast
qed

section \<open>The light verifiers\<close>

text \<open>A voter that signed for the block under its own address.\<close>

definition signer ::
  "crypto_lib \<Rightarrow> time_encoder \<Rightarrow> bytes \<Rightarrow> Commit \<Rightarrow> bytes list \<Rightarrow> bytes list \<Rightarrow> Validator \<Rightarrow> bool" where
  "signer C T chainID c keys msgs v \<longleftrightarrow>
     (\<exists>i < length (c_Signatures c). \<exists>bz. ForBlock (c_Signatures c ! i)
        \<and> cs_ValidatorAddress (c_Signatures c ! i) = Address v
        \<and> Commit_VoteSignBytes T c chainID (wrap32 (int i)) = Ret bz
        \<and> attested C keys msgs (c_Signatures c ! i) v bz)"

lemma signer_mono:
  "signer C T chainID c keys msgs v \<Longrightarrow> length keys = length msgs \<Longrightarrow> signer C T chainID c (keys @ ks) (msgs @ ms) v"
  unfolding signer_def using attested_mono by blast

lemma signer_Nil: "signer C T chainID c [] [] v \<Longrightarrow> signer C T chainID c ks ms v"
  unfolding signer_def using attested_Nil by blast

definition counted ::
  "crypto_lib \<Rightarrow> time_encoder \<Rightarrow> bytes \<Rightarrow> Commit \<Rightarrow> VoterSet \<Rightarrow> bytes list \<Rightarrow> bytes list
     \<Rightarrow> Validator list \<Rightarrow> Validator list \<Rightarrow> bool" where
  "counted C T chainID c voters keys msgs A B \<longleftrightarrow>
     set (A @ B) \<subseteq> set (Voters voters) \<and> distinct (map Address (A @ B)) \<and> length keys = length msgs
     \<and> (\<forall>v \<in> set A. signer C T chainID c [] [] v) \<and> (\<forall>v \<in> set B. signer C T chainID c keys msgs v)"

lemma GetByAddress_Some:
  "VoterSet_GetByAddress voters a = (j, Some v) \<Longrightarrow> v \<in> set (Voters voters) \<and> Address v = a"
  using find_address_map [of 0 "Voters voters" a] addr_map_SomeD by (auto simp: VoterSet_GetByAddress_def)

lemma counted_step:
  assumes "counted C T chainID c voters keys msgs A B"
    and "verifySignatureOrCollectBlsPubKeysAndGetVotingWeight C idx cs v bz keys msgs = Ret (Inr (ver, unver, keys', msgs'))"
    and "cs = c_Signatures c ! idx" "idx < length (c_Signatures c)" "ForBlock cs" "cs_ValidatorAddress cs = Address v"
    and "Commit_VoteSignBytes T c chainID (wrap32 (int idx)) = Ret bz"
    and "v \<in> set (Voters voters)" "Address v \<notin> Address ` set (A @ B)"
  shows "(ver = VotingWeight v \<and> unver = 0 \<and> counted C T chainID c voters keys' msgs' (A @ [v]) B)
    \<or> (ver = 0 \<and> unver = VotingWeight v \<and> counted C T chainID c voters keys' msgs' A (B @ [v]))"
proof -
  have len: "length keys = length msgs" using assms(1) by (simp add: counted_def)
  from verify_one [OF assms(2)] show ?thesis
  proof (elim disjE exE conjE)
    assume a: "ver = VotingWeight v" "unver = 0" "keys' = keys" "msgs' = msgs" "attested C [] [] cs v bz"
    have "signer C T chainID c [] [] v" unfolding signer_def using assms a(5) by blast
    then show ?thesis using a assms(1,8,9) by (auto simp: counted_def)
  next
    fix k assume a: "ver = 0" "unver = VotingWeight v" "keys' = keys @ [k]" "msgs' = msgs @ [bz]"
      "length keys = length msgs \<longrightarrow> attested C keys' msgs' cs v bz"
    have "signer C T chainID c keys' msgs' v" unfolding signer_def using assms a(5) len by blast
    moreover have "signer C T chainID c keys' msgs' u" if "u \<in> set B" for u
      using that assms(1) signer_mono a(3,4) by (auto simp: counted_def)
    ultimately show ?thesis using a assms(1,8,9) len by (auto simp: counted_def)
  qed
qed

lemma drop_Cons_D: "x # xs = drop i ys \<Longrightarrow> i < length ys \<and> x = ys ! i \<and> xs = drop (Suc i) ys"
  by (metis Cons_nth_drop_Suc drop_all linorder_not_le list.distinct(1) list.inject)

lemma trusting_loop_spec:
  assumes "trusting_loop C T chainID c voters required seen idx sigs tally untally keys msgs = Ret r"
    and "sigs = drop idx (c_Signatures c)"
    and "counted C T chainID c voters keys msgs A B" and "tally = wrap64 (sum_weights A)" and "untally = wrap64 (sum_weights B)"
    and "\<forall>v \<in> set (A @ B). fst (VoterSet_GetByAddress voters (Address v)) \<in> dom seen"
  shows "case r of LightError err \<Rightarrow> True
    | LightEnough \<Rightarrow> \<exists>A. counted C T chainID c voters [] [] A [] \<and> required < wrap64 (sum_weights A)
    | LightRest t u ks ms \<Rightarrow> \<exists>A B. counted C T chainID c voters ks ms A B \<and> t = wrap64 (sum_weights A) \<and> u = wrap64 (sum_weights B)"
  using assms
proof (induction sigs arbitrary: seen idx tally untally keys msgs A B)
  case (Cons cs sigs)
  have idx: "idx < length (c_Signatures c)" "cs = c_Signatures c ! idx" "sigs = drop (Suc idx) (c_Signatures c)"
    using drop_Cons_D [OF Cons.prems(2)] by auto
  note skip = Cons.IH [OF _ idx(3) Cons.prems(3-6)]
  show ?case
  proof (cases "ForBlock cs")
    case False
    then show ?thesis using Cons.prems(1) by (intro skip) simp
  next
    case fb: True
    obtain j vo where g: "VoterSet_GetByAddress voters (cs_ValidatorAddress cs) = (j, vo)" by fastforce
    show ?thesis
    proof (cases vo)
      case None
      then show ?thesis using Cons.prems(1) g fb by (intro skip) simp
    next
      case (Some v)
      note v = GetByAddress_Some [OF g [unfolded Some]]
      show ?thesis
      proof (cases "seen j")
        case (Some first)
        then have "r = LightError (DoubleVote first idx)" using Cons.prems(1) g fb \<open>vo = Some v\<close> by simp
        then show ?thesis by simp
      next
        case None
        have fresh: "Address v \<notin> Address ` set (A @ B)"
        proof
          assume "Address v \<in> Address ` set (A @ B)"
          then obtain u where "u \<in> set (A @ B)" "Address u = Address v" by force
          then have "j \<in> dom seen" using Cons.prems(6) g v by force
          then show False using None by auto
        qed
        show ?thesis
        proof (cases "\<exists>err. r = LightError err")
          case False
          then obtain bz ver unver keys' msgs' where
              bz: "Commit_VoteSignBytes T c chainID (wrap32 (int idx)) = Ret bz"
            and one: "verifySignatureOrCollectBlsPubKeysAndGetVotingWeight C idx cs v bz keys msgs
                = Ret (Inr (ver, unver, keys', msgs'))"
            and res: "(if wrap64 (tally + ver) > required then Ret LightEnough
                else trusting_loop C T chainID c voters required (seen(j \<mapsto> idx)) (Suc idx) sigs
                   (wrap64 (tally + ver)) (wrap64 (untally + unver)) keys' msgs') = Ret r"
            using Cons.prems(1) fb g \<open>vo = Some v\<close> None
            by (auto simp: Let_def split: bind_splits sum.splits prod.splits)
          obtain A' B' where AB: "counted C T chainID c voters keys' msgs' A' B'"
              "sum_weights A + ver = sum_weights A'" "sum_weights B + unver = sum_weights B'" "set (A' @ B') = insert v (set (A @ B))"
            using counted_step [OF Cons.prems(3) one idx(2,1) fb _ bz _ fresh] v by (auto simp: sum_weights_def)
          have wr: "wrap64 (tally + ver) = wrap64 (sum_weights A')" "wrap64 (untally + unver) = wrap64 (sum_weights B')"
            unfolding Cons.prems(4,5) wrap64_add AB(2,3) by simp_all
          show ?thesis
          proof (cases "wrap64 (sum_weights A') > required")
            case True
            then have "r = LightEnough" using res by (simp add: wr)
            moreover have "counted C T chainID c voters [] [] A' []" using AB(1) by (auto simp: counted_def)
            ultimately show ?thesis using True by auto
          next
            case False
            have "\<forall>u \<in> set (A' @ B'). fst (VoterSet_GetByAddress voters (Address u)) \<in> dom (seen(j \<mapsto> idx))"
              unfolding AB(4) using Cons.prems(6) g v by auto
            moreover have "trusting_loop C T chainID c voters required (seen(j \<mapsto> idx)) (Suc idx) sigs
                (wrap64 (sum_weights A')) (wrap64 (sum_weights B')) keys' msgs' = Ret r"
              using res False by (simp add: wr)
            ultimately show ?thesis using Cons.IH [OF _ idx(3) AB(1) refl refl] by blast
          qed
        qed auto
      qed
    qed
  qed
qed (auto, blast)

definition quorum_signed ::
  "crypto_lib \<Rightarrow> time_encoder \<Rightarrow> bytes \<Rightarrow> Commit \<Rightarrow> VoterSet \<Rightarrow> int \<Rightarrow> bool" where
  "quorum_signed C T chainID c voters required \<longleftrightarrow>
     (\<exists>S keys msgs. S \<subseteq> set (Voters voters) \<and> required < (\<Sum>v\<in>S. VotingWeight v)
        \<and> (\<forall>v\<in>S. signer C T chainID c keys msgs v)
        \<and> (keys = [] \<or> VerifyAggregatedSignature C (c_AggregatedSignature c) keys msgs = None))"

text \<open>A set of voters with different addresses that signed the commit.\<close>

definition signed_by ::
  "crypto_lib \<Rightarrow> time_encoder \<Rightarrow> bytes \<Rightarrow> Commit \<Rightarrow> VoterSet \<Rightarrow> Validator set \<Rightarrow> bool" where
  "signed_by C T chainID c voters S \<longleftrightarrow> S \<subseteq> set (Voters voters) \<and> inj_on Address S
     \<and> (\<exists>keys msgs. (\<forall>v\<in>S. signer C T chainID c keys msgs v)
          \<and> (keys = [] \<or> VerifyAggregatedSignature C (c_AggregatedSignature c) keys msgs = None))"

lemma signed_quorum:
  "signed_by C T chainID c voters S \<Longrightarrow> required < (\<Sum>v\<in>S. VotingWeight v) \<Longrightarrow> quorum_signed C T chainID c voters required"
  unfolding signed_by_def quorum_signed_def by blast

lemma counted_signed:
  assumes "counted C T chainID c voters keys msgs A B"
    and "keys = [] \<or> VerifyAggregatedSignature C (c_AggregatedSignature c) keys msgs = None"
  shows "signed_by C T chainID c voters (set (A @ B)) \<and> sum_weights (A @ B) = (\<Sum>v\<in>set (A @ B). VotingWeight v)"
proof -
  have "distinct (map Address (A @ B))" using assms(1) unfolding counted_def by blast
  then have d: "distinct (A @ B)" "inj_on Address (set (A @ B))" unfolding distinct_map by blast+
  then have "sum_weights (A @ B) = (\<Sum>v\<in>set (A @ B). VotingWeight v)"
    unfolding sum_weights_def by (intro sum_list_distinct_conv_sum_set)
  moreover have "signed_by C T chainID c voters (set (A @ B))" unfolding signed_by_def using assms signer_Nil d(2)
    by (intro conjI exI [of _ keys] exI [of _ msgs]) (auto simp: counted_def)
  ultimately show ?thesis by blast
qed

lemma light_finish_signed:
  assumes "light_finish C c required r = None"
    and r: "case r of LightError err \<Rightarrow> True
    | LightEnough \<Rightarrow> \<exists>A. counted C T chainID c voters [] [] A [] \<and> required < wrap64 (sum_weights A)
    | LightRest t u ks ms \<Rightarrow> \<exists>A B. counted C T chainID c voters ks ms A B \<and> t = wrap64 (sum_weights A) \<and> u = wrap64 (sum_weights B)"
  shows "\<exists>S. signed_by C T chainID c voters S \<and> required < wrap64 (\<Sum>v\<in>S. VotingWeight v)"
proof (cases r)
  case LightEnough
  then obtain A where "counted C T chainID c voters [] [] A []" "required < wrap64 (sum_weights (A @ []))" using r by auto
  then show ?thesis using counted_signed [of C T chainID c voters "[]" "[]" A "[]"] by auto
next
  case (LightRest t u ks ms)
  then obtain A B where AB: "counted C T chainID c voters ks ms A B" "t = wrap64 (sum_weights A)" "u = wrap64 (sum_weights B)"
    using r by auto
  have "wrap64 (t + u) = wrap64 (sum_weights (A @ B))" using AB(2,3) by (simp add: wrap64_add sum_weights_def)
  then have "required < wrap64 (sum_weights (A @ B))" "VerifyAggregatedSignature C (c_AggregatedSignature c) ks ms = None"
    using assms(1) LightRest by (auto simp: light_finish_def Let_def split: option.splits if_splits)
  then show ?thesis using counted_signed [OF AB(1)] by auto
qed (use assms in \<open>simp add: light_finish_def\<close>)

lemma trusting_signed:
  assumes "trusting_loop C T chainID c voters required Map.empty 0 (c_Signatures c) 0 0 [] [] = Ret r"
    and "light_finish C c required r = None"
  shows "\<exists>S. signed_by C T chainID c voters S \<and> required < wrap64 (\<Sum>v\<in>S. VotingWeight v)"
proof -
  have "counted C T chainID c voters [] [] [] []" "0 = wrap64 (sum_weights [])"
    by (simp_all add: counted_def sum_weights_def wrap64_def)
  from trusting_loop_spec [OF assms(1) _ this this(2)] show ?thesis
    by (intro light_finish_signed [OF assms(2)]) simp
qed

text \<open>In a well-formed set the weights do not overflow.\<close>

lemma signed_weight_wf:
  assumes "wf_voters voters" and "signed_by C T chainID c voters S"
  shows "wrap64 (\<Sum>v\<in>S. VotingWeight v) = (\<Sum>v\<in>S. VotingWeight v)"
proof -
  have S: "S \<subseteq> set (Voters voters)" and nn: "\<forall>v\<in>set (Voters voters). 0 \<le> VotingWeight v"
    using assms by (auto simp: signed_by_def wf_voters_def)
  have "(\<Sum>v\<in>S. VotingWeight v) \<le> (\<Sum>v\<in>set (Voters voters). VotingWeight v)" using S nn by (intro sum_mono2) auto
  also have "\<dots> = sum_weights (Voters voters)"
    using assms(1) by (simp add: sum_weights_def sum_list_distinct_conv_sum_set wf_voters_def distinct_map)
  finally have "(\<Sum>v\<in>S. VotingWeight v) < 2305843009213693952"
    using assms(1) by (simp add: wf_voters_def MaxTotalVotingWeight_def max_power)
  moreover have "0 \<le> (\<Sum>v\<in>S. VotingWeight v)" using S nn by (intro sum_nonneg) auto
  ultimately show ?thesis by (intro wrap64_id) (auto simp: in64_def int_limits)
qed

lemma trusting_quorum:
  assumes "wf_voters voters"
    and "trusting_loop C T chainID c voters required Map.empty 0 (c_Signatures c) 0 0 [] [] = Ret r"
    and "light_finish C c required r = None"
  shows "quorum_signed C T chainID c voters required"
  using trusting_signed [OF assms(2,3)] signed_weight_wf [OF assms(1)] signed_quorum by metis

lemma find_address_pos:
  "find_address k vs a = (j, Some v) \<Longrightarrow> \<exists>i < length vs. j = wrap32 (int (k + i)) \<and> Address (vs ! i) = a"
proof (induction k vs a rule: find_address.induct)
  case (2 k u vs a)
  show ?case
  proof (cases "Address u = a")
    case False
    then obtain i where "i < length vs" "j = wrap32 (int (Suc k + i))" "Address (vs ! i) = a" using 2 by auto
    then show ?thesis by (intro exI [of _ "Suc i"]) simp
  qed (use "2.prems" in auto)
qed simp

lemma GetByAddress_inj:
  assumes "int (length (Voters voters)) \<le> MaxInt32"
    and "VoterSet_GetByAddress voters a = (j, Some u)" and "VoterSet_GetByAddress voters b = (j, Some v)"
  shows "a = b"
proof -
  obtain i k where "i < length (Voters voters)" "j = wrap32 (int i)" "Address (Voters voters ! i) = a"
    "k < length (Voters voters)" "j = wrap32 (int k)" "Address (Voters voters ! k) = b"
    using find_address_pos [of 0 "Voters voters"] assms(2,3) unfolding VoterSet_GetByAddress_def by (metis add_0)
  moreover have "wrap32 (int i) = int i" if "i < length (Voters voters)" for i
    using that assms(1) by (intro wrap32_id) (auto simp: in32_def int_limits)
  ultimately show ?thesis by auto
qed

text \<open>
  Where no address signs twice for the block, the light verifier computes what the trusting one does,
  which rejects a second signature.
\<close>

lemma light_loop_is_trusting:
  assumes "distinct (map cs_ValidatorAddress (filter ForBlock sigs))" and "int (length (Voters voters)) \<le> MaxInt32"
    and "\<forall>cs \<in> set sigs. ForBlock cs \<longrightarrow>
      (\<forall>j v. VoterSet_GetByAddress voters (cs_ValidatorAddress cs) = (j, Some v) \<longrightarrow> seen j = None)"
  shows "light_loop C T chainID c voters required idx sigs tally untally keys msgs
    = trusting_loop C T chainID c voters required seen idx sigs tally untally keys msgs"
  using assms(1,3)
proof (induction sigs arbitrary: seen idx tally untally keys msgs)
  case (Cons cs sigs)
  show ?case
  proof (cases "ForBlock cs")
    case False
    then show ?thesis using Cons by simp
  next
    case fb: True
    obtain j vo where g: "VoterSet_GetByAddress voters (cs_ValidatorAddress cs) = (j, vo)" by fastforce
    show ?thesis
    proof (cases vo)
      case None
      then show ?thesis using Cons fb g by simp
    next
      case (Some v)
      have "seen j = None" using Cons.prems(2) fb g Some by simp
      moreover have "\<forall>cs \<in> set sigs. ForBlock cs \<longrightarrow>
        (\<forall>i v. VoterSet_GetByAddress voters (cs_ValidatorAddress cs) = (i, Some v) \<longrightarrow> (seen(j \<mapsto> idx)) i = None)"
      proof (intro ballI impI allI)
        fix cs' i v' assume cs': "cs' \<in> set sigs" "ForBlock cs'"
          and g': "VoterSet_GetByAddress voters (cs_ValidatorAddress cs') = (i, Some v')"
        have "i \<noteq> j"
        proof
          assume "i = j"
          then have "cs_ValidatorAddress cs' = cs_ValidatorAddress cs"
            using GetByAddress_inj [OF assms(2)] g g' Some by blast
          moreover have "cs_ValidatorAddress cs' \<in> set (map cs_ValidatorAddress (filter ForBlock sigs))"
            using cs' by auto
          ultimately show False using Cons.prems(1) fb by auto
        qed
        moreover have "seen i = None" using Cons.prems(2) cs' g' by auto
        ultimately show "(seen(j \<mapsto> idx)) i = None" by simp
      qed
      moreover have "distinct (map cs_ValidatorAddress (filter ForBlock sigs))" using Cons.prems(1) fb by simp
      ultimately have "light_loop C T chainID c voters required (Suc idx) sigs t u ks ms
          = trusting_loop C T chainID c voters required (seen(j \<mapsto> idx)) (Suc idx) sigs t u ks ms" for t u ks ms
        using Cons.IH by blast
      then show ?thesis using \<open>seen j = None\<close> fb g Some
        by (auto simp: Let_def split: bind_split sum.split prod.split)
    qed
  qed
qed simp

section \<open>Properties\<close>

definition ex_crypto :: crypto_lib where
  "ex_crypto = \<lparr>sha256 = (\<lambda>_. []), sha512_256 = (\<lambda>_. []), ripemd160 = (\<lambda>_. []),
     ed25519_Verify = (\<lambda>k msg sig. k = [1]), secp256k1_ParsePubKey = (\<lambda>_. False),
     secp256k1_Verify = (\<lambda>_ _ _. False), secp256k1_N = 0, sr25519_Verify = (\<lambda>_ _ _. False),
     bls_DeserializeKey = (\<lambda>_. False), bls_DeserializeSign = (\<lambda>_. False), bls_VerifyHash = (\<lambda>_ _ _. False),
     bls_VerifyAggregateHashes = (\<lambda>_ _ _. False), bls_ZeroSign = [], bls_AddSign = (\<lambda>_ _. []),
     vrf_Verify = (\<lambda>_ _ _. None), vrf_ProofToHash = (\<lambda>_. None)\<rparr>"

definition ex_voter :: "byte \<Rightarrow> byte \<Rightarrow> int64 \<Rightarrow> Validator" where
  "ex_voter a k w = \<lparr>Address = [a], PubKey = Some (PubKeyEd25519 [k]), VotingPower = w, VotingWeight = w, ProposerPriority = 0\<rparr>"

definition ex_voters :: "int64 \<Rightarrow> int64 \<Rightarrow> VoterSet" where
  "ex_voters w x = \<lparr>Voters = [ex_voter 1 1 w, ex_voter 2 2 x, ex_voter 3 3 x], totalVotingWeight = w + 2 * x\<rparr>"

definition ex_block :: BlockID where
  "ex_block = \<lparr>bid_Hash = replicate 32 5, bid_PartSetHeader = \<lparr>psh_Total = 1, psh_Hash = replicate 32 6\<rparr>\<rparr>"

definition ex_sig :: "byte \<Rightarrow> CommitSig" where
  "ex_sig a = NewCommitSigForBlock (Some (replicate 64 0)) [a] 9"

definition ex_commit :: "CommitSig list \<Rightarrow> Commit" where
  "ex_commit sigs = NewCommit 7 0 ex_block sigs"

lemma ex_voters_wf: "0 \<le> w \<Longrightarrow> 0 \<le> x \<Longrightarrow> w + 2 * x \<le> 1000 \<Longrightarrow> wf_voters (ex_voters w x)"
  by (simp add: wf_voters_def ex_voters_def ex_voter_def sum_weights_def MaxTotalVotingWeight_def max_power)

lemma ex_commit_bytes:
  assumes "i < length sigs" and "i < 100" and "sigs ! i = ex_sig a"
  shows "\<exists>bz. Commit_VoteSignBytes ex_time (ex_commit sigs) ch (int i) = Ret bz"
proof -
  have "BlockID_ValidateBasic ex_block = None"
    by (simp add: BlockID_ValidateBasic_def PartSetHeader_ValidateBasic_def ValidateHash_def ex_block_def tmhash_Size_def)
  then show ?thesis using assms
    by (simp add: Commit_VoteSignBytes_def GetVote_def index_in ex_commit_def NewCommit_def ex_sig_def
        NewCommitSigForBlock_def CommitSig_BlockID_def BlockIDFlagAbsent_def BlockIDFlagCommit_def
        VoteSignBytes_def CanonicalizeVote_def CanonicalizeBlockID_def BlockIDFromProto_valid
        CanonicalVote_Marshal_def ex_time_def)
qed

lemma ex_commit_simps [simp]:
  "c_Signatures (ex_commit sigs) = sigs" "c_Height (ex_commit sigs) = 7" "c_BlockID (ex_commit sigs) = ex_block"
  "c_AggregatedSignature (ex_commit sigs) = None"
  by (simp_all add: ex_commit_def NewCommit_def)

lemmas ex_verify_defs = ex_voters_def ex_voter_def ex_crypto_def ex_sig_def NewCommitSigForBlock_def
  NewCommitSigAbsent_def ForBlock_def Absent_def BlockIDFlagAbsent_def BlockIDFlagCommit_def
  VoterSet_GetByAddress_def verifySignatureOrCollectBlsPubKeysAndGetVotingWeight_def
  ed25519_VerifySignature_def ed25519_SignatureSize_def VerifyAggregatedSignature_def
  check_commit_def VoterSet_Size_def light_finish_def


lemma ex_total: "0 \<le> w \<Longrightarrow> 0 \<le> x \<Longrightarrow> w + 2 * x \<le> 1000 \<Longrightarrow> TotalVotingWeight (ex_voters w x) = Ret (ex_voters w x, w + 2 * x)"
  using TotalVotingWeight_wf [OF ex_voters_wf, of w x] by (simp add: ex_voters_def ex_voter_def sum_weights_def)

text \<open>
  C22. Commit verification is sound: when \<^verbatim>\<open>VerifyCommit\<close> accepts a commit for a well-formed voter set, the
  commit is for the given height and block, has one signature slot per voter, every slot that is not
  absent holds a valid signature of the voter at that position (or the voter's BLS key is part of the
  verified aggregate) over the vote for that slot, and the voters whose slot is for the block have more
  than two thirds of the total voting weight.
\<close>

theorem VerifyCommit_sound:
  assumes "wf_voters vs" and "VerifyCommit C T (Some vs) chainID blockID height (Some c) = Ret (vs', None)"
  shows "c_Height c = height \<and> c_BlockID c = blockID \<and> length (c_Signatures c) = length (Voters vs)
    \<and> 2 * totalVotingWeight vs < 3 * block_weight (c_Signatures c) (Voters vs)
    \<and> (\<exists>keys msgs. VerifyAggregatedSignature C (c_AggregatedSignature c) keys msgs = None
         \<and> (\<forall>j < length (c_Signatures c). \<not> Absent (c_Signatures c ! j) \<longrightarrow>
              (\<exists>bz. Commit_VoteSignBytes T c chainID (wrap32 (int j)) = Ret bz
                 \<and> attested C keys msgs (c_Signatures c ! j) (Voters vs ! j) bz)))"
  using VerifyCommit_accepts [OF assms]
  by (auto simp: check_commit_def VoterSet_Size_def split: if_splits)

theorem VerifyCommit_sound_witness:
  "2 * totalVotingWeight (ex_voters 30 5)
     < 3 * block_weight [ex_sig 1, NewCommitSigAbsent, NewCommitSigAbsent] (Voters (ex_voters 30 5))"
proof -
  let ?sigs = "[ex_sig 1, NewCommitSigAbsent, NewCommitSigAbsent]"
  obtain b0 where b: "Commit_VoteSignBytes ex_time (ex_commit ?sigs) [] 0 = Ret b0"
    using ex_commit_bytes [of 0 ?sigs 1 "[]"] by auto
  have "VerifyCommit ex_crypto ex_time (Some (ex_voters 30 5)) [] ex_block 7 (Some (ex_commit ?sigs))
      = Ret (Some (ex_voters 30 5), None)"
    using b by (simp add: VerifyCommit_def ex_total Let_def)
      (simp add: ex_verify_defs TotalVotingWeight_def index_in wrap32_def wrap64_def signed_divide_int_def Let_def)
  from VerifyCommit_sound [OF ex_voters_wf this] show ?thesis by simp
qed

lemma VerifyCommitLightTrusting_quorum:
  assumes "wf_voters vs" and "VerifyCommitLightTrusting C T vs chainID c level = Ret (vs', None)"
    and "int (Numerator level) \<le> MaxInt64" and "int (Denominator level) \<le> MaxInt64"
  shows "quorum_signed C T chainID c vs (totalVotingWeight vs * int (Numerator level) div int (Denominator level))"
proof -
  let ?n = "int (Numerator level)" and ?d = "int (Denominator level)" and ?tot = "totalVotingWeight vs"
  have tot: "sum_weights (Voters vs) = ?tot" using assms(1) by (simp add: wf_voters_def)
  note t = wf_voters_total [OF assms(1)]
  have n: "wrap64 ?n = ?n" and d: "wrap64 ?d = ?d" using assms(3,4) by (auto intro!: wrap64_id simp: in64_def int_limits)
  have d0: "Denominator level \<noteq> 0" using assms(2) by (auto simp: VerifyCommitLightTrusting_def split: if_splits)
  have "safeMul ?tot ?n = (if \<bar>?tot * ?n\<bar> \<le> MaxInt64 then (?tot * ?n, False) else (0, True))"
    using t assms(3) by (intro safeMul_eq) (auto simp: in64_def MaxTotalVotingWeight_def max_power)
  then have mul: "safeMul ?tot ?n = (?tot * ?n, False)" and le: "?tot * ?n \<le> MaxInt64"
    using assms(2) TotalVotingWeight_wf [OF assms(1)] d0 n tot
    by (auto simp: VerifyCommitLightTrusting_def split: if_splits)
  have dv: "?tot * ?n sdiv ?d = ?tot * ?n div ?d" using t by (intro sdiv_nonneg) auto
  have "?tot * ?n div ?d \<le> ?tot * ?n" using t d0 zdiv_mono2 [of "?tot * ?n" 1 ?d] by simp
  then have "wrap64 (?tot * ?n div ?d) = ?tot * ?n div ?d"
    using le t d0 by (intro wrap64_id) (auto simp: in64_def int_limits pos_imp_zdiv_nonneg_iff intro: order_trans [of _ 0])
  then have q: "go_div (?tot * ?n) ?d = Ret (?tot * ?n div ?d)" using d0 dv by (simp add: go_div_def)
  obtain r where r: "trusting_loop C T chainID c vs (?tot * ?n div ?d) Map.empty 0 (c_Signatures c) 0 0 [] [] = Ret r"
      "light_finish C c (?tot * ?n div ?d) r = None"
    using assms(2) TotalVotingWeight_wf [OF assms(1)] d0 n d tot mul q
    by (auto simp: VerifyCommitLightTrusting_def split: bind_splits)
  show ?thesis using trusting_quorum [OF assms(1) r] .
qed

text \<open>
  C23. Trusting verification is sound: when \<^verbatim>\<open>VerifyCommitLightTrusting\<close> accepts a commit for a well-formed voter set
  (distinct addresses, non-negative weights, a cached total that is their sum and within the maximum) and a trust level
  with parts within int64, then distinct voters of the set with more than that fraction of its total weight
  signed the commit's block. The sets a light client stores after verification are the intended argument; a set decoded from a
  message need not be well formed, since \<^verbatim>\<open>VoterSetFromProto\<close> takes the total from the message.
\<close>

theorem VerifyCommitLightTrusting_sound:
  assumes "wf_voters vs" and "VerifyCommitLightTrusting C T vs chainID c level = Ret (vs', None)"
    and "int (Numerator level) \<le> MaxInt64" and "int (Denominator level) \<le> MaxInt64"
  shows "quorum_signed C T chainID c vs (totalVotingWeight vs * int (Numerator level) div int (Denominator level))"
  by (rule VerifyCommitLightTrusting_quorum [OF assms])

theorem VerifyCommitLightTrusting_sound_witness:
  "quorum_signed ex_crypto ex_time [] (ex_commit [ex_sig 1]) (ex_voters 30 5) 13"
proof -
  let ?level = "\<lparr>Numerator = 1, Denominator = 3\<rparr>"
  obtain b0 where b: "Commit_VoteSignBytes ex_time (ex_commit [ex_sig 1]) [] 0 = Ret b0"
    using ex_commit_bytes [of 0 "[ex_sig 1]" 1 "[]"] by auto
  have m: "safeMul 40 (wrap64 1) = (40, False)" "go_div 40 (wrap64 3) = Ret 13" by code_simp+
  have "VerifyCommitLightTrusting ex_crypto ex_time (ex_voters 30 5) [] (ex_commit [ex_sig 1]) ?level
      = Ret (ex_voters 30 5, None)"
    using b by (simp add: VerifyCommitLightTrusting_def ex_total m)
      (simp add: ex_verify_defs wrap32_def wrap64_def Let_def)
  from VerifyCommitLightTrusting_sound [OF ex_voters_wf this] show ?thesis by (simp add: int_limits ex_voters_def)
qed

text \<open>
  What light verification establishes for any voter set, also one that a peer made: the weight that signed is compared with
  two thirds of the total that the set states, both computed with the wrap-around of int64.
\<close>

definition stated_quorum :: "crypto_lib \<Rightarrow> time_encoder \<Rightarrow> bytes \<Rightarrow> Commit \<Rightarrow> VoterSet \<Rightarrow> bool" where
  "stated_quorum C T chainID c voters \<longleftrightarrow> (\<exists>voters' tot S. TotalVotingWeight voters = Ret (voters', tot)
     \<and> signed_by C T chainID c voters S \<and> wrap64 (tot * 2) sdiv 3 < wrap64 (\<Sum>v\<in>S. VotingWeight v))"

lemma TotalVotingWeight_Voters: "TotalVotingWeight vs = Ret (vs', tot) \<Longrightarrow> Voters vs' = Voters vs"
  by (auto simp: TotalVotingWeight_def updateTotalVotingWeight_def split: if_splits bind_splits)

lemma VerifyCommitLight_stated:
  assumes "VerifyCommitLight C T (Some vs) chainID blockID height (Some c) = Ret (vs', None)"
    and "distinct (map cs_ValidatorAddress (filter ForBlock (c_Signatures c)))" and "int (length (Voters vs)) \<le> MaxInt32"
  shows "c_Height c = height \<and> c_BlockID c = blockID \<and> stated_quorum C T chainID c vs"
proof -
  have chk: "check_commit vs blockID height c = None"
    using assms(1) by (auto simp: VerifyCommitLight_def split: option.splits)
  obtain vs1 tot r where t: "TotalVotingWeight vs = Ret (vs1, tot)"
    and r: "light_loop C T chainID c vs1 (wrap64 (tot * 2) sdiv 3) 0 (c_Signatures c) 0 0 [] [] = Ret r"
      "light_finish C c (wrap64 (tot * 2) sdiv 3) r = None"
    using assms(1) chk by (auto simp: VerifyCommitLight_def Let_def split: bind_splits)
  note vv = TotalVotingWeight_Voters [OF t]
  have "trusting_loop C T chainID c vs1 (wrap64 (tot * 2) sdiv 3) Map.empty 0 (c_Signatures c) 0 0 [] [] = Ret r"
    using r(1) light_loop_is_trusting [OF assms(2), of vs1 Map.empty C T chainID c "wrap64 (tot * 2) sdiv 3" 0 0 0 "[]" "[]"] assms(3) vv
    by simp
  then have "\<exists>S. signed_by C T chainID c vs1 S \<and> wrap64 (tot * 2) sdiv 3 < wrap64 (\<Sum>v\<in>S. VotingWeight v)"
    using trusting_signed r(2) by blast
  moreover have "signed_by C T chainID c vs1 S = signed_by C T chainID c vs S" for S by (simp add: signed_by_def vv)
  ultimately have "stated_quorum C T chainID c vs" using t by (auto simp: stated_quorum_def)
  then show ?thesis using chk by (auto simp: check_commit_def split: if_splits)
qed

lemma stated_quorum_wf:
  assumes "wf_voters vs" and "stated_quorum C T chainID c vs"
  shows "quorum_signed C T chainID c vs (2 * totalVotingWeight vs div 3)"
proof -
  have tot: "sum_weights (Voters vs) = totalVotingWeight vs" using assms(1) by (simp add: wf_voters_def)
  have "wrap64 (totalVotingWeight vs * 2) = totalVotingWeight vs * 2"
    using wf_voters_total [OF assms(1)] by (intro wrap64_id) (auto simp: in64_def MaxTotalVotingWeight_def max_power)
  then have "wrap64 (totalVotingWeight vs * 2) sdiv 3 = 2 * totalVotingWeight vs div 3"
    using wf_voters_total [OF assms(1)] by (simp add: sdiv_nonneg mult.commute)
  then show ?thesis
    using assms(2) TotalVotingWeight_wf [OF assms(1)] tot signed_weight_wf [OF assms(1)] signed_quorum
    by (fastforce simp: stated_quorum_def)
qed

text \<open>
  C24. What light verification establishes: when \<^verbatim>\<open>VerifyCommitLight\<close> accepts a commit in which no address signs twice, for
  any voter set of at most 2^31-1 voters, also one supplied by a peer, the commit is for the given height and block, and a set of
  voters with different addresses signed it whose weight exceeds two thirds of the total weight the set states,
  in int64 arithmetic. If the voter set is well formed (distinct addresses, non-negative weights, the stated total being their sum and
  within the maximum), these voters have more than two thirds of the weight of the set.
\<close>

theorem VerifyCommitLight_sound:
  assumes "VerifyCommitLight C T (Some vs) chainID blockID height (Some c) = Ret (vs', None)"
    and "distinct (map cs_ValidatorAddress (filter ForBlock (c_Signatures c)))"
    and "int (length (Voters vs)) \<le> MaxInt32"
  shows "c_Height c = height \<and> c_BlockID c = blockID \<and> stated_quorum C T chainID c vs
    \<and> (wf_voters vs \<longrightarrow> quorum_signed C T chainID c vs (2 * totalVotingWeight vs div 3))"
  using VerifyCommitLight_stated [OF assms] stated_quorum_wf by blast

theorem VerifyCommitLight_sound_witness:
  "quorum_signed ex_crypto ex_time [] (ex_commit [ex_sig 1, NewCommitSigAbsent, NewCommitSigAbsent]) (ex_voters 30 5) 26"
proof -
  let ?sigs = "[ex_sig 1, NewCommitSigAbsent, NewCommitSigAbsent]"
  obtain b0 where b: "Commit_VoteSignBytes ex_time (ex_commit ?sigs) [] 0 = Ret b0"
    using ex_commit_bytes [of 0 ?sigs 1 "[]"] by auto
  have r: "wrap64 (40 * 2) sdiv 3 = 26" by code_simp
  have ok: "VerifyCommitLight ex_crypto ex_time (Some (ex_voters 30 5)) [] ex_block 7 (Some (ex_commit ?sigs))
      = Ret (Some (ex_voters 30 5), None)"
    using b by (simp add: VerifyCommitLight_def ex_total Let_def r [simplified])
      (simp add: ex_verify_defs TotalVotingWeight_def wrap32_def wrap64_def signed_divide_int_def Let_def)
  have "distinct (map cs_ValidatorAddress (filter ForBlock (c_Signatures (ex_commit ?sigs))))"
    by (simp add: ex_verify_defs)
  from VerifyCommitLight_sound [OF ok this] show ?thesis using ex_voters_wf [of 30 5] by (simp add: int_limits ex_voters_def)
qed


end
