(* ===== verification/Vote_Set_Inv.thy ===== *)
theory Vote_Set_Inv
  imports Vote_Set Commit_Sound
begin

text \<open>
  The invariant of vote sets and what it gives: the bit arrays mirror the votes, the sums are the
  voting weights, the majority block is the first one whose verified votes weigh more than two thirds,
  and two different majorities for the same step need voters of more than a third of the weight to
  have voted for both.
\<close>

section \<open>Quorums\<close>

text \<open>What is needed of a set of voters: a finite number of positions with weights that are not negative.\<close>

locale weighted_quorum =
  fixes wf :: "'s \<Rightarrow> bool"
    and weight :: "'s \<Rightarrow> nat \<Rightarrow> int"
    and num :: "'s \<Rightarrow> nat"
  assumes weight_nonneg: "wf s \<Longrightarrow> i < num s \<Longrightarrow> 0 \<le> weight s i"
begin

definition weight_of :: "'s \<Rightarrow> nat set \<Rightarrow> int" where
  "weight_of s A = (\<Sum>i\<in>A. weight s i)"

definition total_weight :: "'s \<Rightarrow> int" where
  "total_weight s = weight_of s {..<num s}"

definition quorum :: "'s \<Rightarrow> nat set \<Rightarrow> bool" where
  "quorum s A \<longleftrightarrow> A \<subseteq> {..<num s} \<and> 2 * total_weight s < 3 * weight_of s A"

lemma weight_of_mono:
  assumes "wf s" and "A \<subseteq> B" and "B \<subseteq> {..<num s}"
  shows "0 \<le> weight_of s A \<and> weight_of s A \<le> weight_of s B"
proof -
  have fin: "finite B" using assms(3) finite_subset by blast
  have nn: "\<forall>i\<in>B. 0 \<le> weight s i" using assms(1,3) weight_nonneg by auto
  show ?thesis unfolding weight_of_def using fin nn assms(2)
    by (auto intro!: sum_nonneg sum_mono2)
qed

lemma weight_of_insert: "finite A \<Longrightarrow> i \<notin> A \<Longrightarrow> weight_of s (insert i A) = weight s i + weight_of s A"
  by (simp add: weight_of_def)

lemma weight_of_empty [simp]: "weight_of s {} = 0"
  by (simp add: weight_of_def)

theorem quorum_intersection:
  assumes "wf s" and "quorum s A" and "quorum s B"
  shows "total_weight s < 3 * weight_of s (A \<inter> B)"
proof -
  have AB: "A \<subseteq> {..<num s}" "B \<subseteq> {..<num s}" using assms by (auto simp: quorum_def)
  then have fin: "finite A" "finite B" using finite_subset by blast+
  have "weight_of s A + weight_of s B = weight_of s (A \<union> B) + weight_of s (A \<inter> B)"
    unfolding weight_of_def using fin by (simp add: sum.union_inter)
  moreover have "weight_of s (A \<union> B) \<le> total_weight s"
    unfolding total_weight_def using weight_of_mono [OF assms(1), of "A \<union> B" "{..<num s}"] AB by simp
  ultimately show ?thesis using assms(2,3) by (simp add: quorum_def)
qed

lemma quorum_mono: "wf s \<Longrightarrow> quorum s A \<Longrightarrow> A \<subseteq> B \<Longrightarrow> B \<subseteq> {..<num s} \<Longrightarrow> quorum s B"
  using weight_of_mono [of s A B] by (simp add: quorum_def)

end

definition voter_weight :: "VoterSet \<Rightarrow> nat \<Rightarrow> int" where
  "voter_weight voters i = VotingWeight (Voters voters ! i)"

definition num_voters :: "VoterSet \<Rightarrow> nat" where
  "num_voters voters = length (Voters voters)"

interpretation vq: weighted_quorum wf_voters voter_weight num_voters
  by unfold_locales (simp add: wf_voters_def voter_weight_def num_voters_def)

lemma total_weight_cached:
  assumes "wf_voters voters"
  shows "vq.total_weight voters = totalVotingWeight voters"
proof -
  have "sum_weights (Voters voters) = (\<Sum>i<length (Voters voters). VotingWeight (Voters voters ! i))"
    unfolding sum_weights_def by (simp add: sum_list_sum_nth atLeast0LessThan)
  then show ?thesis using assms
    by (simp add: vq.total_weight_def vq.weight_of_def voter_weight_def num_voters_def wf_voters_def)
qed

lemma weight_bounds:
  assumes "wf_voters voters" and "A \<subseteq> {..<num_voters voters}"
  shows "0 \<le> vq.weight_of voters A \<and> vq.weight_of voters A \<le> totalVotingWeight voters"
  using vq.weight_of_mono [OF assms(1,2)] total_weight_cached [OF assms(1)] by (simp add: vq.total_weight_def)

lemma TotalVotingWeight_cached: "wf_voters voters \<Longrightarrow> TotalVotingWeight voters = Ret (voters, totalVotingWeight voters)"
  using TotalVotingWeight_wf by (simp add: wf_voters_def)

section \<open>The invariant\<close>

text \<open>A vote that belongs at position \<open>i\<close> of the set and passed the verifier.\<close>

definition good_vote :: "(Vote \<Rightarrow> vote_verifier) \<Rightarrow> VoteSet \<Rightarrow> nat \<Rightarrow> Vote \<Rightarrow> bool" where
  "good_vote exec vs i v \<longleftrightarrow>
     v_ValidatorIndex v = int i \<and> v_Height v = vset_height vs \<and> v_Round v = vset_round vs \<and> v_Type v = vset_type vs
     \<and> v_ValidatorAddress v = Address (Voters (vset_voterSet vs) ! i)
     \<and> exec v (vset_chainID vs) (PubKey (Voters (vset_voterSet vs) ! i)) = Ret None"

definition wf_blockVotes :: "(Vote \<Rightarrow> vote_verifier) \<Rightarrow> VoteSet \<Rightarrow> bytes \<Rightarrow> blockVotes \<Rightarrow> bool" where
  "wf_blockVotes exec vs key bv \<longleftrightarrow>
     length (bv_votes bv) = num_voters (vset_voterSet vs) \<and> ba.mirrors (bv_bitArray bv) (bv_votes bv)
     \<and> bv_sum bv = vq.weight_of (vset_voterSet vs) (occupied (bv_votes bv))
     \<and> occupied (bv_votes bv) \<subseteq> occupied (votes vs)
     \<and> (\<forall>i < length (bv_votes bv). \<forall>v. bv_votes bv ! i = Some v \<longrightarrow> BlockID_Key (v_BlockID v) = key \<and> good_vote exec vs i v)"

definition has_quorum :: "VoteSet \<Rightarrow> blockVotes \<Rightarrow> bool" where
  "has_quorum vs bv \<longleftrightarrow> vq.quorum (vset_voterSet vs) (occupied (bv_votes bv))"

definition wf_voteSet :: "(Vote \<Rightarrow> vote_verifier) \<Rightarrow> VoteSet \<Rightarrow> bool" where
  "wf_voteSet exec vs \<longleftrightarrow>
     wf_voters (vset_voterSet vs) \<and> length (votes vs) = num_voters (vset_voterSet vs)
     \<and> ba.mirrors (votesBitArray vs) (votes vs)
     \<and> vset_sum vs = vq.weight_of (vset_voterSet vs) (occupied (votes vs))
     \<and> (\<forall>i < length (votes vs). \<forall>v. votes vs ! i = Some v \<longrightarrow> good_vote exec vs i v)
     \<and> (\<forall>k bv. votesByBlock vs k = Some bv \<longrightarrow> wf_blockVotes exec vs k bv)
     \<and> (case maj23 vs of
          None \<Rightarrow> \<forall>k bv. votesByBlock vs k = Some bv \<longrightarrow> \<not> has_quorum vs bv
        | Some b \<Rightarrow> \<exists>bv. votesByBlock vs (BlockID_Key b) = Some bv \<and> has_quorum vs bv
            \<and> (\<forall>i < length (bv_votes bv). \<forall>v. bv_votes bv ! i = Some v \<longrightarrow> votes vs ! i = Some v))"

definition tracked :: "VoteSet \<Rightarrow> bool" where
  "tracked vs \<longleftrightarrow> (\<forall>i < length (votes vs). \<forall>v. votes vs ! i = Some v \<longrightarrow> votesByBlock vs (BlockID_Key (v_BlockID v)) \<noteq> None)"

text \<open>The part of a vote set that no operation changes.\<close>

definition same_step :: "VoteSet \<Rightarrow> VoteSet \<Rightarrow> bool" where
  "same_step vs vs' \<longleftrightarrow>
     vset_chainID vs' = vset_chainID vs \<and> vset_height vs' = vset_height vs \<and> vset_round vs' = vset_round vs
     \<and> vset_type vs' = vset_type vs \<and> vset_voterSet vs' = vset_voterSet vs"

lemma good_vote_same: "same_step vs vs' \<Longrightarrow> good_vote exec vs' i v = good_vote exec vs i v"
  by (simp add: same_step_def good_vote_def)

lemma NewVoteSet_wf:
  assumes "wf_voters voters" and "height \<noteq> 0"
  shows "\<exists>vs. NewVoteSet chainID height rnd ty voters = Ret vs \<and> wf_voteSet exec vs \<and> tracked vs \<and> maj23 vs = None
    \<and> vset_voterSet vs = voters \<and> vset_chainID vs = chainID \<and> vset_height vs = height \<and> vset_round vs = rnd \<and> vset_type vs = ty
    \<and> votes vs = replicate (num_voters voters) None \<and> votesByBlock vs = Map.empty"
  using assms ba.mirrors_new [of "num_voters voters"]
  by (simp add: NewVoteSet_def wf_voteSet_def tracked_def VoterSet_Size_def num_voters_def)

section \<open>Placing a vote\<close>

lemma wf_blockVotes_mono:
  assumes "wf_blockVotes exec vs key bv" and "same_step vs vs'" and "occupied (votes vs) \<subseteq> occupied (votes vs')"
  shows "wf_blockVotes exec vs' key bv"
  using assms good_vote_same [OF assms(2), of exec] by (auto simp: wf_blockVotes_def same_step_def)

lemma getVote_None:
  assumes "getVote vs (int i) key = Ret None"
  shows "i < length (votes vs)"
    and "votes vs ! i = Some e \<Longrightarrow> BlockID_Key (v_BlockID e) \<noteq> key"
    and "votesByBlock vs key = Some bv \<Longrightarrow> i < length (bv_votes bv) \<and> bv_votes bv ! i = None"
  using assms by (auto simp: getVote_def blockVotes_getByIndex_def split: bind_splits option.splits if_splits)

lemma place_vote_spec:
  assumes wf: "wf_voteSet exec vs" and i: "i < num_voters (vset_voterSet vs)"
    and good: "good_vote exec vs i vote" and key: "key = BlockID_Key (v_BlockID vote)"
    and new: "getVote vs (int i) key = Ret None"
  shows "\<exists>vs' c. place_vote vs vote key (voter_weight (vset_voterSet vs) i) = Ret (vs', c)
    \<and> wf_voteSet exec vs' \<and> same_step vs vs' \<and> maj23 vs' = maj23 vs \<and> votesByBlock vs' = votesByBlock vs
    \<and> peerMaj23s vs' = peerMaj23s vs \<and> i \<in> occupied (votes vs') \<and> c = votes vs ! i
    \<and> (c = None \<longrightarrow> votes vs' = (votes vs)[i := Some vote])
    \<and> (\<forall>b. maj23 vs = Some b \<longrightarrow> BlockID_Key b = key \<longrightarrow> votes vs' ! i = Some vote)
    \<and> (\<forall>j. j \<noteq> i \<longrightarrow> j < length (votes vs) \<longrightarrow> votes vs' ! j = votes vs ! j)
    \<and> (votes vs' ! i = votes vs ! i \<or> votes vs' ! i = Some vote) \<and> length (votes vs') = length (votes vs)
    \<and> (votes vs' ! i = Some vote \<longrightarrow> c \<noteq> None \<longrightarrow> votesByBlock vs key \<noteq> None)"
proof -
  let ?w = "voter_weight (vset_voterSet vs) i"
  have idx: "v_ValidatorIndex vote = int i" using good by (simp add: good_vote_def)
  have wfv: "wf_voters (vset_voterSet vs)" and len: "length (votes vs) = num_voters (vset_voterSet vs)"
    and mir: "ba.mirrors (votesBitArray vs) (votes vs)"
    and sum: "vset_sum vs = vq.weight_of (vset_voterSet vs) (occupied (votes vs))"
    and all: "\<forall>i < length (votes vs). \<forall>v. votes vs ! i = Some v \<longrightarrow> good_vote exec vs i v"
    and blocks: "\<forall>k bv. votesByBlock vs k = Some bv \<longrightarrow> wf_blockVotes exec vs k bv"
    using wf by (auto simp: wf_voteSet_def)
  have il: "i < length (votes vs)" using i len by simp
  obtain ba' where ba': "BitArray_SetIndex (votesBitArray vs) (int i) True = Ret (True, ba')"
      "ba.mirrors ba' ((votes vs)[i := Some vote])"
    using ba.mirrors_put [OF mir il] by blast
  let ?vts = "(votes vs)[i := Some vote]"
  have upd: "wf_voteSet exec (vs\<lparr>votes := ?vts, votesBitArray := ba', vset_sum := s\<rparr>)"
    if s: "s = vq.weight_of (vset_voterSet vs) (occupied ?vts)"
      and m: "\<forall>b bv. maj23 vs = Some b \<longrightarrow> votesByBlock vs (BlockID_Key b) = Some bv \<longrightarrow> bv_votes bv ! i = None" for s
  proof -
    let ?vs = "vs\<lparr>votes := ?vts, votesBitArray := ba', vset_sum := s\<rparr>"
    have same: "same_step vs ?vs" by (simp add: same_step_def)
    have "occupied (votes vs) \<subseteq> occupied (votes ?vs)" using il by (auto simp: occupied_update)
    then have blk: "\<forall>k bv. votesByBlock ?vs k = Some bv \<longrightarrow> wf_blockVotes exec ?vs k bv"
      using blocks wf_blockVotes_mono [OF _ same] by simp
    have gv: "\<forall>i < length (votes ?vs). \<forall>v. votes ?vs ! i = Some v \<longrightarrow> good_vote exec ?vs i v"
      using all good il by (auto simp: nth_list_update good_vote_same [OF same] split: if_splits)
    have hq: "has_quorum ?vs bv = has_quorum vs bv" for bv by (simp add: has_quorum_def)
    have mj: "case maj23 ?vs of
          None \<Rightarrow> \<forall>k bv. votesByBlock ?vs k = Some bv \<longrightarrow> \<not> has_quorum ?vs bv
        | Some b \<Rightarrow> \<exists>bv. votesByBlock ?vs (BlockID_Key b) = Some bv \<and> has_quorum ?vs bv
            \<and> (\<forall>i < length (bv_votes bv). \<forall>v. bv_votes bv ! i = Some v \<longrightarrow> votes ?vs ! i = Some v)"
      using wf m il by (fastforce simp: wf_voteSet_def hq nth_list_update split: option.splits)
    show ?thesis unfolding wf_voteSet_def
      by (intro conjI blk gv mj) (use wfv len ba'(2) s in simp_all)
  qed
  show ?thesis
  proof (cases "votes vs ! i")
    case None
    have occ: "occupied ?vts = insert i (occupied (votes vs))" "i \<notin> occupied (votes vs)"
      using il None by (auto simp: occupied_update) (simp add: occupied_def)
    have "insert i (occupied (votes vs)) \<subseteq> {..<num_voters (vset_voterSet vs)}"
      using i len occupied_bound [of "votes vs"] by auto
    then have "0 \<le> vq.weight_of (vset_voterSet vs) (occupied ?vts)"
      "vq.weight_of (vset_voterSet vs) (occupied ?vts) \<le> totalVotingWeight (vset_voterSet vs)"
      using weight_bounds [OF wfv] occ by auto
    then have "wrap64 (vset_sum vs + ?w) = vq.weight_of (vset_voterSet vs) (occupied ?vts)"
      using sum occ wf_voters_total [OF wfv]
      by (subst wrap64_id) (auto simp: vq.weight_of_insert in64_def MaxTotalVotingWeight_def max_power)
    moreover have "\<forall>b bv. maj23 vs = Some b \<longrightarrow> votesByBlock vs (BlockID_Key b) = Some bv \<longrightarrow> bv_votes bv ! i = None"
    proof (intro allI impI)
      fix b bv assume "votesByBlock vs (BlockID_Key b) = Some bv"
      then have "occupied (bv_votes bv) \<subseteq> occupied (votes vs)" "length (bv_votes bv) = length (votes vs)"
        using blocks len by (auto simp: wf_blockVotes_def)
      then show "bv_votes bv ! i = None" using occ(2) il by (auto simp: occupied_def)
    qed
    ultimately show ?thesis using upd idx il None ba'(1) occ
      by (simp add: place_vote_def index_in assign_in same_step_def)
  next
    case (Some e)
    have neq: "v_BlockID e \<noteq> v_BlockID vote" using getVote_None(2) [OF new Some] key by auto
    have occ: "occupied ?vts = occupied (votes vs)" "i \<in> occupied (votes vs)"
      using il Some by (auto simp: occupied_update) (auto simp: occupied_def)
    show ?thesis
    proof (cases "case maj23 vs of None \<Rightarrow> False | Some b \<Rightarrow> BlockID_Key b = key")
      case True
      then obtain b where b: "maj23 vs = Some b" "BlockID_Key b = key" by (auto split: option.splits)
      have tr: "votesByBlock vs key \<noteq> None" using wf b by (auto simp: wf_voteSet_def)
      have "\<forall>b bv. maj23 vs = Some b \<longrightarrow> votesByBlock vs (BlockID_Key b) = Some bv \<longrightarrow> bv_votes bv ! i = None"
        using getVote_None(3) [OF new] b by auto
      then have w: "wf_voteSet exec (vs\<lparr>votes := ?vts, votesBitArray := ba', vset_sum := vset_sum vs\<rparr>)"
        using upd [of "vset_sum vs"] occ sum by simp
      have "vs\<lparr>votes := ?vts, votesBitArray := ba', vset_sum := vset_sum vs\<rparr> = vs\<lparr>votes := ?vts, votesBitArray := ba'\<rparr>"
        by simp
      with w show ?thesis using True idx il Some ba'(1) occ neq b tr
        by (simp add: place_vote_def index_in assign_in same_step_def)
    next
      case False
      then have "place_vote vs vote key ?w = Ret (vs, Some e)" using idx il Some neq
        by (simp add: place_vote_def index_in)
      moreover have "\<not> (\<exists>b. maj23 vs = Some b \<and> BlockID_Key b = key)" using False by (auto split: option.splits)
      moreover have "e \<noteq> vote" using neq by auto
      ultimately show ?thesis using wf Some occ by (auto simp: same_step_def)
    qed
  qed
qed

section \<open>Counting a vote\<close>

lemma newBlockVotes_wf:
  "wf_blockVotes exec vs key (newBlockVotes peer (length (Voters (vset_voterSet vs))))"
  using ba.mirrors_new [of "length (Voters (vset_voterSet vs))"]
  by (simp add: wf_blockVotes_def newBlockVotes_def num_voters_def)

lemma blockVotes_add_spec:
  assumes wfv: "wf_voters (vset_voterSet vs)" and bv: "wf_blockVotes exec vs key bv"
    and i: "i < length (bv_votes bv)" "bv_votes bv ! i = None" "i \<in> occupied (votes vs)"
    and good: "good_vote exec vs i vote" and key: "BlockID_Key (v_BlockID vote) = key"
  shows "\<exists>bv'. blockVotes_addVerifiedVote bv vote (voter_weight (vset_voterSet vs) i) = Ret bv'
    \<and> wf_blockVotes exec vs key bv' \<and> bv_votes bv' = (bv_votes bv)[i := Some vote]
    \<and> bv_peerMaj23 bv' = bv_peerMaj23 bv"
proof -
  let ?vts = "(bv_votes bv)[i := Some vote]"
  have idx: "v_ValidatorIndex vote = int i" using good by (simp add: good_vote_def)
  have len: "length (bv_votes bv) = num_voters (vset_voterSet vs)" and mir: "ba.mirrors (bv_bitArray bv) (bv_votes bv)"
    and sum: "bv_sum bv = vq.weight_of (vset_voterSet vs) (occupied (bv_votes bv))"
    and occ0: "occupied (bv_votes bv) \<subseteq> occupied (votes vs)"
    and all: "\<forall>i < length (bv_votes bv). \<forall>v. bv_votes bv ! i = Some v \<longrightarrow> BlockID_Key (v_BlockID v) = key \<and> good_vote exec vs i v"
    using bv by (auto simp: wf_blockVotes_def)
  obtain ba' where ba': "BitArray_SetIndex (bv_bitArray bv) (int i) True = Ret (True, ba')" "ba.mirrors ba' ?vts"
    using ba.mirrors_put [OF mir i(1)] by blast
  have occ: "occupied ?vts = insert i (occupied (bv_votes bv))" "i \<notin> occupied (bv_votes bv)"
    using i by (auto simp: occupied_update) (simp add: occupied_def)
  have "insert i (occupied (bv_votes bv)) \<subseteq> {..<num_voters (vset_voterSet vs)}"
    using i(1) len occupied_bound [of "bv_votes bv"] by auto
  then have "0 \<le> vq.weight_of (vset_voterSet vs) (occupied ?vts)"
    "vq.weight_of (vset_voterSet vs) (occupied ?vts) \<le> totalVotingWeight (vset_voterSet vs)"
    using weight_bounds [OF wfv] occ by auto
  then have s: "wrap64 (bv_sum bv + voter_weight (vset_voterSet vs) i) = vq.weight_of (vset_voterSet vs) (occupied ?vts)"
    using sum occ wf_voters_total [OF wfv]
    by (subst wrap64_id) (auto simp: vq.weight_of_insert in64_def MaxTotalVotingWeight_def max_power)
  let ?bv = "bv\<lparr>bv_bitArray := ba', bv_votes := ?vts, bv_sum := vq.weight_of (vset_voterSet vs) (occupied ?vts)\<rparr>"
  have "blockVotes_addVerifiedVote bv vote (voter_weight (vset_voterSet vs) i) = Ret ?bv"
    using idx i ba'(1) s by (simp add: blockVotes_addVerifiedVote_def index_in assign_in)
  moreover have "wf_blockVotes exec vs key ?bv"
  proof -
    have "\<forall>j < length ?vts. \<forall>v. ?vts ! j = Some v \<longrightarrow> BlockID_Key (v_BlockID v) = key \<and> good_vote exec vs j v"
      using all good key i(1) by (auto simp: nth_list_update split: if_splits)
    then show ?thesis using len ba'(2) occ0 occ i(3) by (simp add: wf_blockVotes_def)
  qed
  ultimately show ?thesis by (intro exI [of _ ?bv]) simp
qed

lemma two_thirds_floor:
  assumes "wf_voters voters"
  shows "wrap64 (totalVotingWeight voters * 2) sdiv 3 = totalVotingWeight voters * 2 div 3"
proof -
  let ?t = "totalVotingWeight voters"
  have t: "0 \<le> ?t" "?t \<le> MaxTotalVotingWeight" using wf_voters_total [OF assms] by auto
  have "wrap64 (?t * 2) = ?t * 2" using t by (intro wrap64_id) (auto simp: in64_def MaxTotalVotingWeight_def max_power)
  then show ?thesis using t by (simp add: sdiv_nonneg)
qed

lemma quorum_number:
  assumes "wf_voters voters"
  shows "s < wrap64 (wrap64 (totalVotingWeight voters * 2) sdiv 3 + 1) \<longleftrightarrow> \<not> 2 * totalVotingWeight voters < 3 * s"
proof -
  let ?t = "totalVotingWeight voters"
  have t: "0 \<le> ?t" "?t \<le> MaxTotalVotingWeight" using wf_voters_total [OF assms] by auto
  have "wrap64 (?t * 2 div 3 + 1) = ?t * 2 div 3 + 1"
    using t by (intro wrap64_id) (auto simp: in64_def MaxTotalVotingWeight_def max_power)
  then show ?thesis using t two_thirds_floor [OF assms] by auto
qed

lemma has_quorum_sum:
  assumes "wf_voters (vset_voterSet vs)" and "wf_blockVotes exec vs key bv"
  shows "has_quorum vs bv \<longleftrightarrow> 2 * totalVotingWeight (vset_voterSet vs) < 3 * bv_sum bv"
  using assms total_weight_cached [OF assms(1)] occupied_bound [of "bv_votes bv"]
  by (auto simp: has_quorum_def vq.quorum_def wf_blockVotes_def)

lemma copy_votes_nth:
  assumes "length src = length dst" and "j < length dst"
  shows "copy_votes dst src ! j = (if src ! j = None then dst ! j else src ! j)"
  using assms by (simp add: copy_votes_def nth_append)

lemma copy_votes_length: "length src = length dst \<Longrightarrow> length (copy_votes dst src) = length dst"
  by (simp add: copy_votes_def)

text \<open>Writing the new block votes and, at the first quorum, the majority.\<close>

lemma track_spec:
  assumes wf: "wf_voteSet exec vs" and bv': "wf_blockVotes exec vs key bv'"
    and grow: "\<forall>bv j v. votesByBlock vs key = Some bv \<longrightarrow> j < length (bv_votes bv) \<longrightarrow> bv_votes bv ! j = Some v
      \<longrightarrow> bv_votes bv' ! j = Some v"
    and maj: "\<forall>b j v. maj23 vs = Some b \<longrightarrow> BlockID_Key b = key \<longrightarrow> j < length (bv_votes bv') \<longrightarrow> bv_votes bv' ! j = Some v
      \<longrightarrow> votes vs ! j = Some v"
    and key: "BlockID_Key block = key"
  defines "vs1 \<equiv> vs\<lparr>votesByBlock := (votesByBlock vs)(key \<mapsto> bv')\<rparr>"
  defines "vs2 \<equiv> (if has_quorum vs bv' \<and> maj23 vs = None
     then vs1\<lparr>maj23 := Some block, votes := copy_votes (votes vs) (bv_votes bv')\<rparr> else vs1)"
  shows "wf_voteSet exec vs2" and "same_step vs vs2" and "occupied (votes vs2) = occupied (votes vs)"
    and "length (votes vs2) = length (votes vs)"
proof -
  have wfv: "wf_voters (vset_voterSet vs)" and len: "length (votes vs) = num_voters (vset_voterSet vs)"
    and mir: "ba.mirrors (votesBitArray vs) (votes vs)"
    and sum: "vset_sum vs = vq.weight_of (vset_voterSet vs) (occupied (votes vs))"
    and all: "\<forall>i < length (votes vs). \<forall>v. votes vs ! i = Some v \<longrightarrow> good_vote exec vs i v"
    and blocks: "\<forall>k bv. votesByBlock vs k = Some bv \<longrightarrow> wf_blockVotes exec vs k bv"
    using wf by (auto simp: wf_voteSet_def)
  have bl: "length (bv_votes bv') = length (votes vs)" and bocc: "occupied (bv_votes bv') \<subseteq> occupied (votes vs)"
    and ball: "\<forall>i < length (bv_votes bv'). \<forall>v. bv_votes bv' ! i = Some v \<longrightarrow> BlockID_Key (v_BlockID v) = key \<and> good_vote exec vs i v"
    using bv' len by (auto simp: wf_blockVotes_def)
  note cp = copy_votes_nth [OF bl]
  have cl: "length (copy_votes (votes vs) (bv_votes bv')) = length (votes vs)" using copy_votes_length [OF bl] .
  have cocc: "occupied (copy_votes (votes vs) (bv_votes bv')) = occupied (votes vs)"
    using bocc cl bl by (auto simp: occupied_def cp split: if_splits)
  show same: "same_step vs vs2" by (simp add: vs2_def vs1_def same_step_def)
  show occ2: "occupied (votes vs2) = occupied (votes vs)" using cocc by (simp add: vs2_def vs1_def)
  show len2: "length (votes vs2) = length (votes vs)" using cl by (simp add: vs2_def vs1_def)
  have hq: "has_quorum vs2 b = has_quorum vs b" for b using same by (simp add: has_quorum_def same_step_def)
  have vbb: "votesByBlock vs2 = (votesByBlock vs)(key \<mapsto> bv')" by (simp add: vs2_def vs1_def)
  have blk: "\<forall>k bv. votesByBlock vs2 k = Some bv \<longrightarrow> wf_blockVotes exec vs2 k bv"
    using blocks bv' wf_blockVotes_mono [OF _ same] occ2 by (auto simp: vbb)
  have gv: "\<forall>i < length (votes vs2). \<forall>v. votes vs2 ! i = Some v \<longrightarrow> good_vote exec vs2 i v"
    unfolding good_vote_same [OF same] len2
  proof (intro allI impI)
    fix j v assume j: "j < length (votes vs)" "votes vs2 ! j = Some v"
    then have "votes vs ! j = Some v \<or> bv_votes bv' ! j = Some v"
      by (auto simp: vs2_def vs1_def cp split: if_splits)
    then show "good_vote exec vs j v" using all ball j(1) bl by auto
  qed
  have mir2: "ba.mirrors (votesBitArray vs2) (votes vs2)"
  proof -
    have "votes vs2 ! j \<noteq> None \<longleftrightarrow> votes vs ! j \<noteq> None" if "j < length (votes vs)" for j
      using occ2 len2 that by (auto simp: occupied_def set_eq_iff)
    then show ?thesis using mir len2 by (simp add: ba.mirrors_def vs2_def vs1_def)
  qed
  have mj: "case maj23 vs2 of
        None \<Rightarrow> \<forall>k bv. votesByBlock vs2 k = Some bv \<longrightarrow> \<not> has_quorum vs2 bv
      | Some b \<Rightarrow> \<exists>bv. votesByBlock vs2 (BlockID_Key b) = Some bv \<and> has_quorum vs2 bv
          \<and> (\<forall>i < length (bv_votes bv). \<forall>v. bv_votes bv ! i = Some v \<longrightarrow> votes vs2 ! i = Some v)"
  proof (cases "maj23 vs")
    case None
    then have nq: "\<forall>k bv. votesByBlock vs k = Some bv \<longrightarrow> \<not> has_quorum vs bv" using wf by (simp add: wf_voteSet_def)
    show ?thesis
    proof (cases "has_quorum vs bv'")
      case True
      then have "maj23 vs2 = Some block" "votes vs2 = copy_votes (votes vs) (bv_votes bv')"
        using None by (simp_all add: vs2_def)
      then show ?thesis using True bl key by (simp add: vbb hq cp)
    next
      case False
      then have "maj23 vs2 = None" using None by (simp add: vs2_def vs1_def)
      then show ?thesis using nq False by (simp add: vbb hq)
    qed
  next
    case (Some b)
    then obtain bv where bv: "votesByBlock vs (BlockID_Key b) = Some bv" "has_quorum vs bv"
        "\<forall>i < length (bv_votes bv). \<forall>v. bv_votes bv ! i = Some v \<longrightarrow> votes vs ! i = Some v"
      using wf by (auto simp: wf_voteSet_def)
    have vs2: "maj23 vs2 = Some b" "votes vs2 = votes vs" using Some by (simp_all add: vs2_def vs1_def)
    show ?thesis
    proof (cases "BlockID_Key b = key")
      case True
      have "length (bv_votes bv) = length (bv_votes bv')"
        using blocks bv(1) bl len by (auto simp: wf_blockVotes_def)
      then have "occupied (bv_votes bv) \<subseteq> occupied (bv_votes bv')"
        using grow bv(1) True by (auto simp: occupied_def)
      moreover have "occupied (bv_votes bv') \<subseteq> {..<num_voters (vset_voterSet vs)}"
        using occupied_bound [of "bv_votes bv'"] bl len by simp
      ultimately have "has_quorum vs bv'" using bv(2) vq.quorum_mono [OF wfv] by (auto simp: has_quorum_def)
      then show ?thesis using maj Some True vs2 by (simp add: vbb hq)
    next
      case False
      then show ?thesis using bv vs2 by (simp add: vbb hq)
    qed
  qed
  have st: "vset_voterSet vs2 = vset_voterSet vs" "vset_sum vs2 = vset_sum vs" by (simp_all add: vs2_def vs1_def)
  show "wf_voteSet exec vs2" unfolding wf_voteSet_def
    by (intro conjI blk gv mj mir2) (use wfv len len2 sum occ2 st in simp_all)
qed

definition grows :: "VoteSet \<Rightarrow> VoteSet \<Rightarrow> bool" where
  "grows vs vs' \<longleftrightarrow> same_step vs vs' \<and> (maj23 vs \<noteq> None \<longrightarrow> maj23 vs' = maj23 vs)
     \<and> occupied (votes vs) \<subseteq> occupied (votes vs')
     \<and> (\<forall>k bv. votesByBlock vs k = Some bv \<longrightarrow>
          (\<exists>bv'. votesByBlock vs' k = Some bv' \<and> occupied (bv_votes bv) \<subseteq> occupied (bv_votes bv')))"

lemma addVerifiedVote_spec:
  assumes wf: "wf_voteSet exec vs" and i: "i < num_voters (vset_voterSet vs)"
    and good: "good_vote exec vs i vote" and key: "key = BlockID_Key (v_BlockID vote)"
    and new: "getVote vs (int i) key = Ret None"
  shows "\<exists>vs' added c. addVerifiedVote vs vote key (voter_weight (vset_voterSet vs) i) = Ret (vs', added, c)
    \<and> wf_voteSet exec vs' \<and> grows vs vs' \<and> c = votes vs ! i \<and> (c = None \<longrightarrow> added) \<and> i \<in> occupied (votes vs')
    \<and> (tracked vs \<longrightarrow> tracked vs')
    \<and> (added \<longrightarrow> (\<exists>bv'. votesByBlock vs' key = Some bv' \<and> i \<in> occupied (bv_votes bv')))"
proof -
  let ?w = "voter_weight (vset_voterSet vs) i"
  obtain vs1 c where p: "place_vote vs vote key ?w = Ret (vs1, c)" and wf1: "wf_voteSet exec vs1"
      and same1: "same_step vs vs1" and maj1: "maj23 vs1 = maj23 vs" and vbb1: "votesByBlock vs1 = votesByBlock vs"
      and i1: "i \<in> occupied (votes vs1)" and c: "c = votes vs ! i"
      and majv: "\<forall>b. maj23 vs = Some b \<longrightarrow> BlockID_Key b = key \<longrightarrow> votes vs1 ! i = Some vote"
      and oth: "\<forall>j. j \<noteq> i \<longrightarrow> j < length (votes vs) \<longrightarrow> votes vs1 ! j = votes vs ! j"
      and at_i: "votes vs1 ! i = votes vs ! i \<or> votes vs1 ! i = Some vote" and l1: "length (votes vs1) = length (votes vs)"
      and tr: "votes vs1 ! i = Some vote \<longrightarrow> c \<noteq> None \<longrightarrow> votesByBlock vs key \<noteq> None"
    using place_vote_spec [OF wf i good key new] by blast
  have occ1: "occupied (votes vs) \<subseteq> occupied (votes vs1)"
  proof
    fix j assume "j \<in> occupied (votes vs)"
    then show "j \<in> occupied (votes vs1)" using i1 oth l1 by (cases "j = i") (auto simp: occupied_def)
  qed
  have wfv: "wf_voters (vset_voterSet vs1)" using wf1 by (simp add: wf_voteSet_def)
  have trk1: "votesByBlock vs1 (BlockID_Key (v_BlockID v)) \<noteq> None \<or> (v = vote \<and> c = None)"
    if "tracked vs" "j < length (votes vs1)" "votes vs1 ! j = Some v" for j v
    using that at_i oth tr l1 vbb1 c key by (cases "j = i") (auto simp: tracked_def)
  show ?thesis
  proof (cases "c \<noteq> None \<and> (case votesByBlock vs1 key of None \<Rightarrow> True | Some bv \<Rightarrow> \<not> bv_peerMaj23 bv)")
    case True
    then have "addVerifiedVote vs vote key ?w = Ret (vs1, False, c)"
      by (simp add: addVerifiedVote_def p Let_def)
    moreover have "tracked vs \<longrightarrow> tracked vs1" using trk1 True by (auto simp: tracked_def)
    moreover have "grows vs vs1" using same1 maj1 occ1 vbb1 by (auto simp: grows_def)
    ultimately show ?thesis using wf1 c True i1
      by (intro exI [of _ vs1] exI [of _ False] exI [of _ c]) simp
  next
    case False
    define bv where "bv = (case votesByBlock vs1 key of Some bv \<Rightarrow> bv
      | None \<Rightarrow> newBlockVotes False (length (Voters (vset_voterSet vs1))))"
    have bvwf: "wf_blockVotes exec vs1 key bv"
      using wf1 newBlockVotes_wf [of exec vs1 key False] by (auto simp: bv_def wf_voteSet_def split: option.splits)
    have "length (votes vs1) = num_voters (vset_voterSet vs1)" using wf1 by (simp add: wf_voteSet_def)
    then have il: "i < length (bv_votes bv)" using bvwf i1 by (auto simp: wf_blockVotes_def occupied_def)
    have iN: "bv_votes bv ! i = None"
    proof (cases "votesByBlock vs1 key")
      case None
      then show ?thesis using il by (simp add: bv_def newBlockVotes_def)
    next
      case (Some bw)
      then show ?thesis using getVote_None(3) [OF new] vbb1 by (simp add: bv_def)
    qed
    have good1: "good_vote exec vs1 i vote" using good good_vote_same [OF same1] by simp
    have w1: "voter_weight (vset_voterSet vs1) i = ?w" using same1 by (simp add: same_step_def)
    obtain bv' where add: "blockVotes_addVerifiedVote bv vote ?w = Ret bv'" and bw: "wf_blockVotes exec vs1 key bv'"
        and vts: "bv_votes bv' = (bv_votes bv)[i := Some vote]"
      using blockVotes_add_spec [OF wfv bvwf il iN i1 good1] key w1 by auto
    let ?q = "wrap64 (wrap64 (totalVotingWeight (vset_voterSet vs1) * 2) sdiv 3 + 1)"
    let ?vs2 = "vs1\<lparr>votesByBlock := (votesByBlock vs1)(key \<mapsto> bv')\<rparr>"
    let ?vs3 = "if has_quorum vs1 bv' \<and> maj23 vs1 = None
      then ?vs2\<lparr>maj23 := Some (v_BlockID vote), votes := copy_votes (votes vs1) (bv_votes bv')\<rparr> else ?vs2"
    have cross: "(bv_sum bv < ?q \<and> ?q \<le> bv_sum bv' \<and> maj23 vs1 = None) \<longleftrightarrow> (has_quorum vs1 bv' \<and> maj23 vs1 = None)"
    proof (cases "maj23 vs1")
      case None
      have "\<not> has_quorum vs1 bv"
      proof (cases "votesByBlock vs1 key")
        case Some
        then show ?thesis using wf1 None by (auto simp: wf_voteSet_def bv_def)
      next
        case N: None
        then have "bv_sum bv = 0" by (simp add: bv_def newBlockVotes_def)
        then show ?thesis using has_quorum_sum [OF wfv bvwf] wf_voters_total [OF wfv] by simp
      qed
      then show ?thesis using None quorum_number [OF wfv, of "bv_sum bv"] quorum_number [OF wfv, of "bv_sum bv'"]
          has_quorum_sum [OF wfv bvwf] has_quorum_sum [OF wfv bw] by auto
    qed simp
    have vid: "vs1\<lparr>vset_voterSet := vset_voterSet vs1, votesByBlock := f\<rparr> = vs1\<lparr>votesByBlock := f\<rparr>" for f by simp
    have res: "addVerifiedVote vs vote key ?w = Ret (?vs3, True, c)"
      using False cross add TotalVotingWeight_cached [OF wfv] unfolding addVerifiedVote_def p
      by (simp add: Let_def bv_def [symmetric] vid)
    have grow: "bv_votes bv' ! j = Some v"
      if "votesByBlock vs1 key = Some bw" "j < length (bv_votes bw)" "bv_votes bw ! j = Some v" for bw j v
      using that iN vts by (cases "j = i") (auto simp: bv_def)
    have majc: "votes vs1 ! j = Some v"
      if m: "maj23 vs1 = Some b" "BlockID_Key b = key" "j < length (bv_votes bv')" "bv_votes bv' ! j = Some v" for b j v
    proof (cases "j = i")
      case True
      then show ?thesis using m il vts majv maj1 by auto
    next
      case ne: False
      obtain bm where "votesByBlock vs1 key = Some bm"
          "\<forall>i < length (bv_votes bm). \<forall>v. bv_votes bm ! i = Some v \<longrightarrow> votes vs1 ! i = Some v"
        using wf1 m by (auto simp: wf_voteSet_def)
      then show ?thesis using m ne vts by (simp add: bv_def)
    qed
    have growA: "\<forall>bv j v. votesByBlock vs1 key = Some bv \<longrightarrow> j < length (bv_votes bv) \<longrightarrow> bv_votes bv ! j = Some v
      \<longrightarrow> bv_votes bv' ! j = Some v" using grow by blast
    have majA: "\<forall>b j v. maj23 vs1 = Some b \<longrightarrow> BlockID_Key b = key \<longrightarrow> j < length (bv_votes bv') \<longrightarrow> bv_votes bv' ! j = Some v
      \<longrightarrow> votes vs1 ! j = Some v" using majc by blast
    note t = track_spec [OF wf1 bw growA majA key [symmetric]]
    have o3: "occupied (votes ?vs3) = occupied (votes vs1)" by (rule t(3))
    have s3: "same_step vs1 ?vs3" by (rule t(2))
    have w3: "wf_voteSet exec ?vs3" by (rule t(1))
    have l3: "length (votes ?vs3) = length (votes vs1)" by (rule t(4))
    have v3: "votesByBlock ?vs3 = (votesByBlock vs1)(key \<mapsto> bv')" by simp
    have "grows vs ?vs3" unfolding grows_def
    proof (intro conjI allI impI)
      show "same_step vs ?vs3" using same1 s3 by (simp add: same_step_def)
      show "maj23 ?vs3 = maj23 vs" if "maj23 vs \<noteq> None" using that maj1 by auto
      show "occupied (votes vs) \<subseteq> occupied (votes ?vs3)" using occ1 o3 by simp
      fix k bw assume k: "votesByBlock vs k = Some bw"
      show "\<exists>bv'. votesByBlock ?vs3 k = Some bv' \<and> occupied (bv_votes bw) \<subseteq> occupied (bv_votes bv')"
      proof (cases "k = key")
        case True
        then have "bw = bv" using k vbb1 by (simp add: bv_def)
        then show ?thesis using v3 True vts il by (auto simp: occupied_update)
      next
        case False
        then show ?thesis using v3 k vbb1 by auto
      qed
    qed
    moreover have "tracked vs \<longrightarrow> tracked ?vs3"
    proof
      assume tv: "tracked vs"
      show "tracked ?vs3" unfolding tracked_def
      proof (intro allI impI)
        fix j v assume j: "j < length (votes ?vs3)" "votes ?vs3 ! j = Some v"
        have jl: "j < length (votes vs1)" using j(1) unfolding l3 .
        have bl: "length (bv_votes bv') = length (votes vs1)" using bw wf1 by (simp add: wf_blockVotes_def wf_voteSet_def)
        have "votes vs1 ! j = Some v \<or> bv_votes bv' ! j = Some v"
          using j(2) copy_votes_nth [OF bl jl] by (auto split: if_splits)
        then show "votesByBlock ?vs3 (BlockID_Key (v_BlockID v)) \<noteq> None"
        proof
          assume "votes vs1 ! j = Some v"
          then show ?thesis using trk1 [OF tv jl] key by (auto simp: v3)
        next
          assume "bv_votes bv' ! j = Some v"
          then show ?thesis using bw bl jl by (auto simp: wf_blockVotes_def)
        qed
      qed
    qed
    moreover have "votesByBlock ?vs3 key = Some bv' \<and> i \<in> occupied (bv_votes bv')"
      using v3 vts il by (simp add: occupied_update)
    moreover have "i \<in> occupied (votes ?vs3)" using o3 i1 by simp
    ultimately show ?thesis using res w3 c by blast
  qed
qed

section \<open>The operations keep the invariant\<close>

definition stronger :: "(Vote \<Rightarrow> vote_verifier) \<Rightarrow> (Vote \<Rightarrow> vote_verifier) \<Rightarrow> bool" where
  "stronger exec' exec \<longleftrightarrow> (\<forall>v chainID pk. exec' v chainID pk = Ret None \<longrightarrow> exec v chainID pk = Ret None)"

definition recorded :: "VoteSet \<Rightarrow> nat \<Rightarrow> BlockID \<Rightarrow> bool" where
  "recorded vs i b \<longleftrightarrow> (\<exists>bv. votesByBlock vs (BlockID_Key b) = Some bv \<and> i \<in> occupied (bv_votes bv))"

lemma grows_refl [simp]: "grows vs vs"
  by (auto simp: grows_def same_step_def)

lemma grows_trans: "grows a b \<Longrightarrow> grows b c \<Longrightarrow> grows a c"
  unfolding grows_def same_step_def by (metis (no_types, lifting) order_trans)

lemma getVote_total:
  assumes "wf_voteSet exec vs" and "i < num_voters (vset_voterSet vs)"
  shows "\<exists>r. getVote vs (int i) key = Ret r"
  using assms
  by (auto simp: getVote_def blockVotes_getByIndex_def wf_voteSet_def wf_blockVotes_def index_in split: option.splits)

definition admissible :: "VoteSet \<Rightarrow> Vote \<Rightarrow> bool" where
  "admissible vs vote \<longleftrightarrow>
     0 \<le> v_ValidatorIndex vote \<and> nat (v_ValidatorIndex vote) < num_voters (vset_voterSet vs)
     \<and> v_Height vote = vset_height vs \<and> v_Round vote = vset_round vs \<and> v_Type vote = vset_type vs
     \<and> v_ValidatorAddress vote = Address (Voters (vset_voterSet vs) ! nat (v_ValidatorIndex vote))
     \<and> v_ValidatorAddress vote \<noteq> []"

lemma addVote_rejects: "\<not> admissible vs vote \<Longrightarrow> \<exists>err. addVote vs (Some vote) exec' = Ret (vs, False, err)"
  unfolding addVote_def admissible_def Let_def VoterSet_GetByIndex_def num_voters_def sig_bytes_def
  by (simp add: nat_less_iff) (auto simp: not_le)

definition verify_and_add ::
  "(Vote \<Rightarrow> vote_verifier) \<Rightarrow> VoteSet \<Rightarrow> Vote \<Rightarrow> Validator \<Rightarrow> (VoteSet \<times> bool \<times> vote_error option) go" where
  "verify_and_add exec' vs vote voter =
     do {
       err \<leftarrow> exec' vote (vset_chainID vs) (PubKey voter);
       (case err of
          Some e \<Rightarrow> Ret (vs, False, Some e)
        | None \<Rightarrow>
            do {
              (vs', added, c) \<leftarrow> addVerifiedVote vs vote (BlockID_Key (v_BlockID vote)) (VotingWeight voter);
              (case c of
                 Some c \<Rightarrow> Ret (vs', added, Some (ErrVoteConflictingVotes c vote))
               | None \<Rightarrow> if \<not> added then Panic else Ret (vs', added, None))
            })
     }"

lemma addVote_admissible:
  assumes "admissible vs vote" and i: "v_ValidatorIndex vote = int i"
  shows "addVote vs (Some vote) exec' =
    do {
      existing \<leftarrow> getVote vs (int i) (BlockID_Key (v_BlockID vote));
      (case existing of
         Some e \<Rightarrow>
           if sig_bytes (v_Signature e) = sig_bytes (v_Signature vote) then Ret (vs, False, None)
           else Ret (vs, False, Some ErrVoteNonDeterministicSignature)
       | None \<Rightarrow> verify_and_add exec' vs vote (Voters (vset_voterSet vs) ! i))
    }"
proof -
  have g: "VoterSet_GetByIndex (vset_voterSet vs) (int i)
      = (Some (v_ValidatorAddress vote), Some (Voters (vset_voterSet vs) ! i))"
    and c: "\<not> v_ValidatorIndex vote < 0" "length (v_ValidatorAddress vote) \<noteq> 0"
      "\<not> (v_Height vote \<noteq> vset_height vs \<or> v_Round vote \<noteq> vset_round vs \<or> v_Type vote \<noteq> vset_type vs)"
    using assms by (auto simp: admissible_def VoterSet_GetByIndex_def num_voters_def Let_def)
  have s: "\<not> v_ValidatorAddress vote \<noteq> sig_bytes (Some (v_ValidatorAddress vote))" by (simp add: sig_bytes_def)
  show ?thesis
    unfolding addVote_def option.case Let_def if_not_P [OF c(1)] if_not_P [OF c(2)] if_not_P [OF c(3)]
      i g prod.case if_not_P [OF s] verify_and_add_def by simp
qed

lemma addVote_spec:
  assumes wf: "wf_voteSet exec vs" and st: "stronger exec' exec"
  shows "(\<exists>err. addVote vs vo exec' = Ret (vs, False, err))
    \<or> (\<exists>vote i. vo = Some vote \<and> i < num_voters (vset_voterSet vs) \<and> v_ValidatorIndex vote = int i
         \<and> exec' vote (vset_chainID vs) (PubKey (Voters (vset_voterSet vs) ! i)) = Panic \<and> addVote vs vo exec' = Panic)
    \<or> (\<exists>vote i vs' added err. vo = Some vote \<and> i < num_voters (vset_voterSet vs) \<and> good_vote exec' vs i vote
         \<and> addVote vs vo exec' = Ret (vs', added, err) \<and> wf_voteSet exec vs' \<and> grows vs vs' \<and> (tracked vs \<longrightarrow> tracked vs')
         \<and> i \<in> occupied (votes vs') \<and> (added \<longrightarrow> recorded vs' i (v_BlockID vote))
         \<and> (votes vs ! i = None \<longrightarrow> added \<and> err = None))"
    (is "?rejected \<or> ?panics \<or> ?added")
proof (cases "\<exists>vote. vo = Some vote \<and> admissible vs vote")
  case False
  then have ?rejected using addVote_rejects by (cases vo) (auto simp: addVote_def)
  then show ?thesis by blast
next
  case True
  then obtain vote where vo: "vo = Some vote" and adm: "admissible vs vote" by blast
  define i where "i = nat (v_ValidatorIndex vote)"
  have i: "v_ValidatorIndex vote = int i" "i < num_voters (vset_voterSet vs)"
    using adm by (auto simp: i_def admissible_def)
  let ?key = "BlockID_Key (v_BlockID vote)" and ?voter = "Voters (vset_voterSet vs) ! i"
  obtain r where r: "getVote vs (int i) ?key = Ret r" using getVote_total [OF wf i(2)] by blast
  note eq = addVote_admissible [OF adm i(1), of exec', unfolded r bind.simps]
  show ?thesis
  proof (cases r)
    case (Some e)
    then have ?rejected unfolding vo eq by auto
    then show ?thesis by blast
  next
    case None
    have eq': "addVote vs vo exec' = verify_and_add exec' vs vote ?voter" unfolding vo eq None by simp
    show ?thesis
    proof (cases "exec' vote (vset_chainID vs) (PubKey ?voter)")
      case N: None
      then have ?panics using eq' vo i by (auto simp: verify_and_add_def)
      then show ?thesis by blast
    next
      case E: (Some err)
      show ?thesis
      proof (cases err)
        case (Some e)
        then have ?rejected using eq' E by (auto simp: verify_and_add_def)
        then show ?thesis by blast
      next
        case V: None
        have good': "good_vote exec' vs i vote" using adm i V E by (simp add: good_vote_def admissible_def)
        then have good: "good_vote exec vs i vote" using st by (simp add: good_vote_def stronger_def)
        obtain vs' added c where a: "addVerifiedVote vs vote ?key (voter_weight (vset_voterSet vs) i) = Ret (vs', added, c)"
            "wf_voteSet exec vs'" "grows vs vs'" "c = votes vs ! i" "c = None \<longrightarrow> added" "i \<in> occupied (votes vs')"
            "tracked vs \<longrightarrow> tracked vs'"
            "added \<longrightarrow> (\<exists>bv'. votesByBlock vs' ?key = Some bv' \<and> i \<in> occupied (bv_votes bv'))"
          using addVerifiedVote_spec [OF wf i(2) good refl r [unfolded None]] by (elim exE conjE) (rule that)
        have "\<exists>err'. addVote vs vo exec' = Ret (vs', added, err') \<and> (c = None \<longrightarrow> err' = None)"
          using eq' E V a(1,5) by (cases c) (auto simp: verify_and_add_def voter_weight_def)
        then obtain err' where "addVote vs vo exec' = Ret (vs', added, err')" "c = None \<longrightarrow> err' = None" by blast
        then have ?added using a vo i(2) good' unfolding recorded_def by metis
        then show ?thesis by blast
      qed
    qed
  qed
qed

lemma SetPeerMaj23_spec:
  assumes wf: "wf_voteSet exec vs"
  shows "\<exists>vs' err. SetPeerMaj23 (Some vs) peer b = Ret (vs', err) \<and> wf_voteSet exec vs' \<and> grows vs vs'
    \<and> (tracked vs \<longrightarrow> tracked vs') \<and> votes vs' = votes vs"
proof (cases "peerMaj23s vs peer")
  case (Some e)
  then show ?thesis using wf by (simp add: SetPeerMaj23_def)
next
  case None
  let ?vs1 = "vs\<lparr>peerMaj23s := (peerMaj23s vs)(peer \<mapsto> b)\<rparr>"
  have same: "same_step vs ?vs1" by (simp add: same_step_def)
  have w1: "wf_voteSet exec ?vs1"
    using wf good_vote_same [OF same, of exec]
    by (auto simp: wf_voteSet_def wf_blockVotes_def has_quorum_def split: option.splits)
  let ?k = "BlockID_Key b"
  have upd: "wf_voteSet exec (?vs1\<lparr>votesByBlock := (votesByBlock ?vs1)(?k \<mapsto> bv')\<rparr>)
      \<and> grows vs (?vs1\<lparr>votesByBlock := (votesByBlock ?vs1)(?k \<mapsto> bv')\<rparr>)"
    if bv': "wf_blockVotes exec ?vs1 ?k bv'" "\<forall>bv. votesByBlock vs ?k = Some bv \<longrightarrow> bv_votes bv' = bv_votes bv"
      "votesByBlock vs ?k = None \<longrightarrow> occupied (bv_votes bv') = {}" for bv'
  proof
    let ?vs2 = "?vs1\<lparr>votesByBlock := (votesByBlock ?vs1)(?k \<mapsto> bv')\<rparr>"
    have nq: "\<not> has_quorum ?vs1 bv'" if "maj23 vs = None"
    proof (cases "votesByBlock vs ?k")
      case (Some bv)
      then show ?thesis using wf that bv'(2) by (auto simp: wf_voteSet_def has_quorum_def)
    next
      case N: None
      have "wf_voters (vset_voterSet vs)" using wf by (simp add: wf_voteSet_def)
      then have "0 \<le> vq.total_weight (vset_voterSet vs)"
        using total_weight_cached wf_voters_total by simp
      then show ?thesis using N bv'(3) by (simp add: has_quorum_def vq.quorum_def)
    qed
    have "wf_voteSet exec (if has_quorum ?vs1 bv' \<and> maj23 ?vs1 = None
        then ?vs2\<lparr>maj23 := Some b, votes := copy_votes (votes ?vs1) (bv_votes bv')\<rparr> else ?vs2)"
    proof (rule track_spec(1) [OF w1 bv'(1) _ _ refl])
      show "\<forall>bv j v. votesByBlock ?vs1 ?k = Some bv \<longrightarrow> j < length (bv_votes bv) \<longrightarrow> bv_votes bv ! j = Some v \<longrightarrow> bv_votes bv' ! j = Some v"
        using bv'(2) by simp
      show "\<forall>c j v. maj23 ?vs1 = Some c \<longrightarrow> BlockID_Key c = ?k \<longrightarrow> j < length (bv_votes bv') \<longrightarrow> bv_votes bv' ! j = Some v
          \<longrightarrow> votes ?vs1 ! j = Some v"
        using wf bv'(2) by (auto simp: wf_voteSet_def)
    qed
    then show "wf_voteSet exec ?vs2" using nq by (auto split: if_splits)
    show "grows vs ?vs2" using bv'(2) by (auto simp: grows_def same_step_def)
  qed
  show ?thesis
  proof (cases "votesByBlock vs ?k")
    case N: None
    let ?bv = "newBlockVotes True (length (Voters (vset_voterSet vs)))"
    have "wf_blockVotes exec ?vs1 ?k ?bv" using newBlockVotes_wf [of exec ?vs1 ?k True] by simp
    then show ?thesis using upd [of ?bv] N None
      by (auto simp: SetPeerMaj23_def Let_def newBlockVotes_def tracked_def)
  next
    case (Some bv)
    then have bvw: "wf_blockVotes exec ?vs1 ?k bv" using w1 by (simp add: wf_voteSet_def)
    show ?thesis
    proof (cases "bv_peerMaj23 bv")
      case True
      then show ?thesis using Some None w1 by (simp add: SetPeerMaj23_def Let_def grows_def same_step_def tracked_def)
    next
      case False
      have "wf_blockVotes exec ?vs1 ?k (bv\<lparr>bv_peerMaj23 := True\<rparr>)" using bvw by (simp add: wf_blockVotes_def)
      then show ?thesis using upd [of "bv\<lparr>bv_peerMaj23 := True\<rparr>"] Some None False
        by (auto simp: SetPeerMaj23_def Let_def tracked_def)
    qed
  qed
qed

end
