(* ===== verification/Vote_Set_Safety.thy ===== *)
theory Vote_Set_Safety
  imports Vote_Set_Inv
begin

text \<open>
  The life of a vote set: it is created for a step and then changed by adding votes and by the claims
  of peers. Every set that can be reached satisfies the invariant of \<open>Vote_Set_Inv\<close>; from it follow
  the meaning of a majority, the accountability of conflicting majorities, and that enough votes make
  a majority. Votes are those that passed \<^verbatim>\<open>Vote.ValidateBasic\<close>, as far as their block identifier is
  concerned: it is empty or complete.
\<close>

section \<open>Steps\<close>

definition proper_vote :: "Vote option \<Rightarrow> bool" where
  "proper_vote vo \<longleftrightarrow> (case vo of None \<Rightarrow> True | Some v \<Rightarrow> proper_BlockID (v_BlockID v))"

text \<open>\<open>agg\<close> says whether votes whose signature is part of an aggregate may be added.\<close>

inductive vote_step :: "crypto_lib \<Rightarrow> time_encoder \<Rightarrow> bool \<Rightarrow> VoteSet \<Rightarrow> VoteSet \<Rightarrow> bool"
  for C :: crypto_lib and T :: time_encoder and agg :: bool where
  add_vote: "AddVote C T (Some vs) vo = Ret (vs', added, err) \<Longrightarrow> proper_vote vo \<Longrightarrow> vote_step C T agg vs vs'"
| add_aggregated: "agg \<Longrightarrow> AddAggregatedVote C (Some vs) vo = Ret (vs', added, err) \<Longrightarrow> proper_vote vo
    \<Longrightarrow> vote_step C T agg vs vs'"
| peer_claim: "SetPeerMaj23 (Some vs) peer b = Ret (vs', err) \<Longrightarrow> vote_step C T agg vs vs'"

inductive reachable :: "crypto_lib \<Rightarrow> time_encoder \<Rightarrow> bool \<Rightarrow> VoteSet \<Rightarrow> bool"
  for C :: crypto_lib and T :: time_encoder and agg :: bool where
  start: "wf_voters voters \<Longrightarrow> NewVoteSet chainID height rnd ty voters = Ret vs \<Longrightarrow> reachable C T agg vs"
| next_step: "reachable C T agg vs \<Longrightarrow> vote_step C T agg vs vs' \<Longrightarrow> reachable C T agg vs'"

inductive_simps vote_step_simps: "vote_step C T agg vs vs'"

section \<open>Invariants of reachable sets\<close>

definition proper_exec :: "(Vote \<Rightarrow> vote_verifier) \<Rightarrow> Vote \<Rightarrow> vote_verifier" where
  "proper_exec exec v chainID pk = (if proper_BlockID (v_BlockID v) then exec v chainID pk else Panic)"

definition verifier :: "crypto_lib \<Rightarrow> time_encoder \<Rightarrow> bool \<Rightarrow> Vote \<Rightarrow> vote_verifier" where
  "verifier C T agg = proper_exec (if agg then exec_address_check C else exec_verify C T)"

lemma proper_exec_add: "proper_vote vo \<Longrightarrow> addVote vs vo exec = addVote vs vo (proper_exec exec)"
proof (cases vo)
  case (Some v)
  moreover assume "proper_vote vo"
  ultimately have eq: "proper_exec exec v = exec v" by (simp add: proper_vote_def proper_exec_def fun_eq_iff)
  show ?thesis unfolding Some addVote_def option.case eq ..
qed (simp add: addVote_def)

lemma exec_verify_stronger: "stronger (exec_verify C T) (exec_address_check C)"
  by (auto simp: stronger_def exec_verify_def exec_address_check_def Vote_Verify_def
      split: option.splits bind_splits if_splits)

lemma verifier_stronger:
  "stronger (proper_exec (exec_verify C T)) (verifier C T agg)"
  "agg \<Longrightarrow> stronger (proper_exec (exec_address_check C)) (verifier C T agg)"
  using exec_verify_stronger [of C T] by (auto simp: verifier_def stronger_def proper_exec_def split: if_splits)

lemma addVote_keeps:
  assumes "wf_voteSet exec vs" and "stronger exec' exec" and "addVote vs vo exec' = Ret (vs', added, err)"
  shows "wf_voteSet exec vs' \<and> grows vs vs' \<and> (tracked vs \<longrightarrow> tracked vs')"
  using addVote_spec [OF assms(1,2), of vo] assms by (elim disjE exE conjE) simp_all

lemma vote_step_keeps:
  assumes "vote_step C T agg vs vs'" and "wf_voteSet (verifier C T agg) vs"
  shows "wf_voteSet (verifier C T agg) vs' \<and> grows vs vs' \<and> (tracked vs \<longrightarrow> tracked vs')"
  using assms(1)
proof (cases rule: vote_step.cases)
  case (add_vote vo added err)
  then have "addVote vs vo (proper_exec (exec_verify C T)) = Ret (vs', added, err)"
    using proper_exec_add [of vo vs "exec_verify C T"] by (simp add: AddVote_def)
  then show ?thesis using addVote_keeps [OF assms(2) verifier_stronger(1)] by blast
next
  case (add_aggregated vo added err)
  then have "addVote vs vo (proper_exec (exec_address_check C)) = Ret (vs', added, err)"
    using proper_exec_add [of vo vs "exec_address_check C"] by (simp add: AddAggregatedVote_def)
  then show ?thesis using addVote_keeps [OF assms(2) verifier_stronger(2)] add_aggregated(1) by blast
next
  case (peer_claim peer b err)
  then show ?thesis using SetPeerMaj23_spec [OF assms(2), of peer b] by auto
qed

lemma reachable_wf: "reachable C T agg vs \<Longrightarrow> wf_voteSet (verifier C T agg) vs \<and> tracked vs"
proof (induction rule: reachable.induct)
  case (start voters chainID height rnd ty vs)
  then have "height \<noteq> 0" by (auto simp: NewVoteSet_def)
  then show ?case using NewVoteSet_wf [OF start(1)] start(2) by (metis option.inject)
next
  case (next_step vs vs')
  then show ?case using vote_step_keeps by blast
qed

lemma maj23_change:
  assumes "addVote vs vo exec = Ret (vs', added, err)"
  shows "maj23 vs' = maj23 vs \<or> (\<exists>vote. vo = Some vote \<and> maj23 vs' = Some (v_BlockID vote))"
proof -
  have pl: "maj23 v1 = maj23 vs" if "place_vote vs vote k w = Ret (v1, c)" for vote k w v1 c
    using that by (auto simp: place_vote_def split: bind_splits option.splits if_splits)
  have av: "maj23 v1 = maj23 vs \<or> maj23 v1 = Some (v_BlockID vote)" if "addVerifiedVote vs vote k w = Ret (v1, a, c)" for vote k w v1 a c
    using that unfolding addVerifiedVote_def Let_def
    by (auto split: bind_splits if_splits prod.splits dest!: pl)
  show ?thesis
  proof (cases vo)
    case (Some vote)
    then show ?thesis
    proof (cases "admissible vs vote")
      case False
      then show ?thesis using addVote_rejects [OF False, of exec] assms Some by auto
    next
      case True
      then obtain i where i: "v_ValidatorIndex vote = int i" by (auto simp: admissible_def dest: nonneg_int_cases)
      show ?thesis using assms Some av unfolding Some addVote_admissible [OF True i]
        by (auto simp: verify_and_add_def split: bind_splits option.splits if_splits prod.splits)
    qed
  qed (use assms in \<open>simp add: addVote_def\<close>)
qed

lemma SetPeerMaj23_maj23: "SetPeerMaj23 (Some vs) peer b = Ret (vs', err) \<Longrightarrow> maj23 vs' = maj23 vs"
  by (auto simp: SetPeerMaj23_def Let_def split: option.splits if_splits)

lemma reachable_proper: "reachable C T agg vs \<Longrightarrow> maj23 vs = Some b \<Longrightarrow> proper_BlockID b"
proof (induction arbitrary: b rule: reachable.induct)
  case (start voters chainID height rnd ty vs)
  then show ?case by (auto simp: NewVoteSet_def split: if_splits)
next
  case (next_step vs vs')
  from next_step(2) show ?case
  proof (cases rule: vote_step.cases)
    case (add_vote vo added err)
    then show ?thesis using maj23_change [of vs vo _ vs'] next_step.IH next_step.prems
      by (fastforce simp: AddVote_def proper_vote_def)
  next
    case (add_aggregated vo added err)
    then show ?thesis using maj23_change [of vs vo _ vs'] next_step.IH next_step.prems
      by (fastforce simp: AddAggregatedVote_def proper_vote_def)
  next
    case (peer_claim peer c err)
    then show ?thesis using SetPeerMaj23_maj23 next_step by simp
  qed
qed

text \<open>The votes a set holds for a block, each verified for its step.\<close>

definition voted_for :: "crypto_lib \<Rightarrow> time_encoder \<Rightarrow> VoteSet \<Rightarrow> nat \<Rightarrow> BlockID \<Rightarrow> bool" where
  "voted_for C T vs i b \<longleftrightarrow>
     (\<exists>v pk. v_BlockID v = b \<and> v_ValidatorIndex v = int i \<and> v_Height v = vset_height vs \<and> v_Round v = vset_round vs
        \<and> v_Type v = vset_type vs \<and> v_ValidatorAddress v = Address (Voters (vset_voterSet vs) ! i)
        \<and> PubKey (Voters (vset_voterSet vs) ! i) = Some pk \<and> Vote_Verify C T (vset_chainID vs) pk v = Ret None)"

lemma majority_votes:
  assumes "reachable C T False vs" and "maj23 vs = Some b"
  shows "\<exists>A. vq.quorum (vset_voterSet vs) A \<and> (\<forall>i\<in>A. voted_for C T vs i b \<and> (\<exists>v. votes vs ! i = Some v \<and> v_BlockID v = b))"
proof -
  have wf: "wf_voteSet (verifier C T False) vs" using reachable_wf [OF assms(1)] by blast
  obtain bv where bv: "votesByBlock vs (BlockID_Key b) = Some bv" "has_quorum vs bv"
      "\<forall>i < length (bv_votes bv). \<forall>v. bv_votes bv ! i = Some v \<longrightarrow> votes vs ! i = Some v"
    using wf assms(2) by (auto simp: wf_voteSet_def)
  have bw: "wf_blockVotes (verifier C T False) vs (BlockID_Key b) bv" using wf bv(1) by (auto simp: wf_voteSet_def)
  have "voted_for C T vs i b \<and> (\<exists>v. votes vs ! i = Some v \<and> v_BlockID v = b)" if i: "i \<in> occupied (bv_votes bv)" for i
  proof -
    obtain v where v: "i < length (bv_votes bv)" "bv_votes bv ! i = Some v" using i by (auto simp: occupied_def)
    have key: "BlockID_Key (v_BlockID v) = BlockID_Key b" and good: "good_vote (verifier C T False) vs i v"
      using bw v by (auto simp: wf_blockVotes_def)
    have pr: "proper_BlockID (v_BlockID v)"
      and ex: "exec_verify C T v (vset_chainID vs) (PubKey (Voters (vset_voterSet vs) ! i)) = Ret None"
      using good by (auto simp: good_vote_def verifier_def proper_exec_def split: if_splits)
    have eq: "v_BlockID v = b" using BlockID_Key_inj [OF pr reachable_proper [OF assms] key] .
    obtain pk where "PubKey (Voters (vset_voterSet vs) ! i) = Some pk" "Vote_Verify C T (vset_chainID vs) pk v = Ret None"
      using ex by (auto simp: exec_verify_def split: option.splits)
    then have "voted_for C T vs i b" unfolding voted_for_def using eq good by (auto simp: good_vote_def)
    then show ?thesis using bv(3) v eq by auto
  qed
  then show ?thesis using bv(2) unfolding has_quorum_def by blast
qed


section \<open>Votes a set holds\<close>

definition stored :: "VoteSet \<Rightarrow> Vote set" where
  "stored vs = {v. Some v \<in> set (votes vs)} \<union> {v. \<exists>k bv. votesByBlock vs k = Some bv \<and> Some v \<in> set (bv_votes bv)}"

lemma assign_set: "assign xs i x = Ret ys \<Longrightarrow> set ys \<subseteq> insert x (set xs)"
  by (auto simp: assign_def split: if_splits dest: set_update_subset_insert [THEN subsetD])

lemma copy_votes_set: "set (copy_votes dst src) \<subseteq> set dst \<union> set src"
  by (auto simp: copy_votes_def dest: in_set_dropD elim!: in_set_zipE)

lemma set_update_cases: "x \<in> set (xs[i := y]) \<Longrightarrow> x = y \<or> x \<in> set xs"
  using set_update_subset_insert by fast

lemma place_vote_stored:
  assumes "place_vote vs vote k w = Ret (v1, c)"
  shows "votesByBlock v1 = votesByBlock vs \<and> set (votes v1) \<subseteq> insert (Some vote) (set (votes vs))"
  using assms by (auto simp: place_vote_def split: bind_splits option.splits if_splits dest: set_update_cases)

lemma blockVotes_add_stored:
  assumes "blockVotes_addVerifiedVote bv vote w = Ret bv'"
  shows "set (bv_votes bv') \<subseteq> insert (Some vote) (set (bv_votes bv))"
  using assms by (auto simp: blockVotes_addVerifiedVote_def split: bind_splits option.splits if_splits dest!: set_update_cases)

lemma addVerifiedVote_stored:
  assumes "addVerifiedVote vs vote k w = Ret (vs', added, c)"
  shows "stored vs' \<subseteq> insert vote (stored vs)"
proof -
  obtain v1 d where p: "place_vote vs vote k w = Ret (v1, d)"
    using assms by (auto simp: addVerifiedVote_def split: bind_splits)
  have vb: "votesByBlock v1 = votesByBlock vs" and vt: "set (votes v1) \<subseteq> insert (Some vote) (set (votes vs))"
    using place_vote_stored [OF p] by auto
  have s1: "stored v1 \<subseteq> insert vote (stored vs)" using vb vt by (auto simp: stored_def)
  let ?bv = "case votesByBlock v1 k of Some bv \<Rightarrow> bv | None \<Rightarrow> newBlockVotes False (length (Voters (vset_voterSet v1)))"
  have bvs: "v \<in> stored vs" if "Some v \<in> set (bv_votes ?bv)" for v
    using that vb by (auto simp: stored_def newBlockVotes_def split: option.splits)
  show ?thesis
  proof (cases "vs' = v1")
    case False
    obtain bv' where b: "blockVotes_addVerifiedVote ?bv vote w = Ret bv'" and b1: "votesByBlock vs' = (votesByBlock v1)(k \<mapsto> bv')"
      and b2: "votes vs' = votes v1 \<or> votes vs' = copy_votes (votes v1) (bv_votes bv')"
      using assms False unfolding addVerifiedVote_def Let_def p by (auto split: bind_splits if_splits)
    have b3: "v \<in> insert vote (stored vs)" if "Some v \<in> set (bv_votes bv')" for v
      using blockVotes_add_stored [OF b] that bvs by auto
    have "v \<in> insert vote (stored vs)" if "Some v \<in> set (votes vs')" for v
    proof -
      have "Some v \<in> set (votes v1) \<or> Some v \<in> set (bv_votes bv')"
        using that b2 copy_votes_set [of "votes v1" "bv_votes bv'"] by auto
      then show ?thesis using b3 s1 by (auto simp: stored_def [of v1])
    qed
    moreover have "v \<in> insert vote (stored vs)" if "votesByBlock vs' j = Some bv" "Some v \<in> set (bv_votes bv)" for v j bv
      using that b1 b3 vb by (cases "j = k") (auto simp: stored_def)
    ultimately show ?thesis unfolding stored_def [of vs'] by blast
  qed (use s1 in simp)
qed

lemma addVote_stored:
  assumes "addVote vs (Some vote) exec = Ret (vs', added, err)"
  shows "stored vs' \<subseteq> insert vote (stored vs)"
proof (cases "admissible vs vote")
  case False
  then show ?thesis using addVote_rejects [OF False, of exec] assms by auto
next
  case True
  then obtain i where i: "v_ValidatorIndex vote = int i" by (auto simp: admissible_def dest: nonneg_int_cases)
  show ?thesis using assms addVerifiedVote_stored unfolding addVote_admissible [OF True i]
    by (auto simp: verify_and_add_def split: bind_splits option.splits if_splits prod.splits)
qed

lemma SetPeerMaj23_stored:
  assumes "SetPeerMaj23 (Some vs) peer b = Ret (vs', err)"
  shows "stored vs' \<subseteq> stored vs"
  using assms by (auto simp: SetPeerMaj23_def Let_def stored_def newBlockVotes_def split: option.splits if_splits)

lemma stored_position:
  assumes "wf_voteSet exec vs" and "v \<in> stored vs" and "v_ValidatorIndex v = int i"
  shows "i \<in> occupied (votes vs)"
proof -
  consider j where "j < length (votes vs)" "votes vs ! j = Some v"
    | k bv j where "votesByBlock vs k = Some bv" "j < length (bv_votes bv)" "bv_votes bv ! j = Some v"
    using assms(2) by (auto simp: stored_def in_set_conv_nth)
  then show ?thesis
  proof cases
    case 1
    then show ?thesis using assms(1,3) by (force simp: wf_voteSet_def good_vote_def occupied_def)
  next
    case 2
    then have "wf_blockVotes exec vs k bv" using assms(1) by (simp add: wf_voteSet_def)
    then have "good_vote exec vs j v" "occupied (bv_votes bv) \<subseteq> occupied (votes vs)" using 2 by (simp_all add: wf_blockVotes_def)
    then show ?thesis using 2 assms(3) by (auto simp: good_vote_def occupied_def)
  qed
qed


section \<open>Runs of a set\<close>

text \<open>The events a node handles for a step: a received vote, and the claim of a peer that a block has a majority.\<close>

datatype vote_event = Receive Vote | Claim P2PID BlockID

fun handle_event :: "crypto_lib \<Rightarrow> time_encoder \<Rightarrow> VoteSet \<Rightarrow> vote_event \<Rightarrow> VoteSet go" where
  "handle_event C T vs (Receive v) = do { (vs', _, _) \<leftarrow> AddVote C T (Some vs) (Some v); Ret vs' }"
| "handle_event C T vs (Claim peer b) = do { (vs', _) \<leftarrow> SetPeerMaj23 (Some vs) peer b; Ret vs' }"

fun run_events :: "crypto_lib \<Rightarrow> time_encoder \<Rightarrow> VoteSet \<Rightarrow> vote_event list \<Rightarrow> VoteSet go" where
  "run_events C T vs [] = Ret vs"
| "run_events C T vs (ev # evs) = do { vs' \<leftarrow> handle_event C T vs ev; run_events C T vs' evs }"

text \<open>
  A vote of the step of the set that carries a signature of voter \<open>i\<close> for it, and a valid vote of that voter for \<open>b\<close>.
\<close>

definition signed_vote :: "crypto_lib \<Rightarrow> time_encoder \<Rightarrow> VoteSet \<Rightarrow> nat \<Rightarrow> Vote \<Rightarrow> bool" where
  "signed_vote C T vs i v \<longleftrightarrow> v_ValidatorIndex v = int i \<and> v_Height v = vset_height vs \<and> v_Round v = vset_round vs
     \<and> v_Type v = vset_type vs \<and> v_ValidatorAddress v = Address (Voters (vset_voterSet vs) ! i)
     \<and> (\<exists>k bz. PubKey (Voters (vset_voterSet vs) ! i) = Some k \<and> PubKey_Address C k = Ret (v_ValidatorAddress v)
          \<and> VoteSignBytes T (vset_chainID vs) (Vote_ToProto v) = Ret bz \<and> PubKey_VerifySignature C k bz (sig_bytes (v_Signature v)))"

definition valid_vote :: "crypto_lib \<Rightarrow> time_encoder \<Rightarrow> VoteSet \<Rightarrow> nat \<Rightarrow> BlockID \<Rightarrow> Vote \<Rightarrow> bool" where
  "valid_vote C T vs i b v \<longleftrightarrow> i < num_voters (vset_voterSet vs) \<and> signed_vote C T vs i v \<and> v_ValidatorAddress v \<noteq> []
     \<and> v_BlockID v = b"

text \<open>
  An event of a run in which the voters of \<open>A\<close> sign votes of this step for \<open>b\<close> only. Any vote may be received, also one
  that names a voter of \<open>A\<close> and another block with a signature that is not the voter's. Its block identifier is empty or
  complete, and verifying it does not panic (its time stamp can be encoded and the voters have keys).
\<close>

definition event_ok :: "crypto_lib \<Rightarrow> time_encoder \<Rightarrow> VoteSet \<Rightarrow> nat set \<Rightarrow> BlockID \<Rightarrow> vote_event \<Rightarrow> bool" where
  "event_ok C T vs A b ev \<longleftrightarrow> (case ev of
       Receive v \<Rightarrow> proper_BlockID (v_BlockID v) \<and> (\<forall>i\<in>A. signed_vote C T vs i v \<longrightarrow> v_BlockID v = b)
         \<and> (\<forall>i < num_voters (vset_voterSet vs). exec_verify C T v (vset_chainID vs) (PubKey (Voters (vset_voterSet vs) ! i)) \<noteq> Panic)
     | Claim peer c \<Rightarrow> True)"

text \<open>A vote that passed verification has a signature for the voter's key, whose address it carries.\<close>

lemma exec_verify_Ret:
  "exec_verify C T v chainID pk = Ret None \<longleftrightarrow> (\<exists>k bz. pk = Some k \<and> PubKey_Address C k = Ret (v_ValidatorAddress v)
    \<and> VoteSignBytes T chainID (Vote_ToProto v) = Ret bz \<and> PubKey_VerifySignature C k bz (sig_bytes (v_Signature v)))"
  by (auto simp: exec_verify_def Vote_Verify_def split: option.splits bind_splits if_splits)

lemma good_vote_signed: "good_vote (proper_exec (exec_verify C T)) vs i v \<Longrightarrow> signed_vote C T vs i v"
  by (auto simp: good_vote_def signed_vote_def proper_exec_def exec_verify_Ret split: if_splits)

lemma valid_voteD:
  assumes "valid_vote C T vs i b v"
  shows "admissible vs v" and "v_ValidatorIndex v = int i" and "v_BlockID v = b"
    and "exec_verify C T v (vset_chainID vs) (PubKey (Voters (vset_voterSet vs) ! i)) = Ret None"
  using assms by (auto simp: valid_vote_def signed_vote_def admissible_def exec_verify_Ret)

definition loyal :: "nat set \<Rightarrow> BlockID \<Rightarrow> VoteSet \<Rightarrow> bool" where
  "loyal A b vs \<longleftrightarrow> (\<forall>v \<in> stored vs. v_ValidatorIndex v \<in> int ` A \<longrightarrow> v_BlockID v = b)
     \<and> (\<forall>i \<in> A. i \<in> occupied (votes vs) \<longrightarrow> recorded vs i b)"

lemma occupied_stored: "i \<in> occupied (votes vs) \<Longrightarrow> wf_voteSet exec vs \<Longrightarrow>
  \<exists>v. votes vs ! i = Some v \<and> v \<in> stored vs \<and> v_ValidatorIndex v = int i"
  by (auto simp: occupied_def wf_voteSet_def good_vote_def stored_def in_set_conv_nth)

lemma recorded_grows: "recorded vs i b \<Longrightarrow> grows vs vs' \<Longrightarrow> recorded vs' i b"
  by (fastforce simp: recorded_def grows_def)

lemma getVote_stored: "getVote vs (int i) key = Ret (Some e) \<Longrightarrow> wf_voteSet exec vs \<Longrightarrow> i < num_voters (vset_voterSet vs)
  \<Longrightarrow> e \<in> stored vs \<and> v_ValidatorIndex e = int i"
proof -
  assume g: "getVote vs (int i) key = Ret (Some e)" and wf: "wf_voteSet exec vs" and i: "i < num_voters (vset_voterSet vs)"
  have len: "i < length (votes vs)" using wf i by (simp add: wf_voteSet_def)
  have blk: "bv_votes bv ! i = Some e \<Longrightarrow> e \<in> stored vs \<and> v_ValidatorIndex e = int i" if "votesByBlock vs key = Some bv" for bv
  proof -
    assume e: "bv_votes bv ! i = Some e"
    have w: "wf_blockVotes exec vs key bv" using wf that by (simp add: wf_voteSet_def)
    then have l: "i < length (bv_votes bv)" using i by (simp add: wf_blockVotes_def)
    then have "Some e \<in> set (bv_votes bv)" using e by (metis nth_mem)
    then show ?thesis using w l e that by (auto simp: wf_blockVotes_def good_vote_def stored_def)
  qed
  have idx: "index (votes vs) (int i) = Ret (votes vs ! i)" using len by (simp add: index_in)
  have bidx: "index (bv_votes bv) (int i) = Ret (bv_votes bv ! i)" if "votesByBlock vs key = Some bv" for bv
    using wf that i by (simp add: wf_voteSet_def wf_blockVotes_def index_in)
  consider "votes vs ! i = Some e" | bv where "votesByBlock vs key = Some bv" "bv_votes bv ! i = Some e"
    using g idx bidx by (cases "votesByBlock vs key") (auto simp: getVote_def blockVotes_getByIndex_def split: option.splits if_splits)
  then show ?thesis
  proof cases
    case 1
    then show ?thesis using occupied_stored [OF _ wf, of i] len by (auto simp: occupied_def)
  qed (use blk in blast)
qed

lemma addVote_occupies:
  assumes wf: "wf_voteSet exec vs" and st: "stronger exec' exec" and adm: "admissible vs vote"
    and i: "v_ValidatorIndex vote = int i"
    and ver: "exec' vote (vset_chainID vs) (PubKey (Voters (vset_voterSet vs) ! i)) = Ret None"
    and res: "addVote vs (Some vote) exec' = Ret (vs', added, err)"
  shows "i \<in> occupied (votes vs')"
proof -
  have iv: "i < num_voters (vset_voterSet vs)" using adm i by (simp add: admissible_def)
  let ?key = "BlockID_Key (v_BlockID vote)"
  obtain r where r: "getVote vs (int i) ?key = Ret r" using getVote_total [OF wf iv] by blast
  note eq = res [unfolded addVote_admissible [OF adm i] r bind.simps]
  show ?thesis
  proof (cases r)
    case (Some e)
    then have "vs' = vs" using eq by (auto split: if_splits)
    then show ?thesis using getVote_stored [OF r [unfolded Some] wf iv] stored_position [OF wf] by blast
  next
    case None
    have good: "good_vote exec vs i vote" using adm i ver st by (simp add: good_vote_def admissible_def stronger_def)
    show ?thesis using addVerifiedVote_spec [OF wf iv good refl r [unfolded None]] eq ver None
      by (auto simp: verify_and_add_def voter_weight_def split: option.splits if_splits)
  qed
qed

lemma handle_event_step:
  assumes reach: "reachable C T False vs" and loyal: "loyal A b vs"
    and ok: "event_ok C T vs A b ev"
  shows "\<exists>vs'. handle_event C T vs ev = Ret vs' \<and> vote_step C T False vs vs' \<and> loyal A b vs'"
proof (cases ev)
  case (Claim peer c)
  have wf: "wf_voteSet (verifier C T False) vs" using reachable_wf [OF reach] by blast
  obtain vs' err where s: "SetPeerMaj23 (Some vs) peer c = Ret (vs', err)" "grows vs vs'" "votes vs' = votes vs"
    using SetPeerMaj23_spec [OF wf] by blast
  have "loyal A b vs'" using loyal SetPeerMaj23_stored [OF s(1)] s(2,3) recorded_grows by (fastforce simp: loyal_def)
  then show ?thesis using s(1) Claim vote_step.peer_claim [OF s(1)] by simp
next
  case (Receive v)
  let ?ex = "proper_exec (exec_verify C T)"
  have wf: "wf_voteSet (verifier C T False) vs" using reachable_wf [OF reach] by blast
  have pr: "proper_vote (Some v)" using ok Receive by (simp add: event_ok_def proper_vote_def)
  have eq: "AddVote C T (Some vs) (Some v) = addVote vs (Some v) ?ex"
    using proper_exec_add [OF pr] by (simp add: AddVote_def)
  have np: "?ex v (vset_chainID vs) (PubKey (Voters (vset_voterSet vs) ! i)) \<noteq> Panic" if "i < num_voters (vset_voterSet vs)" for i
    using ok Receive that by (simp add: event_ok_def proper_exec_def)
  have "\<exists>vs' added err. addVote vs (Some v) ?ex = Ret (vs', added, err) \<and> loyal A b vs'"
    using addVote_spec [OF wf verifier_stronger(1), of "Some v"]
  proof (elim disjE exE conjE)
    fix err assume "addVote vs (Some v) ?ex = Ret (vs, False, err)"
    then show ?thesis using loyal by blast
  next
    fix vote i assume "Some v = Some vote" "i < num_voters (vset_voterSet vs)"
      "?ex vote (vset_chainID vs) (PubKey (Voters (vset_voterSet vs) ! i)) = Panic"
    then show ?thesis using np [of i] by simp
  next
    fix vote i vs' added err
    assume a: "Some v = Some vote" "i < num_voters (vset_voterSet vs)" "good_vote ?ex vs i vote"
      "addVote vs (Some v) ?ex = Ret (vs', added, err)" "wf_voteSet (verifier C T False) vs'" "grows vs vs'"
      "added \<longrightarrow> recorded vs' i (v_BlockID vote)" "votes vs ! i = None \<longrightarrow> added \<and> err = None"
    have st: "stored vs' \<subseteq> insert v (stored vs)" using addVote_stored [OF a(4)] .
    have sv: "signed_vote C T vs i v" using good_vote_signed a(1,3) by simp
    have one: "v_BlockID w = b" if w: "w \<in> stored vs'" "v_ValidatorIndex w \<in> int ` A" for w
    proof (cases "w = v")
      case True
      then have "i \<in> A" using w(2) sv by (auto simp: signed_vote_def)
      then show ?thesis using True ok Receive sv by (auto simp: event_ok_def)
    qed (use st loyal w in \<open>auto simp: loyal_def\<close>)
    have two: "recorded vs' j b" if j: "j \<in> A" "j \<in> occupied (votes vs')" for j
    proof (cases "j \<in> occupied (votes vs)")
      case True
      then show ?thesis using loyal j(1) recorded_grows a(6) by (auto simp: loyal_def)
    next
      case False
      obtain w where w: "w \<in> stored vs'" "v_ValidatorIndex w = int j" using occupied_stored [OF j(2) a(5)] by blast
      then have wv: "w = v" using st False stored_position [OF wf _ w(2)] by blast
      then have ji: "j = i" using w(2) a(1,3) by (simp add: good_vote_def)
      have "i < length (votes vs)" using wf a(2) by (simp add: wf_voteSet_def)
      then have "votes vs ! i = None" using False ji by (simp add: occupied_def)
      moreover have "v_BlockID v = b" using one w wv j(1) by auto
      ultimately show ?thesis using a(1,7,8) ji by simp
    qed
    show ?thesis using a(4) one two by (auto simp: loyal_def)
  qed
  then obtain vs' added err where r: "AddVote C T (Some vs) (Some v) = Ret (vs', added, err)" "loyal A b vs'"
    using eq by auto
  then show ?thesis using Receive vote_step.add_vote [OF r(1) pr] by auto
qed

lemma valid_vote_occupies:
  assumes "reachable C T False vs" and "valid_vote C T vs i b v" and "proper_BlockID b"
    and "handle_event C T vs (Receive v) = Ret vs'"
  shows "i \<in> occupied (votes vs')"
proof -
  note vv = valid_voteD [OF assms(2)]
  have pr: "proper_vote (Some v)" using vv(3) assms(3) by (simp add: proper_vote_def)
  obtain added err where r: "addVote vs (Some v) (proper_exec (exec_verify C T)) = Ret (vs', added, err)"
    using assms(4) proper_exec_add [OF pr, of vs "exec_verify C T"] by (auto simp: AddVote_def split: bind_splits)
  show ?thesis
    by (rule addVote_occupies [OF _ verifier_stronger(1) vv(1,2) _ r])
      (use assms(1,3) vv reachable_wf in \<open>auto simp: proper_exec_def\<close>)
qed

lemma run_events_loyal:
  assumes "reachable C T False vs" and "loyal A b vs" and "proper_BlockID b"
    and "\<forall>ev \<in> set evs. event_ok C T vs A b ev"
  shows "\<exists>vs'. run_events C T vs evs = Ret vs' \<and> reachable C T False vs' \<and> loyal A b vs' \<and> same_step vs vs'
    \<and> occupied (votes vs) \<subseteq> occupied (votes vs')
    \<and> (\<forall>i v. Receive v \<in> set evs \<longrightarrow> valid_vote C T vs i b v \<longrightarrow> i \<in> occupied (votes vs'))"
  using assms
proof (induction evs arbitrary: vs)
  case Nil
  then show ?case by (simp add: same_step_def)
next
  case (Cons ev evs)
  obtain v1 where h: "handle_event C T vs ev = Ret v1" "vote_step C T False vs v1" "loyal A b v1"
    using handle_event_step [OF Cons.prems(1,2), of ev] Cons.prems(4) by auto
  have r1: "reachable C T False v1" using reachable.next_step [OF Cons.prems(1) h(2)] .
  have g: "grows vs v1" using vote_step_keeps [OF h(2)] reachable_wf [OF Cons.prems(1)] by blast
  then have same: "same_step vs v1" and sub: "occupied (votes vs) \<subseteq> occupied (votes v1)" by (simp_all add: grows_def)
  have sv: "signed_vote C T v1 i v = signed_vote C T vs i v" for i v using same by (simp add: signed_vote_def same_step_def)
  have vv: "valid_vote C T v1 i b v = valid_vote C T vs i b v" for i v using same by (simp add: valid_vote_def sv same_step_def)
  have ok: "event_ok C T v1 A b e = event_ok C T vs A b e" for e
    using same by (cases e) (simp_all add: event_ok_def sv same_step_def)
  obtain vs' where v': "run_events C T v1 evs = Ret vs'" "reachable C T False vs'" "loyal A b vs'" "same_step v1 vs'"
      "occupied (votes v1) \<subseteq> occupied (votes vs')"
      "\<forall>i v. Receive v \<in> set evs \<longrightarrow> valid_vote C T v1 i b v \<longrightarrow> i \<in> occupied (votes vs')"
    using Cons.IH [OF r1 h(3) Cons.prems(3)] Cons.prems(4) ok by auto
  have "i \<in> occupied (votes vs')" if "Receive v \<in> set (ev # evs)" "valid_vote C T vs i b v" for i v
  proof (cases "ev = Receive v")
    case True
    then show ?thesis using valid_vote_occupies [OF Cons.prems(1) that(2) Cons.prems(3)] h(1) v'(5) by blast
  next
    case False
    then show ?thesis using that v'(6) vv by auto
  qed
  then show ?case using h(1) v' sub same by (auto simp: same_step_def)
qed

lemma loyal_quorum_wins:
  assumes reach: "reachable C T False vs" and loyal: "loyal A b vs" and q: "vq.quorum (vset_voterSet vs) A"
    and all: "A \<subseteq> occupied (votes vs)"
  shows "maj23 vs = Some b"
proof -
  have wf: "wf_voteSet (verifier C T False) vs" using reachable_wf [OF reach] by blast
  then have wv: "wf_voters (vset_voterSet vs)" by (simp add: wf_voteSet_def)
  have pos: "X \<noteq> {}" if "vq.total_weight (vset_voterSet vs) < 3 * vq.weight_of (vset_voterSet vs) X" for X
    using that total_weight_cached [OF wv] wf_voters_total [OF wv] by auto
  have "A \<noteq> {}" using q total_weight_cached [OF wv] wf_voters_total [OF wv] by (auto simp: vq.quorum_def)
  then obtain bv where bv: "votesByBlock vs (BlockID_Key b) = Some bv"
    using loyal all by (fastforce simp: loyal_def recorded_def)
  have sub: "A \<subseteq> occupied (bv_votes bv)" using loyal all bv by (fastforce simp: loyal_def recorded_def)
  have len: "occupied (bv_votes bv) \<subseteq> {..<num_voters (vset_voterSet vs)}"
    using wf bv occupied_bound [of "bv_votes bv"] by (auto simp: wf_voteSet_def wf_blockVotes_def)
  have "has_quorum vs bv" using vq.quorum_mono [OF wv q sub len] by (simp add: has_quorum_def)
  then obtain c where c: "maj23 vs = Some c" using wf bv by (cases "maj23 vs") (auto simp: wf_voteSet_def)
  obtain B where B: "vq.quorum (vset_voterSet vs) B" "\<forall>i\<in>B. \<exists>v. votes vs ! i = Some v \<and> v_BlockID v = c"
    using majority_votes [OF reach c] by blast
  obtain i where i: "i \<in> A" "i \<in> B" using pos [OF vq.quorum_intersection [OF wv q B(1)]] by auto
  obtain v where v: "votes vs ! i = Some v" "v \<in> stored vs" "v_ValidatorIndex v = int i"
    using occupied_stored [OF _ wf, of i] all i(1) by blast
  have "c = b" using B(2) i v loyal by (force simp: loyal_def)
  then show ?thesis using c by simp
qed


section \<open>Properties\<close>

text \<open>An electorate whose first voter has three quarters of the weight, and that voter's ballot.\<close>

definition live_crypto :: crypto_lib where
  "live_crypto = ex_crypto\<lparr>sha256 := (\<lambda>k. replicate 32 (hd k)), ed25519_Verify := (\<lambda>_ _ _. True)\<rparr>"

definition ex_member :: "byte \<Rightarrow> int64 \<Rightarrow> Validator" where
  "ex_member a w = \<lparr>Address = replicate 20 a, PubKey = Some (PubKeyEd25519 (replicate 32 a)), VotingPower = w,
     VotingWeight = w, ProposerPriority = 0\<rparr>"

definition ex_electorate :: VoterSet where
  "ex_electorate = \<lparr>Voters = [ex_member 1 30, ex_member 2 5, ex_member 3 5], totalVotingWeight = 40\<rparr>"

definition ex_ballot :: "BlockID \<Rightarrow> Vote" where
  "ex_ballot b = \<lparr>v_Type = PrecommitType, v_Height = 7, v_Round = 1, v_BlockID = b, v_Timestamp = 9,
     v_ValidatorAddress = replicate 20 1, v_ValidatorIndex = 0, v_Signature = Some (replicate 64 0)\<rparr>"

definition ex_block2 :: BlockID where
  "ex_block2 = ex_block\<lparr>bid_Hash := replicate 32 7\<rparr>"

definition ex_set :: VoteSet where
  "ex_set = the (NewVoteSet [] 7 1 PrecommitType ex_electorate)"

lemma ex_set_new: "NewVoteSet [] 7 1 PrecommitType ex_electorate = Ret ex_set"
  by (simp add: ex_set_def NewVoteSet_def)

lemma ex_set_simps [simp]:
  "vset_chainID ex_set = []" "vset_voterSet ex_set = ex_electorate" "vset_height ex_set = 7" "vset_round ex_set = 1"
  "vset_type ex_set = PrecommitType"
  by (simp_all add: ex_set_def NewVoteSet_def)

lemma ex_electorate_wf: "wf_voters ex_electorate"
  by (simp add: wf_voters_def ex_electorate_def ex_member_def sum_weights_def MaxTotalVotingWeight_def max_power)

lemma ex_num_voters [simp]: "num_voters ex_electorate = 3"
  by (simp add: num_voters_def ex_electorate_def)

lemma ex_set_reachable: "reachable live_crypto ex_time agg ex_set"
  using reachable.start [OF ex_electorate_wf ex_set_new] .

lemma ex_blocks: "b \<in> {ex_block, ex_block2} \<Longrightarrow> BlockID_ValidateBasic b = None \<and> proper_BlockID b"
  by (auto simp: BlockID_ValidateBasic_def PartSetHeader_ValidateBasic_def ValidateHash_def ex_block_def ex_block2_def
      tmhash_Size_def proper_BlockID_def BlockID_IsComplete_def)

lemma ex_ballot_step_exec:
  assumes "b \<in> {ex_block, ex_block2}"
  shows "exec_verify live_crypto ex_time (ex_ballot b\<lparr>v_Round := r, v_Type := ty\<rparr>) [] (PubKey (ex_member a w))
    = Ret (if a = 1 then None else Some ErrVoteInvalidValidatorAddress)"
proof -
  have "\<exists>bz. VoteSignBytes ex_time [] (Vote_ToProto (ex_ballot b\<lparr>v_Round := r, v_Type := ty\<rparr>)) = Ret bz"
    using ex_blocks [OF assms]
    by (simp add: VoteSignBytes_def CanonicalizeVote_def CanonicalVote_Marshal_def ex_time_def ex_ballot_def Vote_ToProto_def
        CanonicalizeBlockID_def BlockIDFromProto_valid)
  then obtain bz where bz: "VoteSignBytes ex_time [] (Vote_ToProto (ex_ballot b\<lparr>v_Round := r, v_Type := ty\<rparr>)) = Ret bz" by blast
  have ad: "PubKey_Address live_crypto (PubKeyEd25519 (replicate 32 a)) = Ret (replicate 20 a)"
    by (simp add: PubKey_Address_def ed25519_Address_def ed25519_PubKeySize_def SumTruncated_def live_crypto_def
        TruncatedSize_def)
  have "replicate 20 a = replicate 20 (1::byte) \<longleftrightarrow> a = 1" by (simp add: replicate_eq_replicate)
  then show ?thesis using bz ad
    by (simp add: exec_verify_def Vote_Verify_def ex_member_def)
      (simp add: ex_ballot_def ed25519_VerifySignature_def ed25519_SignatureSize_def live_crypto_def sig_bytes_def)
qed

lemma ex_ballot_exec:
  assumes "b \<in> {ex_block, ex_block2}"
  shows "exec_verify live_crypto ex_time (ex_ballot b) [] (PubKey (ex_member a w))
    = Ret (if a = 1 then None else Some ErrVoteInvalidValidatorAddress)"
proof -
  have "ex_ballot b\<lparr>v_Round := 1, v_Type := PrecommitType\<rparr> = ex_ballot b" by (simp add: ex_ballot_def)
  then show ?thesis using ex_ballot_step_exec [OF assms, where r = 1 and ty = PrecommitType] by simp
qed

lemma ex_event_ok:
  assumes "b \<in> {ex_block, ex_block2}"
  shows "event_ok live_crypto ex_time ex_set {0} b (Receive (ex_ballot b))"
    "valid_vote live_crypto ex_time ex_set 0 b (ex_ballot b)"
proof -
  have "exec_verify live_crypto ex_time (ex_ballot b) [] (PubKey (Voters ex_electorate ! i)) \<noteq> Panic" if "i < 3" for i
    using that ex_ballot_exec [OF assms] by (auto simp: ex_electorate_def less_Suc_eq numeral_3_eq_3)
  then show "event_ok live_crypto ex_time ex_set {0} b (Receive (ex_ballot b))"
    using ex_blocks [OF assms] by (simp add: event_ok_def) (simp add: ex_ballot_def)
  have "exec_verify live_crypto ex_time (ex_ballot b) [] (PubKey (ex_member 1 30)) = Ret None" using ex_ballot_exec [OF assms, of 1 30] by simp
  then have "signed_vote live_crypto ex_time ex_set 0 (ex_ballot b)"
    unfolding exec_verify_Ret signed_vote_def by (simp add: ex_electorate_def) (simp add: ex_ballot_def ex_member_def)
  then show "valid_vote live_crypto ex_time ex_set 0 b (ex_ballot b)" by (simp add: valid_vote_def) (simp add: ex_ballot_def)
qed

text \<open>A forged ballot: it names the first voter and the other block, but its signature is empty.\<close>

definition ex_forged :: Vote where
  "ex_forged = ex_ballot ex_block2\<lparr>v_Signature := None\<rparr>"

lemma ex_forged_ok: "event_ok live_crypto ex_time ex_set {0} ex_block (Receive ex_forged)"
proof -
  have pr: "Vote_ToProto ex_forged = (Vote_ToProto (ex_ballot ex_block2))\<lparr>v_Signature := None\<rparr>"
    by (simp add: ex_forged_def Vote_ToProto_def)
  have bz: "VoteSignBytes T c (v\<lparr>v_Signature := sig\<rparr>) = VoteSignBytes T c v" for T c v sig
    by (simp add: VoteSignBytes_def CanonicalizeVote_def)
  have "exec_verify live_crypto ex_time ex_forged [] (PubKey (ex_member a w))
      \<in> {Ret (Some ErrVoteInvalidSignature), Ret (Some ErrVoteInvalidValidatorAddress)}" for a w
    using ex_ballot_exec [of ex_block2 a w]
    by (auto simp: exec_verify_def Vote_Verify_def pr bz ex_member_def ex_forged_def ed25519_VerifySignature_def
        ed25519_SignatureSize_def sig_bytes_def split: bind_splits if_splits)
  moreover have "\<exists>a w. Voters ex_electorate ! i = ex_member a w" if "i < 3" for i
    using that by (auto simp: ex_electorate_def less_Suc_eq numeral_3_eq_3) blast+
  ultimately have e: "exec_verify live_crypto ex_time ex_forged [] (PubKey (Voters ex_electorate ! i))
      \<in> {Ret (Some ErrVoteInvalidSignature), Ret (Some ErrVoteInvalidValidatorAddress)}" if "i < 3" for i
    using that by metis
  have np: "exec_verify live_crypto ex_time ex_forged [] (PubKey (Voters ex_electorate ! i)) \<noteq> Panic" if "i < 3" for i
    using e [OF that] by auto
  have "\<not> signed_vote live_crypto ex_time ex_set 0 ex_forged"
    using e [of 0] exec_verify_Ret [of live_crypto ex_time ex_forged "[]" "PubKey (Voters ex_electorate ! 0)"] by (auto simp: signed_vote_def)
  then show ?thesis using np ex_blocks [of ex_block2] by (simp add: event_ok_def) (simp add: ex_forged_def ex_ballot_def)
qed

lemma ex_quorum: "vq.quorum ex_electorate {0}"
  by (simp add: vq.quorum_def vq.total_weight_def vq.weight_of_def voter_weight_def ex_electorate_def ex_member_def
      numeral_3_eq_3 num_voters_def)

lemma ex_set_loyal: "loyal A b ex_set"
  by (auto simp: loyal_def stored_def ex_set_def NewVoteSet_def occupied_def)

lemma ex_majority:
  assumes "b \<in> {ex_block, ex_block2}"
  shows "\<exists>vs. reachable live_crypto ex_time False vs \<and> maj23 vs = Some b \<and> same_step ex_set vs"
proof -
  obtain vs where vs: "reachable live_crypto ex_time False vs" "loyal {0} b vs" "same_step ex_set vs"
      "\<forall>i v. Receive v \<in> set [Receive (ex_ballot b)] \<longrightarrow> valid_vote live_crypto ex_time ex_set i b v \<longrightarrow> i \<in> occupied (votes vs)"
    using run_events_loyal [OF ex_set_reachable ex_set_loyal, of b "[Receive (ex_ballot b)]" "{0}"]
      ex_blocks [OF assms] ex_event_ok(1) [OF assms] by auto
  have "0 \<in> occupied (votes vs)" using vs(4) ex_event_ok(2) [OF assms] by auto
  then have "maj23 vs = Some b" using loyal_quorum_wins [OF vs(1,2)] vs(3) ex_quorum by (auto simp: same_step_def)
  then show ?thesis using vs by blast
qed

text \<open>
  C6. The invariant of vote sets: however a set was reached, its bit array marks exactly the voters that have
  a vote, its sum is their voting weight, every vote belongs to its position and step and was verified (for votes added by
  \<^verbatim>\<open>AddAggregatedVote\<close> this is the check of the address only, the signature is checked with the aggregate), the
  votes of each tracked block satisfy the same, and \<^verbatim>\<open>maj23\<close> is set exactly when a tracked block has
  more than two thirds of the weight. No step changes the majority once it is set, and none loses a voter.
\<close>

theorem VoteSet_invariant:
  assumes "reachable C T agg vs"
  shows "wf_voteSet (verifier C T agg) vs \<and> tracked vs
    \<and> (\<forall>vs'. vote_step C T agg vs vs' \<longrightarrow> (maj23 vs \<noteq> None \<longrightarrow> maj23 vs' = maj23 vs) \<and> occupied (votes vs) \<subseteq> occupied (votes vs'))"
  using reachable_wf [OF assms] vote_step_keeps by (fastforce simp: grows_def)

theorem VoteSet_invariant_witness:
  "\<exists>vs. maj23 vs = Some ex_block \<and> vset_voterSet vs = ex_electorate \<and> wf_voteSet (verifier live_crypto ex_time False) vs"
proof -
  obtain vs where "reachable live_crypto ex_time False vs" "maj23 vs = Some ex_block" "same_step ex_set vs"
    using ex_majority by blast
  then show ?thesis using VoteSet_invariant [of live_crypto ex_time False vs] by (auto simp: same_step_def)
qed

text \<open>
  C7. What a vote set reports is exact: \<^verbatim>\<open>HasTwoThirdsAny\<close> and \<^verbatim>\<open>HasAll\<close> compare the weight of the voters
  that have a vote with two thirds and with all of the total weight, without overflow, and
  \<^verbatim>\<open>TwoThirdsMajority\<close> returns the block that a quorum of verified votes chose.
\<close>

theorem VoteSet_reports:
  assumes "reachable C T False vs"
  shows "HasTwoThirdsAny (Some vs) = Ret (2 * totalVotingWeight (vset_voterSet vs) < 3 * vq.weight_of (vset_voterSet vs) (occupied (votes vs)))
    \<and> HasAll (Some vs) = Ret (vq.weight_of (vset_voterSet vs) (occupied (votes vs)) = totalVotingWeight (vset_voterSet vs))
    \<and> (TwoThirdsMajority (Some vs) = (b, True) \<longrightarrow> (\<exists>A. vq.quorum (vset_voterSet vs) A \<and> (\<forall>i\<in>A. voted_for C T vs i b)))"
proof -
  have wf: "wf_voteSet (verifier C T False) vs" using reachable_wf [OF assms] by blast
  then have wv: "wf_voters (vset_voterSet vs)" and sum: "vset_sum vs = vq.weight_of (vset_voterSet vs) (occupied (votes vs))"
    by (simp_all add: wf_voteSet_def)
  have two: "wrap64 (totalVotingWeight (vset_voterSet vs) * 2) sdiv 3 < s \<longleftrightarrow> 2 * totalVotingWeight (vset_voterSet vs) < 3 * s" for s
    using required_iff wf_voters_total [OF wv] by blast
  have maj: "\<exists>A. vq.quorum (vset_voterSet vs) A \<and> (\<forall>i\<in>A. voted_for C T vs i b)" if "maj23 vs = Some b"
    using majority_votes [OF assms that] by blast
  show ?thesis
  proof (intro conjI impI)
    show "HasTwoThirdsAny (Some vs) = Ret (2 * totalVotingWeight (vset_voterSet vs) < 3 * vq.weight_of (vset_voterSet vs) (occupied (votes vs)))"
      unfolding HasTwoThirdsAny_def option.case TotalVotingWeight_cached [OF wv] sum by (simp add: two)
    show "HasAll (Some vs) = Ret (vq.weight_of (vset_voterSet vs) (occupied (votes vs)) = totalVotingWeight (vset_voterSet vs))"
      unfolding HasAll_def option.case TotalVotingWeight_cached [OF wv] sum by simp
    assume "TwoThirdsMajority (Some vs) = (b, True)"
    then have "maj23 vs = Some b" by (simp add: TwoThirdsMajority_def split: option.splits)
    then show "\<exists>A. vq.quorum (vset_voterSet vs) A \<and> (\<forall>i\<in>A. voted_for C T vs i b)" by (rule maj)
  qed
qed

theorem VoteSet_reports_witness:
  "\<exists>vs A. TwoThirdsMajority (Some vs) = (ex_block, True) \<and> vq.quorum ex_electorate A
     \<and> (\<forall>i\<in>A. voted_for live_crypto ex_time vs i ex_block)"
proof -
  obtain vs where vs: "reachable live_crypto ex_time False vs" "maj23 vs = Some ex_block" "same_step ex_set vs"
    using ex_majority by blast
  then have "TwoThirdsMajority (Some vs) = (ex_block, True)" by (simp add: TwoThirdsMajority_def)
  then show ?thesis using VoteSet_reports [OF vs(1), of ex_block] vs(3) by (auto simp: same_step_def)
qed

text \<open>
  C4. Conflicting majorities are attributable: if two vote sets of the same step, at any two nodes, report
  majorities for different blocks, then voters with more than a third of the total weight have verified votes
  for both blocks at that step.
\<close>

theorem conflicting_majorities:
  assumes "reachable C T False vs1" and "reachable C T False vs2" and "same_step vs1 vs2"
    and "TwoThirdsMajority (Some vs1) = (b1, True)" and "TwoThirdsMajority (Some vs2) = (b2, True)"
  shows "\<exists>A. totalVotingWeight (vset_voterSet vs1) < 3 * vq.weight_of (vset_voterSet vs1) A
    \<and> (\<forall>i\<in>A. i < num_voters (vset_voterSet vs1) \<and> voted_for C T vs1 i b1 \<and> voted_for C T vs1 i b2)"
proof -
  have m: "maj23 vs1 = Some b1" "maj23 vs2 = Some b2"
    using assms(4,5) by (auto simp: TwoThirdsMajority_def split: option.splits)
  have wv: "wf_voters (vset_voterSet vs1)" using reachable_wf [OF assms(1)] by (simp add: wf_voteSet_def)
  obtain A where A: "vq.quorum (vset_voterSet vs1) A" "\<forall>i\<in>A. voted_for C T vs1 i b1"
    using majority_votes [OF assms(1) m(1)] by blast
  obtain B where B: "vq.quorum (vset_voterSet vs1) B" "\<forall>i\<in>B. voted_for C T vs1 i b2"
    using majority_votes [OF assms(2) m(2)] assms(3) by (auto simp: same_step_def voted_for_def)
  show ?thesis using vq.quorum_intersection [OF wv A(1) B(1)] total_weight_cached [OF wv] A B
    by (intro exI [of _ "A \<inter> B"]) (auto simp: vq.quorum_def)
qed

theorem conflicting_majorities_witness:
  "\<exists>vs A. 40 < 3 * vq.weight_of ex_electorate A
     \<and> (\<forall>i\<in>A. voted_for live_crypto ex_time vs i ex_block \<and> voted_for live_crypto ex_time vs i ex_block2)"
proof -
  obtain vs1 where v1: "reachable live_crypto ex_time False vs1" "maj23 vs1 = Some ex_block" "same_step ex_set vs1"
    using ex_majority by blast
  obtain vs2 where v2: "reachable live_crypto ex_time False vs2" "maj23 vs2 = Some ex_block2" "same_step ex_set vs2"
    using ex_majority by blast
  have "same_step vs1 vs2" using v1(3) v2(3) by (simp add: same_step_def)
  moreover have "TwoThirdsMajority (Some vs1) = (ex_block, True)" "TwoThirdsMajority (Some vs2) = (ex_block2, True)"
    using v1 v2 by (simp_all add: TwoThirdsMajority_def)
  moreover have "vset_voterSet vs1 = ex_electorate" "totalVotingWeight ex_electorate = 40"
    using v1(3) by (simp_all add: same_step_def ex_electorate_def)
  ultimately show ?thesis using conflicting_majorities [OF v1(1) v2(1)] by fastforce
qed

text \<open>
  C5. A majority is reached: when voters with more than two thirds of the weight of a well-formed set sign votes of the
  step for one block only, then any run of a new vote set that contains a valid vote of each of them ends with that block as the
  majority. The votes may come in any order, with repetitions, mixed with any claims of peers and any other votes: votes of the
  other voters for any block, votes of other steps, and forged votes that name one of these voters and another block
  without a signature of the voter. The other votes must have an empty or complete block identifier and
  verifying them must not panic.
\<close>

theorem majority_reached:
  assumes "wf_voters voters" and "NewVoteSet chainID height rnd ty voters = Ret vs" and "proper_BlockID b"
    and "vq.quorum voters A"
    and "\<forall>ev \<in> set evs. event_ok C T vs A b ev"
    and "\<forall>i \<in> A. \<exists>v. Receive v \<in> set evs \<and> valid_vote C T vs i b v"
  shows "\<exists>vs'. run_events C T vs evs = Ret vs' \<and> TwoThirdsMajority (Some vs') = (b, True)"
proof -
  have new: "vset_voterSet vs = voters" "loyal A b vs"
    using assms(2) by (auto simp: NewVoteSet_def loyal_def stored_def occupied_def split: if_splits)
  obtain vs' where v': "run_events C T vs evs = Ret vs'" "reachable C T False vs'" "loyal A b vs'" "same_step vs vs'"
      "\<forall>i v. Receive v \<in> set evs \<longrightarrow> valid_vote C T vs i b v \<longrightarrow> i \<in> occupied (votes vs')"
    using run_events_loyal [OF reachable.start [OF assms(1,2)] new(2) assms(3,5)] by auto
  have "A \<subseteq> occupied (votes vs')" using v'(5) assms(6) by blast
  then have "maj23 vs' = Some b" using loyal_quorum_wins [OF v'(2,3)] assms(4) v'(4) new by (simp add: same_step_def)
  then show ?thesis using v'(1) by (simp add: TwoThirdsMajority_def)
qed

text \<open>A peer claims the other block and sends the forged ballot before the voter's own ballot arrives.\<close>

theorem majority_reached_witness:
  "\<exists>vs'. run_events live_crypto ex_time ex_set [Claim ''peer'' ex_block2, Receive ex_forged, Receive (ex_ballot ex_block)] = Ret vs'
     \<and> TwoThirdsMajority (Some vs') = (ex_block, True)"
proof -
  have ok: "event_ok live_crypto ex_time ex_set {0} ex_block (Claim ''peer'' ex_block2)" by (simp add: event_ok_def)
  show ?thesis
    by (rule majority_reached [OF ex_electorate_wf ex_set_new _ ex_quorum])
      (use ok ex_forged_ok ex_event_ok [of ex_block] ex_blocks [of ex_block] in auto)
qed

end
