(* ===== verification/Height_Vote_Set.thy ===== *)
theory Height_Vote_Set
  imports Vote_Set_Safety
begin

text \<open>
  The vote sets of one height (\<^verbatim>\<open>consensus/types/height_vote_set.go\<close>): a prevote and a precommit set for every
  round up to the current one, and for up to two later rounds from each peer. The rounds are a map from
  round numbers to pairs of vote sets; a method of a vote set puts the changed set back. The mutex is not modelled.
\<close>

section \<open>State and operations\<close>

record RoundVoteSet =
  Prevotes :: VoteSet
  Precommits :: VoteSet

record HeightVoteSet =
  hvs_chainID :: bytes
  hvs_height :: int64
  hvs_voterSet :: VoterSet
  hvs_round :: int32
  roundVoteSets :: "int32 \<rightharpoonup> RoundVoteSet"
  peerCatchupRounds :: "P2PID \<rightharpoonup> int32 list"

definition addRound :: "HeightVoteSet \<Rightarrow> int32 \<Rightarrow> HeightVoteSet go" where
  "addRound hvs rnd =
     (if roundVoteSets hvs rnd \<noteq> None then Panic
      else
        do {
          prevotes \<leftarrow> NewVoteSet (hvs_chainID hvs) (hvs_height hvs) rnd PrevoteType (hvs_voterSet hvs);
          precommits \<leftarrow> NewVoteSet (hvs_chainID hvs) (hvs_height hvs) rnd PrecommitType (hvs_voterSet hvs);
          Ret (hvs\<lparr>roundVoteSets := (roundVoteSets hvs)(rnd \<mapsto> \<lparr>Prevotes = prevotes, Precommits = precommits\<rparr>)\<rparr>)
        })"

definition Reset :: "HeightVoteSet \<Rightarrow> int64 \<Rightarrow> VoterSet \<Rightarrow> HeightVoteSet go" where
  "Reset hvs height voters =
     do {
       hvs \<leftarrow> addRound (hvs\<lparr>hvs_height := height, hvs_voterSet := voters, roundVoteSets := Map.empty,
                peerCatchupRounds := Map.empty\<rparr>) 0;
       Ret (hvs\<lparr>hvs_round := 0\<rparr>)
     }"

definition NewHeightVoteSet :: "bytes \<Rightarrow> int64 \<Rightarrow> VoterSet \<Rightarrow> HeightVoteSet go" where
  "NewHeightVoteSet chainID height voters =
     Reset \<lparr>hvs_chainID = chainID, hvs_height = 0, hvs_voterSet = \<lparr>Voters = [], totalVotingWeight = 0\<rparr>, hvs_round = 0,
       roundVoteSets = Map.empty, peerCatchupRounds = Map.empty\<rparr> height voters"

fun add_rounds :: "HeightVoteSet \<Rightarrow> int32 list \<Rightarrow> HeightVoteSet go" where
  "add_rounds hvs [] = Ret hvs"
| "add_rounds hvs (r # rs) =
     (if roundVoteSets hvs r \<noteq> None then add_rounds hvs rs
      else do { hvs' \<leftarrow> addRound hvs r; add_rounds hvs' rs })"

text \<open>
  The loop counter is an int32: with \<^verbatim>\<open>math.MaxInt32\<close> as the last round the loop condition never becomes
  false, so the call does not return. There is no result in this case either, and \<open>Panic\<close> stands for both.
\<close>

definition SetRound :: "HeightVoteSet \<Rightarrow> int32 \<Rightarrow> HeightVoteSet go" where
  "SetRound hvs rnd =
     do {
       newRound \<leftarrow> SafeSubInt32 (hvs_round hvs) 1;
       if hvs_round hvs \<noteq> 0 \<and> rnd < newRound then Panic
       else if rnd = MaxInt32 then Panic
       else
         do {
           hvs' \<leftarrow> add_rounds hvs [newRound..rnd];
           Ret (hvs'\<lparr>hvs_round := rnd\<rparr>)
         }
     }"

definition getVoteSet :: "HeightVoteSet \<Rightarrow> int32 \<Rightarrow> SignedMsgType \<Rightarrow> VoteSet option go" where
  "getVoteSet hvs rnd voteType = (case roundVoteSets hvs rnd of
       None \<Rightarrow> Ret None
     | Some rvs \<Rightarrow>
         if voteType = PrevoteType then Ret (Some (Prevotes rvs))
         else if voteType = PrecommitType then Ret (Some (Precommits rvs))
         else Panic)"

text \<open>A changed vote set is put back into its round.\<close>

definition putVoteSet :: "HeightVoteSet \<Rightarrow> int32 \<Rightarrow> SignedMsgType \<Rightarrow> VoteSet \<Rightarrow> HeightVoteSet" where
  "putVoteSet hvs rnd voteType vs = (case roundVoteSets hvs rnd of
       None \<Rightarrow> hvs
     | Some rvs \<Rightarrow>
         hvs\<lparr>roundVoteSets := (roundVoteSets hvs)
           (rnd \<mapsto> (if voteType = PrevoteType then rvs\<lparr>Prevotes := vs\<rparr> else rvs\<lparr>Precommits := vs\<rparr>))\<rparr>)"

datatype hvs_error = ErrGotVoteFromUnwantedRound | VoteError vote_error | InvalidVoteType SignedMsgType | PeerError peer_error

definition HeightVoteSet_AddVote ::
  "crypto_lib \<Rightarrow> time_encoder \<Rightarrow> HeightVoteSet \<Rightarrow> Vote option \<Rightarrow> P2PID \<Rightarrow> (HeightVoteSet \<times> bool \<times> hvs_error option) go" where
  "HeightVoteSet_AddVote C T hvs voteo peerID =
     do {
       vote \<leftarrow> voteo;
       if \<not> IsVoteTypeValid (v_Type vote) then Ret (hvs, False, None)
       else
         do {
           voteSet \<leftarrow> getVoteSet hvs (v_Round vote) (v_Type vote);
           let rndz = (case peerCatchupRounds hvs peerID of None \<Rightarrow> [] | Some rs \<Rightarrow> rs);
           if voteSet = None \<and> \<not> length rndz < 2 then Ret (hvs, False, Some ErrGotVoteFromUnwantedRound)
           else
             do {
               hvs \<leftarrow> (if voteSet = None then
                         do {
                           hvs \<leftarrow> addRound hvs (v_Round vote);
                           Ret (hvs\<lparr>peerCatchupRounds := (peerCatchupRounds hvs)(peerID \<mapsto> rndz @ [v_Round vote])\<rparr>)
                         }
                       else Ret hvs);
               voteSet \<leftarrow> getVoteSet hvs (v_Round vote) (v_Type vote);
               (vs, added, err) \<leftarrow> AddVote C T voteSet voteo;
               Ret (putVoteSet hvs (v_Round vote) (v_Type vote) vs, added, map_option VoteError err)
             }
         }
     }"

definition HeightVoteSet_Prevotes :: "HeightVoteSet \<Rightarrow> int32 \<Rightarrow> VoteSet option go" where
  "HeightVoteSet_Prevotes hvs rnd = getVoteSet hvs rnd PrevoteType"

definition HeightVoteSet_Precommits :: "HeightVoteSet \<Rightarrow> int32 \<Rightarrow> VoteSet option go" where
  "HeightVoteSet_Precommits hvs rnd = getVoteSet hvs rnd PrecommitType"

fun pol_loop :: "HeightVoteSet \<Rightarrow> int32 list \<Rightarrow> (int32 \<times> BlockID) go" where
  "pol_loop hvs [] = Ret (-1, zero_BlockID)"
| "pol_loop hvs (r # rs) =
     do {
       rvs \<leftarrow> getVoteSet hvs r PrevoteType;
       (case TwoThirdsMajority rvs of (polBlockID, ok) \<Rightarrow> if ok then Ret (r, polBlockID) else pol_loop hvs rs)
     }"

definition POLInfo :: "HeightVoteSet \<Rightarrow> (int32 \<times> BlockID) go" where
  "POLInfo hvs = pol_loop hvs (rev [0..hvs_round hvs])"

definition HeightVoteSet_SetPeerMaj23 ::
  "HeightVoteSet \<Rightarrow> int32 \<Rightarrow> SignedMsgType \<Rightarrow> P2PID \<Rightarrow> BlockID \<Rightarrow> (HeightVoteSet \<times> hvs_error option) go" where
  "HeightVoteSet_SetPeerMaj23 hvs rnd voteType peerID blockID =
     (if \<not> IsVoteTypeValid voteType then Ret (hvs, Some (InvalidVoteType voteType))
      else
        do {
          voteSet \<leftarrow> getVoteSet hvs rnd voteType;
          (case voteSet of
             None \<Rightarrow> Ret (hvs, None)
           | Some _ \<Rightarrow>
               do {
                 (vs, err) \<leftarrow> SetPeerMaj23 voteSet peerID blockID;
                 Ret (putVoteSet hvs rnd voteType vs, map_option PeerError err)
               })
        })"

section \<open>Reachable states\<close>

definition vote_set_for :: "crypto_lib \<Rightarrow> time_encoder \<Rightarrow> HeightVoteSet \<Rightarrow> int32 \<Rightarrow> SignedMsgType \<Rightarrow> VoteSet \<Rightarrow> bool" where
  "vote_set_for C T hvs rnd ty vs \<longleftrightarrow> reachable C T False vs \<and> vset_chainID vs = hvs_chainID hvs
     \<and> vset_height vs = hvs_height hvs \<and> vset_round vs = rnd \<and> vset_type vs = ty \<and> vset_voterSet vs = hvs_voterSet hvs"

definition catchup :: "HeightVoteSet \<Rightarrow> int32 set" where
  "catchup hvs = {r. \<exists>peer rs. peerCatchupRounds hvs peer = Some rs \<and> r \<in> set rs}"

definition wf_hvs :: "crypto_lib \<Rightarrow> time_encoder \<Rightarrow> HeightVoteSet \<Rightarrow> bool" where
  "wf_hvs C T hvs \<longleftrightarrow> wf_voters (hvs_voterSet hvs) \<and> hvs_height hvs \<noteq> 0 \<and> 0 \<le> hvs_round hvs \<and> hvs_round hvs < MaxInt32
     \<and> (\<forall>r rvs. roundVoteSets hvs r = Some rvs \<longrightarrow>
          vote_set_for C T hvs r PrevoteType (Prevotes rvs) \<and> vote_set_for C T hvs r PrecommitType (Precommits rvs))
     \<and> {0..hvs_round hvs} \<subseteq> dom (roundVoteSets hvs)
     \<and> dom (roundVoteSets hvs) \<subseteq> {-1..hvs_round hvs} \<union> catchup hvs
     \<and> (\<forall>peer rs. peerCatchupRounds hvs peer = Some rs \<longrightarrow> length rs \<le> 2)
     \<and> finite (dom (peerCatchupRounds hvs))"

text \<open>The consensus state only moves to a later round of the same height.\<close>

inductive hvs_step :: "crypto_lib \<Rightarrow> time_encoder \<Rightarrow> HeightVoteSet \<Rightarrow> HeightVoteSet \<Rightarrow> bool"
  for C :: crypto_lib and T :: time_encoder where
  receive: "HeightVoteSet_AddVote C T hvs vo peer = Ret (hvs', added, err) \<Longrightarrow> proper_vote vo \<Longrightarrow> hvs_step C T hvs hvs'"
| claim: "HeightVoteSet_SetPeerMaj23 hvs rnd ty peer b = Ret (hvs', err) \<Longrightarrow> hvs_step C T hvs hvs'"
| advance: "SetRound hvs rnd = Ret hvs' \<Longrightarrow> in32 rnd \<Longrightarrow> hvs_round hvs \<le> rnd \<Longrightarrow> hvs_step C T hvs hvs'"

inductive hvs_reachable :: "crypto_lib \<Rightarrow> time_encoder \<Rightarrow> HeightVoteSet \<Rightarrow> bool"
  for C :: crypto_lib and T :: time_encoder where
  init: "wf_voters voters \<Longrightarrow> NewHeightVoteSet chainID height voters = Ret hvs \<Longrightarrow> hvs_reachable C T hvs"
| more: "hvs_reachable C T hvs \<Longrightarrow> hvs_step C T hvs hvs' \<Longrightarrow> hvs_reachable C T hvs'"


section \<open>Invariants\<close>

definition rounds_ok :: "crypto_lib \<Rightarrow> time_encoder \<Rightarrow> HeightVoteSet \<Rightarrow> bool" where
  "rounds_ok C T hvs \<longleftrightarrow> wf_voters (hvs_voterSet hvs) \<and> hvs_height hvs \<noteq> 0
     \<and> (\<forall>r rvs. roundVoteSets hvs r = Some rvs \<longrightarrow>
          vote_set_for C T hvs r PrevoteType (Prevotes rvs) \<and> vote_set_for C T hvs r PrecommitType (Precommits rvs))"

lemma addRound_spec:
  assumes "rounds_ok C T hvs" and "roundVoteSets hvs r = None"
  shows "\<exists>rvs. addRound hvs r = Ret (hvs\<lparr>roundVoteSets := (roundVoteSets hvs)(r \<mapsto> rvs)\<rparr>)
    \<and> rounds_ok C T (hvs\<lparr>roundVoteSets := (roundVoteSets hvs)(r \<mapsto> rvs)\<rparr>)"
proof -
  have wv: "wf_voters (hvs_voterSet hvs)" and h: "hvs_height hvs \<noteq> 0" using assms(1) by (auto simp: rounds_ok_def)
  obtain a where a: "NewVoteSet (hvs_chainID hvs) (hvs_height hvs) r PrevoteType (hvs_voterSet hvs) = Ret a"
      "vset_voterSet a = hvs_voterSet hvs" "vset_chainID a = hvs_chainID hvs" "vset_height a = hvs_height hvs" "vset_round a = r"
      "vset_type a = PrevoteType"
    using NewVoteSet_wf [OF wv h] by blast
  obtain b where b: "NewVoteSet (hvs_chainID hvs) (hvs_height hvs) r PrecommitType (hvs_voterSet hvs) = Ret b"
      "vset_voterSet b = hvs_voterSet hvs" "vset_chainID b = hvs_chainID hvs" "vset_height b = hvs_height hvs" "vset_round b = r"
      "vset_type b = PrecommitType"
    using NewVoteSet_wf [OF wv h] by blast
  let ?rvs = "\<lparr>Prevotes = a, Precommits = b\<rparr>"
  have "rounds_ok C T (hvs\<lparr>roundVoteSets := (roundVoteSets hvs)(r \<mapsto> ?rvs)\<rparr>)"
    using assms(1) a b reachable.start [OF wv a(1)] reachable.start [OF wv b(1)]
    by (auto simp: rounds_ok_def vote_set_for_def)
  then show ?thesis using assms(2) a(1) b(1) by (auto simp: addRound_def)
qed

lemma add_rounds_spec:
  assumes "rounds_ok C T hvs"
  shows "\<exists>m. add_rounds hvs rs = Ret (hvs\<lparr>roundVoteSets := m\<rparr>) \<and> rounds_ok C T (hvs\<lparr>roundVoteSets := m\<rparr>)
    \<and> dom m = dom (roundVoteSets hvs) \<union> set rs \<and> roundVoteSets hvs \<subseteq>\<^sub>m m"
  using assms
proof (induction rs arbitrary: hvs)
  case Nil
  then show ?case by (intro exI [of _ "roundVoteSets hvs"]) simp
next
  case (Cons r rs)
  show ?case
  proof (cases "roundVoteSets hvs r")
    case None
    obtain rvs where one: "addRound hvs r = Ret (hvs\<lparr>roundVoteSets := (roundVoteSets hvs)(r \<mapsto> rvs)\<rparr>)"
        "rounds_ok C T (hvs\<lparr>roundVoteSets := (roundVoteSets hvs)(r \<mapsto> rvs)\<rparr>)"
      using addRound_spec [OF Cons.prems None] by blast
    let ?h = "hvs\<lparr>roundVoteSets := (roundVoteSets hvs)(r \<mapsto> rvs)\<rparr>"
    obtain m where m: "add_rounds ?h rs = Ret (?h\<lparr>roundVoteSets := m\<rparr>)" "rounds_ok C T (?h\<lparr>roundVoteSets := m\<rparr>)"
        "dom m = dom (roundVoteSets ?h) \<union> set rs" "roundVoteSets ?h \<subseteq>\<^sub>m m"
      using Cons.IH [OF one(2)] by blast
    have h: "roundVoteSets ?h = (roundVoteSets hvs)(r \<mapsto> rvs)" "?h\<lparr>roundVoteSets := m\<rparr> = hvs\<lparr>roundVoteSets := m\<rparr>" by simp_all
    have "roundVoteSets hvs \<subseteq>\<^sub>m (roundVoteSets hvs)(r \<mapsto> rvs)" using None by (auto simp: map_le_def)
    then have "roundVoteSets hvs \<subseteq>\<^sub>m m" using m(4) h(1) map_le_trans by metis
    moreover have "dom m = dom (roundVoteSets hvs) \<union> set (r # rs)" using m(3) unfolding h(1) by simp
    moreover have "add_rounds hvs (r # rs) = Ret (hvs\<lparr>roundVoteSets := m\<rparr>)" using m(1) one(1) None h(2) by simp
    ultimately show ?thesis using m(2) unfolding h(2) by blast
  next
    case (Some rvs)
    then have "insert r (dom (roundVoteSets hvs) \<union> set rs) = dom (roundVoteSets hvs) \<union> set rs" by auto
    then show ?thesis using Some Cons.IH [OF Cons.prems] by simp
  qed
qed

lemma getVoteSet_spec:
  assumes "rounds_ok C T hvs" and "IsVoteTypeValid ty"
  shows "\<exists>vs. getVoteSet hvs r ty = Ret vs \<and> (vs = None \<longleftrightarrow> roundVoteSets hvs r = None)
    \<and> (\<forall>v. vs = Some v \<longrightarrow> vote_set_for C T hvs r ty v)"
  using assms by (auto simp: getVoteSet_def rounds_ok_def IsVoteTypeValid_def split: option.splits)

lemma putVoteSet_spec:
  assumes "rounds_ok C T hvs" and "roundVoteSets hvs r \<noteq> None" and "IsVoteTypeValid ty" and "vote_set_for C T hvs r ty vs"
  shows "\<exists>rvs. putVoteSet hvs r ty vs = hvs\<lparr>roundVoteSets := (roundVoteSets hvs)(r \<mapsto> rvs)\<rparr>
    \<and> rounds_ok C T (hvs\<lparr>roundVoteSets := (roundVoteSets hvs)(r \<mapsto> rvs)\<rparr>)"
  using assms by (auto simp: putVoteSet_def rounds_ok_def IsVoteTypeValid_def vote_set_for_def PrevoteType_def PrecommitType_def
      split: option.splits)

lemma vote_set_for_step:
  "vote_set_for C T hvs r ty vs \<Longrightarrow> vote_step C T False vs vs' \<Longrightarrow> vote_set_for C T hvs r ty vs'"
  using reachable.next_step vote_step_keeps reachable_wf unfolding vote_set_for_def grows_def same_step_def by metis

lemma wf_hvs_rounds: "wf_hvs C T hvs \<longleftrightarrow> rounds_ok C T hvs \<and> 0 \<le> hvs_round hvs \<and> hvs_round hvs < MaxInt32
     \<and> {0..hvs_round hvs} \<subseteq> dom (roundVoteSets hvs) \<and> dom (roundVoteSets hvs) \<subseteq> {-1..hvs_round hvs} \<union> catchup hvs
     \<and> (\<forall>peer rs. peerCatchupRounds hvs peer = Some rs \<longrightarrow> length rs \<le> 2)
     \<and> finite (dom (peerCatchupRounds hvs))"
  by (auto simp: wf_hvs_def rounds_ok_def)

lemma wf_hvs_put:
  assumes "wf_hvs C T hvs" and "roundVoteSets hvs r \<noteq> None" and "IsVoteTypeValid ty" and "vote_set_for C T hvs r ty vs"
  shows "wf_hvs C T (putVoteSet hvs r ty vs)"
proof -
  obtain rvs where p: "putVoteSet hvs r ty vs = hvs\<lparr>roundVoteSets := (roundVoteSets hvs)(r \<mapsto> rvs)\<rparr>"
      "rounds_ok C T (hvs\<lparr>roundVoteSets := (roundVoteSets hvs)(r \<mapsto> rvs)\<rparr>)"
    using putVoteSet_spec [OF _ assms(2-4)] assms(1) by (auto simp: wf_hvs_rounds)
  have "dom ((roundVoteSets hvs)(r \<mapsto> rvs)) = dom (roundVoteSets hvs)" using assms(2) by auto
  then show ?thesis using p assms(1) by (simp add: wf_hvs_rounds catchup_def del: dom_fun_upd)
qed

lemma wf_hvs_catchup:
  assumes wf: "wf_hvs C T hvs" and new: "roundVoteSets hvs r = None" and rs: "rs = (case peerCatchupRounds hvs peer of None \<Rightarrow> [] | Some rs \<Rightarrow> rs)"
    and two: "length rs < 2"
  shows "\<exists>hvs1. addRound hvs r = Ret hvs1 \<and> wf_hvs C T (hvs1\<lparr>peerCatchupRounds := (peerCatchupRounds hvs1)(peer \<mapsto> rs @ [r])\<rparr>)
    \<and> roundVoteSets hvs1 r \<noteq> None"
proof -
  have ok: "rounds_ok C T hvs" using wf by (simp add: wf_hvs_rounds)
  obtain rvs where a: "addRound hvs r = Ret (hvs\<lparr>roundVoteSets := (roundVoteSets hvs)(r \<mapsto> rvs)\<rparr>)"
      "rounds_ok C T (hvs\<lparr>roundVoteSets := (roundVoteSets hvs)(r \<mapsto> rvs)\<rparr>)"
    using addRound_spec [OF ok new] by blast
  let ?h = "hvs\<lparr>roundVoteSets := (roundVoteSets hvs)(r \<mapsto> rvs), peerCatchupRounds := (peerCatchupRounds hvs)(peer \<mapsto> rs @ [r])\<rparr>"
  have cu: "x \<in> catchup ?h" if x: "x = r \<or> x \<in> catchup hvs" for x
  proof -
    obtain q qs where "x = r \<or> (peerCatchupRounds hvs q = Some qs \<and> x \<in> set qs)" using x by (auto simp: catchup_def)
    then show ?thesis using rs unfolding catchup_def
      by (cases "x = r"; cases "q = peer") (auto intro: exI [of _ peer] exI [of _ q])
  qed
  have "rounds_ok C T ?h" using a(2) by (simp add: rounds_ok_def vote_set_for_def)
  then have "wf_hvs C T ?h" using wf cu two unfolding wf_hvs_rounds by auto
  then show ?thesis using a(1) by simp
qed

lemma AddVote_keeps:
  assumes wf: "wf_hvs C T hvs" and res: "HeightVoteSet_AddVote C T hvs vo peer = Ret (hvs', added, err)" and pr: "proper_vote vo"
  shows "wf_hvs C T hvs'"
proof -
  obtain vote where vo: "vo = Some vote" using res by (cases vo) (auto simp: HeightVoteSet_AddVote_def)
  let ?r = "v_Round vote" and ?ty = "v_Type vote"
  let ?rs = "case peerCatchupRounds hvs peer of None \<Rightarrow> [] | Some rs \<Rightarrow> rs"
  show ?thesis
  proof (cases "IsVoteTypeValid ?ty")
    case False
    then show ?thesis using res wf vo by (simp add: HeightVoteSet_AddVote_def)
  next
    case ty: True
    have finish: "wf_hvs C T hvs'" if h: "wf_hvs C T h" "roundVoteSets h ?r \<noteq> None"
        and r: "do { voteSet \<leftarrow> getVoteSet h ?r ?ty; (vs, added, err) \<leftarrow> AddVote C T voteSet vo;
                  Ret (putVoteSet h ?r ?ty vs, added, map_option VoteError err) } = Ret (hvs', added, err)" for h
    proof -
      have ok: "rounds_ok C T h" using h(1) by (simp add: wf_hvs_rounds)
      obtain vs where vs: "getVoteSet h ?r ?ty = Ret (Some vs)" "vote_set_for C T h ?r ?ty vs"
        using getVoteSet_spec [OF ok ty] h(2) by (metis not_Some_eq)
      obtain vs' e where a: "AddVote C T (Some vs) vo = Ret (vs', added, e)" "hvs' = putVoteSet h ?r ?ty vs'"
        using r vs(1) by (auto split: bind_splits)
      show ?thesis unfolding a(2)
        using wf_hvs_put [OF h ty vote_set_for_step [OF vs(2) vote_step.add_vote [OF a(1) pr]]] .
    qed
    have ok: "rounds_ok C T hvs" using wf by (simp add: wf_hvs_rounds)
    obtain vs where vs: "getVoteSet hvs ?r ?ty = Ret vs" "vs = None \<longleftrightarrow> roundVoteSets hvs ?r = None"
      using getVoteSet_spec [OF ok ty] by blast
    show ?thesis
    proof (cases vs)
      case (Some v)
      then show ?thesis using finish [OF wf] vs res ty vo by (simp add: HeightVoteSet_AddVote_def Let_def)
    next
      case None
      show ?thesis
      proof (cases "length ?rs < 2")
        case False
        then show ?thesis using None vs(1) res wf vo ty by (simp add: HeightVoteSet_AddVote_def Let_def)
      next
        case True
        obtain h1 where h1: "addRound hvs ?r = Ret h1" "roundVoteSets h1 ?r \<noteq> None"
            "wf_hvs C T (h1\<lparr>peerCatchupRounds := (peerCatchupRounds h1)(peer \<mapsto> ?rs @ [?r])\<rparr>)"
          using wf_hvs_catchup [OF wf _ refl True] None vs(2) by blast
        show ?thesis by (rule finish [OF h1(3)]) (use h1 True None vs(1) res ty vo in \<open>simp_all add: HeightVoteSet_AddVote_def Let_def\<close>)
      qed
    qed
  qed
qed

lemma SetPeerMaj23_keeps:
  assumes wf: "wf_hvs C T hvs" and res: "HeightVoteSet_SetPeerMaj23 hvs r ty peer b = Ret (hvs', err)"
  shows "wf_hvs C T hvs'"
proof (cases "IsVoteTypeValid ty")
  case False
  then show ?thesis using wf res by (simp add: HeightVoteSet_SetPeerMaj23_def)
next
  case True
  have ok: "rounds_ok C T hvs" using wf by (simp add: wf_hvs_rounds)
  obtain vs where vs: "getVoteSet hvs r ty = Ret vs" "vs = None \<longleftrightarrow> roundVoteSets hvs r = None"
      "\<forall>v. vs = Some v \<longrightarrow> vote_set_for C T hvs r ty v"
    using getVoteSet_spec [OF ok True] by blast
  show ?thesis
  proof (cases vs)
    case None
    then show ?thesis using res True vs(1) wf by (simp add: HeightVoteSet_SetPeerMaj23_def)
  next
    case (Some v)
    obtain v' e where a: "SetPeerMaj23 (Some v) peer b = Ret (v', e)" "hvs' = putVoteSet hvs r ty v'"
      using res True vs(1) Some by (auto simp: HeightVoteSet_SetPeerMaj23_def split: bind_splits)
    have "vote_set_for C T hvs r ty v'" using vs(3) Some vote_set_for_step vote_step.peer_claim [OF a(1)] by blast
    then show ?thesis unfolding a(2) using wf_hvs_put [OF wf _ True] Some vs(2) by blast
  qed
qed

lemma SetRound_spec:
  assumes wf: "wf_hvs C T hvs" and "hvs_round hvs \<le> rnd" and "rnd < MaxInt32"
  shows "\<exists>hvs'. SetRound hvs rnd = Ret hvs' \<and> wf_hvs C T hvs' \<and> hvs_round hvs' = rnd \<and> roundVoteSets hvs \<subseteq>\<^sub>m roundVoteSets hvs'
    \<and> {hvs_round hvs - 1..rnd} \<subseteq> dom (roundVoteSets hvs')"
proof -
  have ok: "rounds_ok C T hvs" and r: "0 \<le> hvs_round hvs" "hvs_round hvs < MaxInt32" using wf by (auto simp: wf_hvs_rounds)
  have new: "SafeSubInt32 (hvs_round hvs) 1 = Ret (hvs_round hvs - 1)"
    using r by (simp add: SafeSubInt32_def int_limits wrap32_def)
  obtain m where m: "add_rounds hvs [hvs_round hvs - 1..rnd] = Ret (hvs\<lparr>roundVoteSets := m\<rparr>)"
      "rounds_ok C T (hvs\<lparr>roundVoteSets := m\<rparr>)" "dom m = dom (roundVoteSets hvs) \<union> {hvs_round hvs - 1..rnd}"
      "roundVoteSets hvs \<subseteq>\<^sub>m m"
    using add_rounds_spec [OF ok, of "[hvs_round hvs - 1..rnd]"] by auto
  let ?h = "hvs\<lparr>roundVoteSets := m, hvs_round := rnd\<rparr>"
  have "rounds_ok C T ?h" using m(2) by (simp add: rounds_ok_def vote_set_for_def)
  moreover have "{0..rnd} \<subseteq> dom m"
  proof
    fix x assume "x \<in> {0..rnd}"
    then have "x \<in> {0..hvs_round hvs} \<or> x \<in> {hvs_round hvs - 1..rnd}" by auto
    then show "x \<in> dom m" using m(3) wf by (auto simp: wf_hvs_rounds)
  qed
  moreover have "dom m \<subseteq> {-1..rnd} \<union> catchup ?h"
  proof -
    have "dom (roundVoteSets hvs) \<subseteq> {-1..hvs_round hvs} \<union> catchup ?h" using wf by (simp add: wf_hvs_rounds catchup_def)
    then show ?thesis using m(3) assms(2) r by fastforce
  qed
  ultimately have "wf_hvs C T ?h" using wf assms r by (auto simp: wf_hvs_rounds)
  then show ?thesis using m(1,3,4) new assms(2,3) by (simp add: SetRound_def)
qed

lemma NewHeightVoteSet_spec:
  assumes "wf_voters voters" and "NewHeightVoteSet chainID height voters = Ret hvs"
  shows "wf_hvs C T hvs"
proof -
  let ?h = "\<lparr>hvs_chainID = chainID, hvs_height = height, hvs_voterSet = voters, hvs_round = 0, roundVoteSets = Map.empty, peerCatchupRounds = Map.empty\<rparr>"
  have h0: "height \<noteq> 0" using assms(2) by (auto simp: NewHeightVoteSet_def Reset_def addRound_def NewVoteSet_def)
  then have ok: "rounds_ok C T ?h" using assms(1) by (simp add: rounds_ok_def)
  obtain rvs where a: "addRound ?h 0 = Ret (?h\<lparr>roundVoteSets := (roundVoteSets ?h)(0 \<mapsto> rvs)\<rparr>)"
      "rounds_ok C T (?h\<lparr>roundVoteSets := (roundVoteSets ?h)(0 \<mapsto> rvs)\<rparr>)"
    using addRound_spec [OF ok, of 0] by auto
  then have "hvs = ?h\<lparr>roundVoteSets := (roundVoteSets ?h)(0 \<mapsto> rvs)\<rparr>"
    using assms(2) by (simp add: NewHeightVoteSet_def Reset_def)
  then show ?thesis using a(2) by (simp add: wf_hvs_rounds int_limits)
qed

lemma hvs_step_keeps: "hvs_step C T hvs hvs' \<Longrightarrow> wf_hvs C T hvs \<Longrightarrow> wf_hvs C T hvs'"
proof (induction rule: hvs_step.induct)
  case (advance hvs rnd hvs')
  have "rnd \<noteq> MaxInt32" using advance(1) by (auto simp: SetRound_def split: bind_splits if_splits)
  then have "rnd < MaxInt32" using advance(2) by (simp add: in32_def)
  then show ?case using SetRound_spec [OF advance(4,3)] advance(1) by auto
qed (use AddVote_keeps SetPeerMaj23_keeps in blast)+

lemma hvs_reachable_wf: "hvs_reachable C T hvs \<Longrightarrow> wf_hvs C T hvs"
  by (induction rule: hvs_reachable.induct) (use NewHeightVoteSet_spec hvs_step_keeps in blast)+

lemma pol_loop_spec:
  assumes "rounds_ok C T hvs"
  shows "(pol_loop hvs rs = Ret (-1, zero_BlockID) \<and> (\<forall>r \<in> set rs. \<forall>rvs. roundVoteSets hvs r = Some rvs \<longrightarrow> maj23 (Prevotes rvs) = None))
    \<or> (\<exists>ps r b qs rvs. rs = ps @ r # qs \<and> pol_loop hvs rs = Ret (r, b) \<and> roundVoteSets hvs r = Some rvs \<and> maj23 (Prevotes rvs) = Some b
         \<and> (\<forall>p \<in> set ps. \<forall>rvs. roundVoteSets hvs p = Some rvs \<longrightarrow> maj23 (Prevotes rvs) = None))"
proof (induction rs)
  case (Cons r rs)
  show ?case
  proof (cases "\<exists>rvs b. roundVoteSets hvs r = Some rvs \<and> maj23 (Prevotes rvs) = Some b")
    case True
    then show ?thesis by (intro disjI2 exI [of _ "[]"]) (auto simp: getVoteSet_def TwoThirdsMajority_def)
  next
    case False
    then have "pol_loop hvs (r # rs) = pol_loop hvs rs" and no: "\<forall>rvs. roundVoteSets hvs r = Some rvs \<longrightarrow> maj23 (Prevotes rvs) = None"
      by (auto simp: getVoteSet_def TwoThirdsMajority_def split: option.splits)
    then show ?thesis using Cons.IH
    proof (elim disjE exE conjE)
      fix ps q b qs rvs assume "rs = ps @ q # qs" "pol_loop hvs rs = Ret (q, b)" "roundVoteSets hvs q = Some rvs" "maj23 (Prevotes rvs) = Some b"
        "\<forall>p \<in> set ps. \<forall>rvs. roundVoteSets hvs p = Some rvs \<longrightarrow> maj23 (Prevotes rvs) = None" "pol_loop hvs (r # rs) = pol_loop hvs rs"
      then show ?thesis using no by (intro disjI2 exI [of _ "r # ps"]) auto
    qed auto
  qed
qed simp


lemma catchup_bound:
  assumes "wf_hvs C T hvs"
  shows "card (dom (roundVoteSets hvs) - {-1..hvs_round hvs}) \<le> 2 * card (dom (peerCatchupRounds hvs))"
proof -
  let ?P = "dom (peerCatchupRounds hvs)" and ?R = "\<lambda>p. set (the (peerCatchupRounds hvs p))"
  have fin: "finite ?P" using assms by (simp add: wf_hvs_def)
  have "dom (roundVoteSets hvs) - {-1..hvs_round hvs} \<subseteq> (\<Union>p\<in>?P. ?R p)"
  proof
    fix x assume "x \<in> dom (roundVoteSets hvs) - {-1..hvs_round hvs}"
    then have "x \<in> catchup hvs" using assms unfolding wf_hvs_def by blast
    then show "x \<in> (\<Union>p\<in>?P. ?R p)" unfolding catchup_def by force
  qed
  then have "card (dom (roundVoteSets hvs) - {-1..hvs_round hvs}) \<le> card (\<Union>p\<in>?P. ?R p)"
    using fin by (intro card_mono) auto
  also have "\<dots> \<le> (\<Sum>p\<in>?P. card (?R p))" using fin by (rule card_UN_le)
  also have "\<dots> \<le> (\<Sum>p\<in>?P. 2)"
  proof (rule sum_mono)
    fix p assume "p \<in> ?P"
    then obtain rs where rs: "peerCatchupRounds hvs p = Some rs" by auto
    then have "length rs \<le> 2" using assms by (simp add: wf_hvs_def)
    then show "card (?R p) \<le> 2" using rs card_length [of rs] by simp
  qed
  finally show ?thesis by simp
qed

lemma POLInfo_spec:
  assumes wf: "wf_hvs C T hvs"
  shows "\<exists>r b. POLInfo hvs = Ret (r, b)
    \<and> (\<forall>q rvs. r < q \<longrightarrow> 0 \<le> q \<longrightarrow> q \<le> hvs_round hvs \<longrightarrow> roundVoteSets hvs q = Some rvs \<longrightarrow> maj23 (Prevotes rvs) = None)
    \<and> ((r = -1 \<and> b = zero_BlockID)
       \<or> (0 \<le> r \<and> r \<le> hvs_round hvs \<and> (\<exists>rvs. roundVoteSets hvs r = Some rvs \<and> maj23 (Prevotes rvs) = Some b)))"
proof -
  have ok: "rounds_ok C T hvs" using wf by (simp add: wf_hvs_rounds)
  show ?thesis using pol_loop_spec [OF ok, of "rev [0..hvs_round hvs]"]
  proof (elim disjE exE conjE)
    assume "pol_loop hvs (rev [0..hvs_round hvs]) = Ret (-1, zero_BlockID)"
      "\<forall>r \<in> set (rev [0..hvs_round hvs]). \<forall>rvs. roundVoteSets hvs r = Some rvs \<longrightarrow> maj23 (Prevotes rvs) = None"
    then show ?thesis by (simp add: POLInfo_def)
  next
    fix ps r b qs rvs
    assume a: "rev [0..hvs_round hvs] = ps @ r # qs" "pol_loop hvs (rev [0..hvs_round hvs]) = Ret (r, b)"
      "roundVoteSets hvs r = Some rvs" "maj23 (Prevotes rvs) = Some b"
      "\<forall>p \<in> set ps. \<forall>rvs. roundVoteSets hvs p = Some rvs \<longrightarrow> maj23 (Prevotes rvs) = None"
    have split: "[0..hvs_round hvs] = rev qs @ r # rev ps" using arg_cong [OF a(1), of rev] by simp
    have srt: "sorted (rev qs @ r # rev ps)" using sorted_upto [of 0 "hvs_round hvs"] split by simp
    have mem: "set ps \<union> {r} \<union> set qs = {0..hvs_round hvs}" using arg_cong [OF split, of set] by auto
    have "q \<in> set ps" if "r < q" "0 \<le> q" "q \<le> hvs_round hvs" for q
      using that mem srt by (force simp: sorted_append)
    moreover have "0 \<le> r \<and> r \<le> hvs_round hvs" using mem by auto
    ultimately show ?thesis using a by (auto simp: POLInfo_def)
  qed
qed

section \<open>Properties\<close>

text \<open>
  C20. The invariant of the votes of a height: after any sequence of received votes, peer claims and changes to the same or a
  later round, as the consensus state makes them, every round up to the current one has its two vote sets, each set belongs to the round it is stored under, to the
  height and to its voters and was reached by verified votes only, and peers can make the node track at most
  two further rounds each.
\<close>

theorem HeightVoteSet_invariant:
  assumes "hvs_reachable C T hvs"
  shows "wf_hvs C T hvs \<and> card (dom (roundVoteSets hvs) - {-1..hvs_round hvs}) \<le> 2 * card (dom (peerCatchupRounds hvs))"
  using hvs_reachable_wf [OF assms] catchup_bound by blast

definition ex_hvs :: HeightVoteSet where
  "ex_hvs = the (NewHeightVoteSet [] 7 ex_electorate)"

lemma ex_hvs_new: "NewHeightVoteSet [] 7 ex_electorate = Ret ex_hvs"
  by (simp add: ex_hvs_def NewHeightVoteSet_def Reset_def addRound_def NewVoteSet_def)

lemma ex_hvs_reachable: "hvs_reachable C T ex_hvs"
  by (rule hvs_reachable.init [OF ex_electorate_wf ex_hvs_new])

theorem HeightVoteSet_invariant_witness:
  "\<exists>hvs. SetRound ex_hvs 1 = Ret hvs \<and> wf_hvs live_crypto ex_time hvs \<and> roundVoteSets hvs (-1) \<noteq> None"
proof -
  have r: "hvs_round ex_hvs = 0" by (simp add: ex_hvs_def NewHeightVoteSet_def Reset_def addRound_def NewVoteSet_def)
  have wf: "wf_hvs live_crypto ex_time ex_hvs" by (rule hvs_reachable_wf [OF ex_hvs_reachable])
  obtain hvs where h: "SetRound ex_hvs 1 = Ret hvs" and d: "{-1..1} \<subseteq> dom (roundVoteSets hvs)"
    using SetRound_spec [OF wf, of 1] r by (auto simp: int_limits)
  have "hvs_step live_crypto ex_time ex_hvs hvs"
    by (rule hvs_step.advance [OF h]) (simp_all add: r in32_def int_limits)
  then have reach: "hvs_reachable live_crypto ex_time hvs" by (rule hvs_reachable.more [OF ex_hvs_reachable])
  have "roundVoteSets hvs (-1) \<noteq> None" using d by (auto simp: subset_iff dom_def)
  then show ?thesis using h HeightVoteSet_invariant [OF reach] by blast
qed

text \<open>The first voter's prevote of round 0 makes a proof of lock.\<close>

definition ex_prevote :: Vote where
  "ex_prevote = ex_ballot ex_block\<lparr>v_Round := 0, v_Type := PrevoteType\<rparr>"

definition ex_prevotes :: VoteSet where
  "ex_prevotes = ex_set\<lparr>vset_round := 0, vset_type := PrevoteType\<rparr>"

lemma ex_prevotes_new: "NewVoteSet [] 7 0 PrevoteType ex_electorate = Ret ex_prevotes"
  by (simp add: ex_prevotes_def ex_set_def NewVoteSet_def)

lemma ex_prevote_event:
  "event_ok live_crypto ex_time ex_prevotes {0} ex_block (Receive ex_prevote)"
  "valid_vote live_crypto ex_time ex_prevotes 0 ex_block ex_prevote"
proof -
  note ex = ex_ballot_step_exec [where b = ex_block and r = 0 and ty = PrevoteType, folded ex_prevote_def]
  have vs: "vset_voterSet ex_prevotes = ex_electorate" "vset_chainID ex_prevotes = []" by (simp_all add: ex_prevotes_def)
  have np: "exec_verify live_crypto ex_time ex_prevote [] (PubKey (Voters ex_electorate ! i)) \<noteq> Panic" if "i < 3" for i
    using that ex by (auto simp: ex_electorate_def less_Suc_eq numeral_3_eq_3)
  show "event_ok live_crypto ex_time ex_prevotes {0} ex_block (Receive ex_prevote)"
    using np ex_blocks [of ex_block] by (simp add: event_ok_def vs) (simp add: ex_prevote_def ex_ballot_def)
  have "exec_verify live_crypto ex_time ex_prevote [] (PubKey (ex_member 1 30)) = Ret None" using ex [of 1 30] by simp
  then have "signed_vote live_crypto ex_time ex_prevotes 0 ex_prevote"
    unfolding exec_verify_Ret signed_vote_def vs by (simp add: ex_electorate_def) (simp add: ex_prevotes_def ex_prevote_def ex_ballot_def ex_member_def)
  then show "valid_vote live_crypto ex_time ex_prevotes 0 ex_block ex_prevote"
    by (simp add: valid_vote_def vs) (simp add: ex_prevote_def ex_ballot_def)
qed

lemma ex_prevote_majority:
  obtains vs added err where "AddVote live_crypto ex_time (Some ex_prevotes) (Some ex_prevote) = Ret (vs, added, err)"
    and "maj23 vs = Some ex_block"
proof -
  have "loyal {0} ex_block ex_prevotes" by (auto simp: loyal_def stored_def ex_prevotes_def ex_set_def NewVoteSet_def occupied_def)
  from run_events_loyal [OF reachable.start [OF ex_electorate_wf ex_prevotes_new] this, of "[Receive ex_prevote]" live_crypto ex_time]
  obtain vs where vs: "run_events live_crypto ex_time ex_prevotes [Receive ex_prevote] = Ret vs" "reachable live_crypto ex_time False vs"
      "loyal {0} ex_block vs" "same_step ex_prevotes vs" "0 \<in> occupied (votes vs)"
    using ex_prevote_event ex_blocks [of ex_block] by auto
  then have "maj23 vs = Some ex_block"
    using loyal_quorum_wins [OF vs(2,3)] ex_quorum by (simp add: same_step_def ex_prevotes_def)
  then show thesis using that vs(1) by (auto split: bind_splits)
qed

lemma ex_polka:
  obtains hvs where "hvs_reachable live_crypto ex_time hvs" and "hvs_voterSet hvs = ex_electorate" and "POLInfo hvs = Ret (0, ex_block)"
proof -
  obtain vs added err where v: "AddVote live_crypto ex_time (Some ex_prevotes) (Some ex_prevote) = Ret (vs, added, err)" "maj23 vs = Some ex_block"
    using ex_prevote_majority .
  have h: "hvs_round ex_hvs = 0" "hvs_voterSet ex_hvs = ex_electorate"
    by (simp_all add: ex_hvs_def NewHeightVoteSet_def Reset_def addRound_def NewVoteSet_def)
  obtain pc where rvs: "roundVoteSets ex_hvs 0 = Some \<lparr>Prevotes = ex_prevotes, Precommits = pc\<rparr>"
    using ex_prevotes_new by (auto simp: ex_hvs_def NewHeightVoteSet_def Reset_def addRound_def NewVoteSet_def)
  let ?h = "putVoteSet ex_hvs 0 PrevoteType vs"
  have t: "v_Type ex_prevote = PrevoteType" "v_Round ex_prevote = 0" "IsVoteTypeValid PrevoteType"
    by (simp_all add: ex_prevote_def IsVoteTypeValid_def)
  have "HeightVoteSet_AddVote live_crypto ex_time ex_hvs (Some ex_prevote) ''peer'' = Ret (?h, added, map_option VoteError err)"
    using v(1) rvs by (simp add: HeightVoteSet_AddVote_def t getVoteSet_def Let_def)
  moreover have "proper_vote (Some ex_prevote)" using ex_blocks [of ex_block] by (simp add: proper_vote_def ex_prevote_def ex_ballot_def)
  ultimately have "hvs_reachable live_crypto ex_time ?h" by (rule hvs_reachable.more [OF ex_hvs_reachable hvs_step.receive])
  moreover have "POLInfo ?h = Ret (0, ex_block)" using rvs v(2) h by (simp add: POLInfo_def putVoteSet_def getVoteSet_def TwoThirdsMajority_def)
  moreover have "hvs_voterSet ?h = ex_electorate" using rvs h by (simp add: putVoteSet_def)
  ultimately show thesis using that by blast
qed

text \<open>
  C21. \<^verbatim>\<open>POLInfo\<close> returns the last proof of lock: the result is the latest round up to the current one whose prevotes report a
  majority, with the block they report, which voters with more than two thirds of the weight prevoted in that round with
  valid signatures; no later round up to the current one reports a majority. The round is \<open>-1\<close> exactly when no round up to
  the current one reports a majority, and the block is then empty.
\<close>

theorem POLInfo_latest:
  assumes "hvs_reachable C T hvs"
  shows "\<exists>r b. POLInfo hvs = Ret (r, b) \<and> r \<le> hvs_round hvs
    \<and> (\<forall>q. r < q \<longrightarrow> 0 \<le> q \<longrightarrow> q \<le> hvs_round hvs
         \<longrightarrow> (\<exists>vs. HeightVoteSet_Prevotes hvs q = Ret (Some vs) \<and> TwoThirdsMajority (Some vs) = (zero_BlockID, False)))
    \<and> (if r = -1 then b = zero_BlockID
       else 0 \<le> r \<and> (\<exists>vs A. HeightVoteSet_Prevotes hvs r = Ret (Some vs) \<and> TwoThirdsMajority (Some vs) = (b, True)
              \<and> vset_round vs = r \<and> vset_type vs = PrevoteType \<and> vset_voterSet vs = hvs_voterSet hvs
              \<and> vq.quorum (hvs_voterSet hvs) A \<and> (\<forall>i\<in>A. voted_for C T vs i b)))
    \<and> (r = -1 \<longleftrightarrow> (\<forall>q. 0 \<le> q \<and> q \<le> hvs_round hvs
         \<longrightarrow> (\<exists>vs. HeightVoteSet_Prevotes hvs q = Ret (Some vs) \<and> TwoThirdsMajority (Some vs) = (zero_BlockID, False))))"
proof -
  have wf: "wf_hvs C T hvs" by (rule hvs_reachable_wf [OF assms])
  obtain r b where p: "POLInfo hvs = Ret (r, b)"
      "\<forall>q rvs. r < q \<longrightarrow> 0 \<le> q \<longrightarrow> q \<le> hvs_round hvs \<longrightarrow> roundVoteSets hvs q = Some rvs \<longrightarrow> maj23 (Prevotes rvs) = None"
      "(r = -1 \<and> b = zero_BlockID)
       \<or> (0 \<le> r \<and> r \<le> hvs_round hvs \<and> (\<exists>rvs. roundVoteSets hvs r = Some rvs \<and> maj23 (Prevotes rvs) = Some b))"
    using POLInfo_spec [OF wf] by (elim exE conjE) (rule that)
  have later: "\<exists>vs. HeightVoteSet_Prevotes hvs q = Ret (Some vs) \<and> TwoThirdsMajority (Some vs) = (zero_BlockID, False)"
    if q: "r < q" "0 \<le> q" "q \<le> hvs_round hvs" for q
  proof -
    have "q \<in> dom (roundVoteSets hvs)" using wf q unfolding wf_hvs_def by auto
    then obtain rvs where "roundVoteSets hvs q = Some rvs" by blast
    then show ?thesis using p(2) q by (simp add: HeightVoteSet_Prevotes_def getVoteSet_def TwoThirdsMajority_def)
  qed
  have found: "\<exists>vs A. HeightVoteSet_Prevotes hvs r = Ret (Some vs) \<and> TwoThirdsMajority (Some vs) = (b, True)
      \<and> vset_round vs = r \<and> vset_type vs = PrevoteType \<and> vset_voterSet vs = hvs_voterSet hvs
      \<and> vq.quorum (hvs_voterSet hvs) A \<and> (\<forall>i\<in>A. voted_for C T vs i b)" if r: "r \<noteq> -1"
  proof -
    obtain rvs where rvs: "roundVoteSets hvs r = Some rvs" "maj23 (Prevotes rvs) = Some b" using p(3) r by blast
    have vs: "vote_set_for C T hvs r PrevoteType (Prevotes rvs)" using wf rvs(1) by (simp add: wf_hvs_def)
    then obtain A where "vq.quorum (hvs_voterSet hvs) A" "\<forall>i\<in>A. voted_for C T (Prevotes rvs) i b"
      using majority_votes [OF _ rvs(2)] unfolding vote_set_for_def by metis
    then show ?thesis using rvs vs by (auto simp: HeightVoteSet_Prevotes_def getVoteSet_def TwoThirdsMajority_def vote_set_for_def)
  qed
  have "r = -1" if none: "\<forall>q. 0 \<le> q \<and> q \<le> hvs_round hvs
      \<longrightarrow> (\<exists>vs. HeightVoteSet_Prevotes hvs q = Ret (Some vs) \<and> TwoThirdsMajority (Some vs) = (zero_BlockID, False))"
  proof (rule ccontr)
    assume "r \<noteq> -1"
    then show False using found none p(3) by fastforce
  qed
  moreover have "r \<le> hvs_round hvs" using p(3) wf by (auto simp: wf_hvs_def)
  ultimately show ?thesis using p(1,3) later found by (intro exI [of _ r] exI [of _ b]) auto
qed

theorem POLInfo_latest_witness:
  "\<exists>hvs vs A. POLInfo hvs = Ret (0, ex_block) \<and> HeightVoteSet_Prevotes hvs 0 = Ret (Some vs)
     \<and> TwoThirdsMajority (Some vs) = (ex_block, True) \<and> vq.quorum ex_electorate A \<and> (\<forall>i\<in>A. voted_for live_crypto ex_time vs i ex_block)"
proof -
  obtain hvs where h: "hvs_reachable live_crypto ex_time hvs" "hvs_voterSet hvs = ex_electorate" "POLInfo hvs = Ret (0, ex_block)"
    using ex_polka .
  show ?thesis using POLInfo_latest [OF h(1)] h(2,3) by auto
qed

end
