(* ===== verification/Canonical_Decode.thy ===== *)
theory Canonical_Decode
  imports Sign_Bytes
begin

unbundle bit_operations_syntax

text \<open>
  The generated decoders of the canonical messages (\<^verbatim>\<open>proto/ostracon/types/canonical.pb.go\<close>) and
  \<^verbatim>\<open>protoio.UnmarshalDelimited\<close>. A position \<^verbatim>\<open>iNdEx\<close> of the buffer is the rest of the buffer from
  there, with the length \<open>l\<close> of the whole buffer where the code computes with positions. A varint that is
  accumulated in a narrower type is the truncation of the 64-bit value.
\<close>

section \<open>Wire format\<close>

datatype decode_error =
    ErrIntOverflowCanonical | ErrUnexpectedEOF | ErrInvalidLengthCanonical | ErrUnexpectedEndOfGroupCanonical
  | EndGroup | IllegalTag int | WrongWireType nat | IllegalWireType nat | BadTime | MessageTooBig | LengthOutOfRange

type_synonym 'a dec = "decode_error + 'a"
type_synonym time_decoder = "bytes \<Rightarrow> Time option"

fun decode_varint :: "nat \<Rightarrow> uint64 \<Rightarrow> bytes \<Rightarrow> (uint64 \<times> bytes) dec" where
  "decode_varint shift acc [] = Inl (if 64 \<le> shift then ErrIntOverflowCanonical else ErrUnexpectedEOF)"
| "decode_varint shift acc (b # rest) =
     (if 64 \<le> shift then Inl ErrIntOverflowCanonical
      else
        let acc' = acc OR push_bit shift (ucast (b AND 0x7F)) in
        if b < 0x80 then Inr (acc', rest) else decode_varint (shift + 7) acc' rest)"

definition decode_fixed64 :: "bytes \<Rightarrow> (int64 \<times> bytes) dec" where
  "decode_fixed64 rest =
     (if length rest < 8 then Inl ErrUnexpectedEOF else Inr (sint (le_uint64 (take 8 rest)), drop 8 rest))"

definition decode_bytes :: "nat \<Rightarrow> bytes \<Rightarrow> (bytes \<times> bytes) dec" where
  "decode_bytes l rest = (case decode_varint 0 0 rest of
       Inl err \<Rightarrow> Inl err
     | Inr (w, rest) \<Rightarrow>
         let byteLen = sint w; postIndex = wrap64 (int l - int (length rest) + byteLen) in
         if byteLen < 0 then Inl ErrInvalidLengthCanonical
         else if postIndex < 0 then Inl ErrInvalidLengthCanonical
         else if postIndex > int l then Inl ErrUnexpectedEOF
         else Inr (take (nat byteLen) rest, drop (nat byteLen) rest))"

definition skip_field :: "nat \<Rightarrow> uint64 \<Rightarrow> nat \<Rightarrow> bytes \<Rightarrow> (nat \<times> int) dec" where
  "skip_field l wire depth rest =
     (let wireType = unat (wire AND 7); iNdEx = int l - int (length rest) in
      if wireType = 0 then
        (case decode_varint 0 0 rest of Inl err \<Rightarrow> Inl err | Inr (_, rest) \<Rightarrow> Inr (depth, int l - int (length rest)))
      else if wireType = 1 then Inr (depth, iNdEx + 8)
      else if wireType = 2 then
        (case decode_varint 0 0 rest of
           Inl err \<Rightarrow> Inl err
         | Inr (w, rest) \<Rightarrow>
             if sint w < 0 then Inl ErrInvalidLengthCanonical else Inr (depth, wrap64 (int l - int (length rest) + sint w)))
      else if wireType = 3 then Inr (Suc depth, iNdEx)
      else if wireType = 4 then (if depth = 0 then Inl ErrUnexpectedEndOfGroupCanonical else Inr (depth - 1, iNdEx))
      else if wireType = 5 then Inr (depth, iNdEx + 4)
      else Inl (IllegalWireType wireType))"

text \<open>Every iteration reads at least one byte, so the length of the buffer is enough fuel.\<close>

fun skip_loop :: "nat \<Rightarrow> bytes \<Rightarrow> nat \<Rightarrow> int \<Rightarrow> int dec" where
  "skip_loop 0 dAtA depth iNdEx = Inl ErrUnexpectedEOF"
| "skip_loop (Suc fuel) dAtA depth iNdEx =
     (if \<not> iNdEx < int (length dAtA) then Inl ErrUnexpectedEOF
      else (case decode_varint 0 0 (drop (nat iNdEx) dAtA) of
          Inl err \<Rightarrow> Inl err
        | Inr (wire, rest) \<Rightarrow>
            (case skip_field (length dAtA) wire depth rest of
               Inl err \<Rightarrow> Inl err
             | Inr (depth, iNdEx) \<Rightarrow>
                 if iNdEx < 0 then Inl ErrInvalidLengthCanonical
                 else if depth = 0 then Inr iNdEx
                 else skip_loop fuel dAtA depth iNdEx)))"

definition skipCanonical :: "bytes \<Rightarrow> int dec" where
  "skipCanonical dAtA = skip_loop (Suc (length dAtA)) dAtA 0 0"

text \<open>
  The loop every generated \<^verbatim>\<open>Unmarshal\<close> has. \<open>field\<close> is the switch over the field numbers: it gets the
  length of the buffer, the field number, the wire type, the message so far and the rest of the buffer;
  \<open>None\<close> is the default case, which skips the field.
\<close>

type_synonym 'm switch = "nat \<Rightarrow> int32 \<Rightarrow> nat \<Rightarrow> 'm \<Rightarrow> bytes \<Rightarrow> ('m \<times> bytes) dec option"

fun unmarshal_loop :: "nat \<Rightarrow> 'm switch \<Rightarrow> nat \<Rightarrow> 'm \<Rightarrow> bytes \<Rightarrow> 'm dec" where
  "unmarshal_loop 0 field l m rest = (if rest = [] then Inr m else Inl ErrUnexpectedEOF)"
| "unmarshal_loop (Suc fuel) field l m rest =
     (if rest = [] then Inr m
      else (case decode_varint 0 0 rest of
          Inl err \<Rightarrow> Inl err
        | Inr (wire, rest1) \<Rightarrow>
            let fieldNum = wrap32 (uint (drop_bit 3 wire)); wireType = unat (wire AND 7) in
            if wireType = 4 then Inl EndGroup
            else if fieldNum \<le> 0 then Inl (IllegalTag fieldNum)
            else (case field l fieldNum wireType m rest1 of
                Some (Inl err) \<Rightarrow> Inl err
              | Some (Inr (m', rest2)) \<Rightarrow> unmarshal_loop fuel field l m' rest2
              | None \<Rightarrow>
                  (case skipCanonical rest of
                     Inl err \<Rightarrow> Inl err
                   | Inr skippy \<Rightarrow>
                       let post = wrap64 (int l - int (length rest) + skippy) in
                       if skippy < 0 \<or> post < 0 then Inl ErrInvalidLengthCanonical
                       else if post > int l then Inl ErrUnexpectedEOF
                       else unmarshal_loop fuel field l m (drop (nat skippy) rest)))))"

definition unmarshal :: "'m switch \<Rightarrow> 'm \<Rightarrow> bytes \<Rightarrow> 'm dec" where
  "unmarshal field m dAtA = unmarshal_loop (length dAtA) field (length dAtA) m dAtA"

section \<open>The canonical messages\<close>

text \<open>A field of a given wire type whose value is stored by \<open>put\<close>.\<close>

definition typed :: "nat \<Rightarrow> nat \<Rightarrow> ('v \<times> bytes) dec \<Rightarrow> ('v \<Rightarrow> 'm dec) \<Rightarrow> ('m \<times> bytes) dec" where
  "typed expected wireType r put =
     (if wireType \<noteq> expected then Inl (WrongWireType wireType)
      else (case r of
          Inl err \<Rightarrow> Inl err
        | Inr (v, rest) \<Rightarrow> (case put v of Inl err \<Rightarrow> Inl err | Inr m \<Rightarrow> Inr (m, rest))))"

definition PartSetHeader_field :: "PartSetHeader switch" where
  "PartSetHeader_field l fieldNum wireType m rest =
     (if fieldNum = 1 then Some (typed 0 wireType (decode_varint 0 0 rest) (\<lambda>w. Inr (m\<lparr>psh_Total := ucast w\<rparr>)))
      else if fieldNum = 2 then Some (typed 2 wireType (decode_bytes l rest) (\<lambda>bz. Inr (m\<lparr>psh_Hash := bz\<rparr>)))
      else None)"

definition CanonicalPartSetHeader_Unmarshal :: "PartSetHeader \<Rightarrow> bytes \<Rightarrow> PartSetHeader dec" where
  "CanonicalPartSetHeader_Unmarshal m dAtA = unmarshal PartSetHeader_field m dAtA"

definition BlockID_field :: "BlockID switch" where
  "BlockID_field l fieldNum wireType m rest =
     (if fieldNum = 1 then Some (typed 2 wireType (decode_bytes l rest) (\<lambda>bz. Inr (m\<lparr>bid_Hash := bz\<rparr>)))
      else if fieldNum = 2 then
        Some (typed 2 wireType (decode_bytes l rest)
          (\<lambda>bz. map_sum id (\<lambda>h. m\<lparr>bid_PartSetHeader := h\<rparr>) (CanonicalPartSetHeader_Unmarshal (bid_PartSetHeader m) bz)))
      else None)"

definition CanonicalBlockID_Unmarshal :: "BlockID \<Rightarrow> bytes \<Rightarrow> BlockID dec" where
  "CanonicalBlockID_Unmarshal m dAtA = unmarshal BlockID_field m dAtA"

text \<open>A nested block identifier is created when it is nil and then decoded into.\<close>

definition decode_block :: "BlockID option \<Rightarrow> bytes \<Rightarrow> BlockID dec" where
  "decode_block b bz = CanonicalBlockID_Unmarshal (case b of None \<Rightarrow> zero_BlockID | Some x \<Rightarrow> x) bz"

definition decode_time :: "time_decoder \<Rightarrow> bytes \<Rightarrow> Time dec" where
  "decode_time D bz = (case D bz of None \<Rightarrow> Inl BadTime | Some t \<Rightarrow> Inr t)"

definition CanonicalVote_field :: "time_decoder \<Rightarrow> CanonicalVote switch" where
  "CanonicalVote_field D l fieldNum wireType m rest =
     (if fieldNum = 1 then Some (typed 0 wireType (decode_varint 0 0 rest) (\<lambda>w. Inr (m\<lparr>cv_Type := wrap32 (uint w)\<rparr>)))
      else if fieldNum = 2 then Some (typed 1 wireType (decode_fixed64 rest) (\<lambda>v. Inr (m\<lparr>cv_Height := v\<rparr>)))
      else if fieldNum = 3 then Some (typed 1 wireType (decode_fixed64 rest) (\<lambda>v. Inr (m\<lparr>cv_Round := v\<rparr>)))
      else if fieldNum = 4 then
        Some (typed 2 wireType (decode_bytes l rest) (\<lambda>bz. map_sum id (\<lambda>b. m\<lparr>cv_BlockID := Some b\<rparr>) (decode_block (cv_BlockID m) bz)))
      else if fieldNum = 5 then
        Some (typed 2 wireType (decode_bytes l rest) (\<lambda>bz. map_sum id (\<lambda>t. m\<lparr>cv_Timestamp := t\<rparr>) (decode_time D bz)))
      else if fieldNum = 6 then Some (typed 2 wireType (decode_bytes l rest) (\<lambda>bz. Inr (m\<lparr>cv_ChainID := bz\<rparr>)))
      else None)"

definition zero_CanonicalVote :: CanonicalVote where
  "zero_CanonicalVote = \<lparr>cv_Type = 0, cv_Height = 0, cv_Round = 0, cv_BlockID = None, cv_Timestamp = 0, cv_ChainID = []\<rparr>"

definition CanonicalVote_Unmarshal :: "time_decoder \<Rightarrow> CanonicalVote \<Rightarrow> bytes \<Rightarrow> CanonicalVote dec" where
  "CanonicalVote_Unmarshal D m dAtA = unmarshal (CanonicalVote_field D) m dAtA"

definition CanonicalProposal_field :: "time_decoder \<Rightarrow> CanonicalProposal switch" where
  "CanonicalProposal_field D l fieldNum wireType m rest =
     (if fieldNum = 1 then Some (typed 0 wireType (decode_varint 0 0 rest) (\<lambda>w. Inr (m\<lparr>cp_Type := wrap32 (uint w)\<rparr>)))
      else if fieldNum = 2 then Some (typed 1 wireType (decode_fixed64 rest) (\<lambda>v. Inr (m\<lparr>cp_Height := v\<rparr>)))
      else if fieldNum = 3 then Some (typed 1 wireType (decode_fixed64 rest) (\<lambda>v. Inr (m\<lparr>cp_Round := v\<rparr>)))
      else if fieldNum = 4 then Some (typed 0 wireType (decode_varint 0 0 rest) (\<lambda>w. Inr (m\<lparr>cp_POLRound := sint w\<rparr>)))
      else if fieldNum = 5 then
        Some (typed 2 wireType (decode_bytes l rest) (\<lambda>bz. map_sum id (\<lambda>b. m\<lparr>cp_BlockID := Some b\<rparr>) (decode_block (cp_BlockID m) bz)))
      else if fieldNum = 6 then
        Some (typed 2 wireType (decode_bytes l rest) (\<lambda>bz. map_sum id (\<lambda>t. m\<lparr>cp_Timestamp := t\<rparr>) (decode_time D bz)))
      else if fieldNum = 7 then Some (typed 2 wireType (decode_bytes l rest) (\<lambda>bz. Inr (m\<lparr>cp_ChainID := bz\<rparr>)))
      else None)"

definition zero_CanonicalProposal :: CanonicalProposal where
  "zero_CanonicalProposal = \<lparr>cp_Type = 0, cp_Height = 0, cp_Round = 0, cp_POLRound = 0, cp_BlockID = None, cp_Timestamp = 0, cp_ChainID = []\<rparr>"

definition CanonicalProposal_Unmarshal :: "time_decoder \<Rightarrow> CanonicalProposal \<Rightarrow> bytes \<Rightarrow> CanonicalProposal dec" where
  "CanonicalProposal_Unmarshal D m dAtA = unmarshal (CanonicalProposal_field D) m dAtA"

text \<open>\<^verbatim>\<open>binary.ReadUvarint\<close> reads at most ten bytes, the last of them at most 1.\<close>

fun ReadUvarint :: "nat \<Rightarrow> uint64 \<Rightarrow> bytes \<Rightarrow> (uint64 \<times> bytes) dec" where
  "ReadUvarint i x [] = Inl (if i \<ge> 10 then LengthOutOfRange else ErrUnexpectedEOF)"
| "ReadUvarint i x (b # rest) =
     (if i \<ge> 10 then Inl LengthOutOfRange
      else if b < 0x80 then
        (if i = 9 \<and> b > 1 then Inl LengthOutOfRange else Inr (x OR push_bit (7 * i) (ucast b), rest))
      else ReadUvarint (Suc i) (x OR push_bit (7 * i) (ucast (b AND 0x7F))) rest)"

text \<open>
  \<^verbatim>\<open>varintReader.ReadMsg\<close> on a buffer of bytes: the length, its checks, and exactly that many bytes, which are
  decoded into a reset message. What follows in the buffer is not read.
\<close>

definition ReadMsg :: "nat \<Rightarrow> (bytes \<Rightarrow> 'm dec) \<Rightarrow> bytes \<Rightarrow> 'm dec" where
  "ReadMsg maxSize decode data = (case ReadUvarint 0 0 data of
       Inl err \<Rightarrow> Inl err
     | Inr (l, rest) \<Rightarrow>
         let n = length data - length rest; len = sint l in
         if l \<ge> 0x7FFFFFFFFFFFFFFF \<or> len < 0 \<or> wrap64 (int n + len) < 0 then Inl LengthOutOfRange
         else if len > int maxSize then Inl MessageTooBig
         else if length rest < nat len then Inl ErrUnexpectedEOF
         else decode (take (nat len) rest))"

definition UnmarshalDelimited :: "(bytes \<Rightarrow> 'm dec) \<Rightarrow> bytes \<Rightarrow> 'm dec" where
  "UnmarshalDelimited decode data = ReadMsg (length data) decode data"

end
