(* ===== verification/Canonical_Roundtrip.thy ===== *)
theory Canonical_Roundtrip
  imports Canonical_Decode
begin

unbundle bit_operations_syntax

text \<open>
  Decoding inverts encoding: varints, fixed-width integers and length-delimited fields one by one, then the
  canonical messages field by field through the locale \<open>field_decoder\<close>, and the length prefix.
\<close>

section \<open>Varints\<close>

lemma low_bits: "(b :: byte) AND 0x7F = take_bit 7 b"
  by (simp add: take_bit_eq_mask mask_eq_exp_minus_1)

lemma varint_split:
  "(of_nat n :: uint64) = of_nat (n mod 128) OR push_bit 7 (of_nat (n div 128))"
proof -
  have "n = take_bit 7 n OR push_bit 7 (drop_bit 7 n)"
    by (rule bit_eqI, auto simp: bit_or_iff bit_take_bit_iff bit_push_bit_iff bit_drop_bit_eq)
      (metis le_add_diff_inverse not_le)
  then have "(of_nat n :: uint64) = of_nat (take_bit 7 n) OR push_bit 7 (of_nat (drop_bit 7 n))"
    by (metis of_nat_or_eq of_nat_push_bit)
  then show ?thesis by (simp add: take_bit_eq_mod drop_bit_eq_div)
qed

lemma byte_value: "a < 256 \<Longrightarrow> unat (word_of_nat a :: byte) = a"
  by (simp add: unsigned_of_nat take_bit_nat_def)

lemma high_byte_value: "unat (word_of_nat (n mod 128) + 128 :: byte) = n mod 128 + 128"
proof -
  have "word_of_nat (n mod 128) + 128 = (word_of_nat (n mod 128 + 128) :: byte)" by simp
  then show ?thesis using byte_value [of "n mod 128 + 128"] by simp
qed

lemma low_byte:
  "n < 128 \<Longrightarrow> (ucast ((word_of_nat n :: byte) AND 0x7F) :: uint64) = of_nat n"
  "(ucast (word_of_nat (n mod 128) + 128 AND 0x7F :: byte) :: uint64) = of_nat (n mod 128)"
proof -
  have u: "(ucast (take_bit 7 b) :: uint64) = of_nat (unat b mod 128)" for b :: byte
  proof -
    have "unat (take_bit 7 b) = unat b mod 128" by (subst unsigned_take_bit_eq) (simp add: take_bit_eq_mod)
    then show ?thesis by (metis of_nat_unat)
  qed
  show "n < 128 \<Longrightarrow> (ucast ((word_of_nat n :: byte) AND 0x7F) :: uint64) = of_nat n"
    unfolding low_bits u by (simp add: byte_value)
  show "(ucast (word_of_nat (n mod 128) + 128 AND 0x7F :: byte) :: uint64) = of_nat (n mod 128)"
    unfolding low_bits u high_byte_value by simp
qed

lemma byte_small: "n < 128 \<Longrightarrow> (word_of_nat n :: byte) < 0x80" "\<not> (word_of_nat (n mod 128) + 128 :: byte) < 0x80"
  by (simp_all add: word_less_nat_alt byte_value high_byte_value)

lemma decode_uvarint:
  assumes "n * 2 ^ shift < 2 ^ 64" and "shift < 64"
  shows "decode_varint shift acc (uvarint n @ rest) = Inr (acc OR push_bit shift (of_nat n), rest)"
  using assms
proof (induction n arbitrary: shift acc rule: uvarint.induct)
  case (1 n)
  show ?case
  proof (cases "n < 128")
    case True
    then show ?thesis using 1(3) by (simp add: uvarint.simps [of n] low_byte byte_small)
  next
    case False
    have "(2::nat) ^ (shift + 7) \<le> n * 2 ^ shift" using False by (simp add: power_add)
    then have "(2::nat) ^ (shift + 7) < 2 ^ 64" using 1(2) by linarith
    then have s: "shift + 7 < 64" using power_less_imp_less_exp by (metis one_less_numeral_iff semiring_norm(76))
    have "n div 128 * 2 ^ (shift + 7) = n div 128 * 128 * 2 ^ shift" by (simp add: power_add)
    also have "\<dots> \<le> n * 2 ^ shift" by (rule mult_le_mono1) simp
    finally have d: "n div 128 * 2 ^ (shift + 7) < 2 ^ 64" using 1(2) by linarith
    have "push_bit shift (of_nat n :: uint64) = push_bit shift (of_nat (n mod 128)) OR push_bit (shift + 7) (of_nat (n div 128))"
      by (subst varint_split [of n]) (simp add: push_bit_or push_bit_push_bit add.commute)
    then show ?thesis using 1(1) [OF False d s] False 1(3)
      by (simp add: uvarint.simps [of n] low_byte byte_small or.assoc Let_def)
  qed
qed

lemma decode_uvarint_0: "n < 2 ^ 64 \<Longrightarrow> decode_varint 0 0 (uvarint n @ rest) = Inr (of_nat n, rest)"
  using decode_uvarint [of n 0 0 rest] by simp


lemma decode_tag: "t < 0x80 \<Longrightarrow> decode_varint 0 0 (t # rest) = Inr (ucast t, rest)"
proof -
  assume t: "t < 0x80"
  then have "unat t < 128" by (simp add: word_less_nat_alt)
  then have "unat (take_bit 7 t) = unat t" by (subst unsigned_take_bit_eq) (simp add: take_bit_nat_eq_self)
  then have "t AND 0x7F = t" unfolding low_bits by (simp add: word_unat_eq_iff)
  then show ?thesis using t by simp
qed

lemma ReadUvarint_decode:
  assumes "n * 2 ^ (7 * i) < 2 ^ 64" and "i < 10"
  shows "ReadUvarint i x (uvarint n @ rest) = Inr (x OR push_bit (7 * i) (of_nat n), rest)"
  using assms
proof (induction n arbitrary: i x rule: uvarint.induct)
  case (1 n)
  show ?case
  proof (cases "n < 128")
    case True
    have nine: "\<not> (i = 9 \<and> (word_of_nat n :: byte) > 1)"
    proof
      assume a: "i = 9 \<and> (word_of_nat n :: byte) > 1"
      then have "1 < n" using True by (simp add: word_less_nat_alt byte_value)
      moreover have "n * 2 ^ 63 < 2 ^ 64" using a 1(2) by simp
      ultimately show False by simp
    qed
    have "(ucast (word_of_nat n :: byte) :: uint64) = of_nat n" using True byte_value [of n] of_nat_unat [of "word_of_nat n :: byte", where ?'a = uint64] by simp
    then show ?thesis using True nine 1(3) by (simp add: uvarint.simps [of n] byte_small)
  next
    case False
    let ?s = "7 * i"
    have "(2::nat) ^ (?s + 7) \<le> n * 2 ^ ?s" using False by (simp add: power_add)
    then have "(2::nat) ^ (?s + 7) < 2 ^ 64" using 1(2) by linarith
    then have "?s + 7 < 64" using power_less_imp_less_exp by (metis one_less_numeral_iff semiring_norm(76))
    then have s: "Suc i < 10" "7 * Suc i = ?s + 7" by simp_all
    have "n div 128 * 2 ^ (?s + 7) = n div 128 * 128 * 2 ^ ?s" by (simp add: power_add)
    also have "\<dots> \<le> n * 2 ^ ?s" by (rule mult_le_mono1) simp
    finally have d: "n div 128 * 2 ^ (7 * Suc i) < 2 ^ 64" using 1(2) unfolding s(2) by linarith
    have "push_bit ?s (of_nat n :: uint64) = push_bit ?s (of_nat (n mod 128)) OR push_bit (7 + ?s) (of_nat (n div 128))"
      by (subst varint_split [of n]) (simp add: push_bit_or push_bit_push_bit add.commute)
    then show ?thesis using 1(1) [OF False d s(1)] False 1(3) s(2)
      by (simp add: uvarint.simps [of n] low_byte byte_small or.assoc)
  qed
qed

lemma uvarint_length: "n < 128 ^ k \<Longrightarrow> 0 < k \<Longrightarrow> length (uvarint n) \<le> k"
proof (induction n arbitrary: k rule: uvarint.induct)
  case (1 n)
  show ?case
  proof (cases "n < 128")
    case False
    then obtain j where k: "k = Suc j" "0 < j" using 1(2,3) by (cases k; cases "k - 1") auto
    have "n div 128 < 128 ^ j" using 1(2) k by (simp add: less_mult_imp_div_less mult.commute)
    then show ?thesis using 1(1) [OF False _ k(2)] False k by (simp add: uvarint.simps [of n])
  qed (use 1(3) in \<open>simp add: uvarint.simps [of n]\<close>)
qed

lemma UnmarshalDelimited_MarshalDelimited:
  assumes "int (length bz) < MaxInt64 - 10"
  shows "UnmarshalDelimited decode (MarshalDelimited bz) = decode bz"
proof -
  let ?u = "uvarint (length bz)"
  have b: "length bz < 2 ^ 64" using assms by (simp add: int_limits)
  have r: "ReadUvarint 0 0 (?u @ bz) = Inr (of_nat (length bz), bz)"
    using ReadUvarint_decode [of "length bz" 0 0 bz] b by simp
  have s: "sint (of_nat (length bz) :: uint64) = int (length bz)"
    using assms by (simp add: signed_of_nat signed_take_bit_int_eq_self int_limits)
  have l: "\<not> (of_nat (length bz) :: uint64) \<ge> 0x7FFFFFFFFFFFFFFF"
    using assms b by (simp add: word_le_nat_alt unsigned_of_nat take_bit_nat_eq_self int_limits)
  have u: "length ?u \<le> 10" by (rule uvarint_length) (use b in simp_all)
  have w: "\<not> wrap64 (int (length ?u) + int (length bz)) < 0"
    using assms u by (subst wrap64_id) (auto simp: in64_def int_limits)
  show ?thesis using r s l u w by (simp add: UnmarshalDelimited_def ReadMsg_def MarshalDelimited_def Let_def)
qed

lemma decode_bytes_field:
  assumes "length (uvarint (length bz) @ bz @ rest) \<le> l" and "int l \<le> MaxInt64"
  shows "decode_bytes l (uvarint (length bz) @ bz @ rest) = Inr (bz, rest)"
proof -
  have n: "length bz < 2 ^ 63" "length bz < 2 ^ 64" using assms by (simp_all add: int_limits)
  have s: "sint (of_nat (length bz) :: uint64) = int (length bz)"
    using n by (simp add: signed_of_nat signed_take_bit_int_eq_self)
  have "wrap64 (int l - int (length (bz @ rest)) + int (length bz)) = int l - int (length rest)"
    using assms by (subst wrap64_id) (auto simp: in64_def int_limits)
  then show ?thesis using decode_uvarint_0 [OF n(2), of "bz @ rest"] s assms(1) by (simp add: decode_bytes_def Let_def)
qed

lemma decode_fixed64_field: "in64 v \<Longrightarrow> decode_fixed64 (le_bytes64 (word_of_int v) @ rest) = Inr (v, rest)"
  by (simp add: decode_fixed64_def le_uint64_bytes signed_of_int signed_take_bit_int_eq_self in64_def int_limits)


section \<open>Messages\<close>

text \<open>
  The interface of a generated message: its switch never gives back more bytes than it got. The fields of an
  encoded message are then decoded one after the other.
\<close>

locale field_decoder =
  fixes field :: "'m switch"
  assumes consumes: "field l f w m rest = Some (Inr (m', rest')) \<Longrightarrow> length rest' \<le> length rest"
begin

definition decodes :: "nat \<Rightarrow> 'm \<Rightarrow> bytes \<Rightarrow> 'm \<Rightarrow> bool" where
  "decodes l m rest m' \<longleftrightarrow> (\<forall>fuel. length rest \<le> fuel \<longrightarrow> unmarshal_loop fuel field l m rest = Inr m')"

lemma decodes_done: "decodes l m [] m"
  unfolding decodes_def
proof (intro allI impI)
  fix fuel show "unmarshal_loop fuel field l m [] = Inr m" by (cases fuel) simp_all
qed

lemma decodes_field:
  assumes d: "decodes l m1 R1 m'" and t: "t < 0x80" "unat t mod 8 \<noteq> 4" "8 \<le> unat t"
    and f: "field l (int (unat t div 8)) (unat t mod 8) m R = Some (Inr (m1, R1))"
  shows "decodes l m (t # R) m'"
  unfolding decodes_def
proof (intro allI impI)
  fix fuel assume "length (t # R) \<le> fuel"
  then obtain g where g: "fuel = Suc g" "length R1 \<le> g" using consumes [OF f] by (cases fuel) auto
  have tb: "unat t < 128" using t(1) by (simp add: word_less_nat_alt)
  have "unat (drop_bit 3 (ucast t :: uint64)) = unat t div 8"
    using tb by (subst unsigned_drop_bit_eq) (simp add: drop_bit_eq_div unsigned_ucast_eq take_bit_nat_eq_self)
  then have fn: "wrap32 (uint (drop_bit 3 (ucast t :: uint64))) = int (unat t div 8)"
    using tb by (simp only: uint_nat) (simp add: wrap32_id in32_def int_limits)
  have "(ucast t :: uint64) AND 7 = take_bit 3 (ucast t)" by (simp add: take_bit_eq_mask mask_eq_exp_minus_1)
  then have wt: "unat ((ucast t :: uint64) AND 7) = unat t mod 8"
    using tb by (simp only:) (subst unsigned_take_bit_eq, simp add: take_bit_eq_mod unsigned_ucast_eq take_bit_nat_eq_self)
  show "unmarshal_loop fuel field l m (t # R) = Inr m'"
    using g d t f by (simp add: decode_tag fn wt decodes_def Let_def del: decode_varint.simps)
qed

lemma decodes_varint:
  assumes "decodes l m1 R m'" and "n = 0 \<Longrightarrow> m1 = m" and "n < 2 ^ 64" and "t < 0x80" "unat t mod 8 = 0" "8 \<le> unat t"
    and "field l (int (unat t div 8)) 0 m (uvarint n @ R) = Some (Inr (m1, R))"
  shows "decodes l m (varint_field t n @ R) m'"
  using assms decodes_field [of l m1 R m' t m "uvarint n @ R"] by (auto simp: varint_field_def)

lemma decodes_fixed64:
  assumes "decodes l m1 R m'" and "n = 0 \<Longrightarrow> m1 = m" and "t < 0x80" "unat t mod 8 = 1" "8 \<le> unat t"
    and "field l (int (unat t div 8)) 1 m (le_bytes64 (word_of_int n) @ R) = Some (Inr (m1, R))"
  shows "decodes l m (fixed64_field t n @ R) m'"
  using assms decodes_field [of l m1 R m' t m "le_bytes64 (word_of_int n) @ R"] by (auto simp: fixed64_field_def)

lemma decodes_message:
  assumes "decodes l m1 R m'" and "t < 0x80" "unat t mod 8 = 2" "8 \<le> unat t"
    and "field l (int (unat t div 8)) 2 m (uvarint (length bz) @ bz @ R) = Some (Inr (m1, R))"
  shows "decodes l m (message_field t bz @ R) m'"
  using assms decodes_field [of l m1 R m' t m "uvarint (length bz) @ bz @ R"] by (auto simp: message_field_def)

lemma decodes_bytes:
  assumes "decodes l m1 R m'" and "bz = [] \<Longrightarrow> m1 = m" and "t < 0x80" "unat t mod 8 = 2" "8 \<le> unat t"
    and "bz \<noteq> [] \<Longrightarrow> field l (int (unat t div 8)) 2 m (uvarint (length bz) @ bz @ R) = Some (Inr (m1, R))"
  shows "decodes l m (bytes_field t bz @ R) m'"
  using assms decodes_message [of l m1 R m' t m bz] by (auto simp: bytes_field_def)

lemma decodes_block:
  assumes "decodes l m1 R m'" and "b = None \<Longrightarrow> m1 = m" and "t < 0x80" "unat t mod 8 = 2" "8 \<le> unat t"
    and "\<And>c. b = Some c \<Longrightarrow> field l (int (unat t div 8)) 2 m
      (uvarint (length (CanonicalBlockID_Marshal c)) @ CanonicalBlockID_Marshal c @ R) = Some (Inr (m1, R))"
  shows "decodes l m (block_field t b @ R) m'"
  using assms decodes_message [of l m1 R m' t m] by (auto simp: block_field_def split: option.splits)

lemma unmarshal_decodes: "decodes (length bz) m bz m' \<Longrightarrow> unmarshal field m bz = Inr m'"
  by (simp add: unmarshal_def decodes_def)

end

lemma decode_varint_consumes: "decode_varint s a rest = Inr (w, rest') \<Longrightarrow> length rest' \<le> length rest"
  by (induction s a rest rule: decode_varint.induct) (auto simp: Let_def split: if_splits)

lemma typed_consumes:
  assumes "typed e w r put = Inr (m, rest')" and "\<And>v rest'. r = Inr (v, rest') \<Longrightarrow> length rest' \<le> n"
  shows "length rest' \<le> n"
  using assms by (auto simp: typed_def split: if_splits sum.splits prod.splits)

lemma decode_fixed64_consumes: "decode_fixed64 rest = Inr (v, rest') \<Longrightarrow> length rest' \<le> length rest"
  by (auto simp: decode_fixed64_def split: if_splits)

lemma decode_bytes_consumes: "decode_bytes l rest = Inr (v, rest') \<Longrightarrow> length rest' \<le> length rest"
  by (auto simp: decode_bytes_def Let_def split: if_splits sum.splits prod.splits dest!: decode_varint_consumes)

lemmas consume_rules = typed_consumes [OF _ decode_varint_consumes] typed_consumes [OF _ decode_fixed64_consumes]
  typed_consumes [OF _ decode_bytes_consumes]

interpretation psh: field_decoder PartSetHeader_field
  by unfold_locales (auto simp: PartSetHeader_field_def split: if_splits intro: consume_rules)

interpretation bid: field_decoder BlockID_field
  by unfold_locales (auto simp: BlockID_field_def split: if_splits intro: consume_rules)

interpretation cvote: field_decoder "CanonicalVote_field D"
  by unfold_locales (auto simp: CanonicalVote_field_def split: if_splits intro: consume_rules)

interpretation cprop: field_decoder "CanonicalProposal_field D"
  by unfold_locales (auto simp: CanonicalProposal_field_def split: if_splits intro: consume_rules)


lemma ucast_widen [simp]: "(ucast (ucast (w :: uint32) :: uint64) :: uint32) = w"
  by (rule bit_word_eqI) (simp add: bit_ucast_iff)

lemma PartSetHeader_decodes:
  assumes "length (PartSetHeader_Marshal p) \<le> l" and "int l \<le> MaxInt64"
  shows "psh.decodes l zero_PartSetHeader (PartSetHeader_Marshal p) p"
proof -
  let ?m1 = "zero_PartSetHeader\<lparr>psh_Total := psh_Total p\<rparr>"
  have tot: "unat (psh_Total p) < 2 ^ 64" using unsigned_less [of "psh_Total p", where ?'a = nat] by simp
  have h: "psh.decodes l ?m1 (bytes_field 0x12 (psh_Hash p) @ []) p"
    by (rule psh.decodes_bytes [OF psh.decodes_done])
      (use assms in \<open>auto simp: PartSetHeader_field_def typed_def zero_PartSetHeader_def
        decode_bytes_field [where rest = "[]", simplified] PartSetHeader_Marshal_def bytes_field_def message_field_def\<close>)
  show ?thesis unfolding PartSetHeader_Marshal_def
    by (rule psh.decodes_varint [OF h [simplified] _ tot])
      (auto simp: PartSetHeader_field_def typed_def decode_uvarint_0 [OF tot] zero_PartSetHeader_def unat_eq_zero)
qed

lemma PartSetHeader_roundtrip:
  "int (length (PartSetHeader_Marshal p)) \<le> MaxInt64 \<Longrightarrow> CanonicalPartSetHeader_Unmarshal zero_PartSetHeader (PartSetHeader_Marshal p) = Inr p"
  unfolding CanonicalPartSetHeader_Unmarshal_def by (intro psh.unmarshal_decodes PartSetHeader_decodes) simp_all


lemma BlockID_decodes:
  assumes l: "length (CanonicalBlockID_Marshal b) \<le> l" "int l \<le> MaxInt64"
  shows "bid.decodes l zero_BlockID (CanonicalBlockID_Marshal b) b"
proof -
  let ?p = "PartSetHeader_Marshal (bid_PartSetHeader b)" and ?m1 = "zero_BlockID\<lparr>bid_Hash := bid_Hash b\<rparr>"
  have n: "length (uvarint (length ?p) @ ?p @ []) \<le> l" "int (length ?p) \<le> MaxInt64"
    "bid_Hash b \<noteq> [] \<Longrightarrow> length (uvarint (length (bid_Hash b)) @ bid_Hash b @ message_field 0x12 ?p) \<le> l"
    using l by (auto simp: CanonicalBlockID_Marshal_def message_field_def bytes_field_def)
  have p: "bid.decodes l ?m1 (message_field 0x12 ?p @ []) b"
    by (rule bid.decodes_message [OF bid.decodes_done])
      (use n(2) in \<open>auto simp: BlockID_field_def typed_def zero_BlockID_def decode_bytes_field [OF n(1) l(2), simplified]
        PartSetHeader_roundtrip\<close>)
  show ?thesis unfolding CanonicalBlockID_Marshal_def
    by (rule bid.decodes_bytes [OF p [simplified]])
      (auto simp: BlockID_field_def typed_def zero_BlockID_def decode_bytes_field [OF n(3) l(2)])
qed

lemma BlockID_roundtrip:
  "int (length (CanonicalBlockID_Marshal b)) \<le> MaxInt64 \<Longrightarrow> decode_block None (CanonicalBlockID_Marshal b) = Inr b"
  unfolding decode_block_def CanonicalBlockID_Unmarshal_def by (simp, intro bid.unmarshal_decodes BlockID_decodes) simp_all

definition time_codec :: "time_encoder \<Rightarrow> time_decoder \<Rightarrow> bool" where
  "time_codec T D \<longleftrightarrow> (\<forall>t bz. T t = Some bz \<longrightarrow> D bz = Some t)"

lemma decode_int: "decode_varint 0 0 (uvarint (uint64_of n) @ rest) = Inr (word_of_int n, rest)"
  using decode_uvarint_0 [of "uint64_of n" rest] unat_uint64 [of "word_of_int n"] by (simp add: uint64_of_def)

lemma uint64_of_bound: "uint64_of n < 2 ^ 64"
  using unat_uint64 [of "word_of_int n"] by (simp add: uint64_of_def)

lemma uint64_of_zero: "in64 n \<Longrightarrow> uint64_of n = 0 \<longleftrightarrow> n = 0"
  using uint64_of_inj [of n 0] by (auto simp: uint64_of_def in64_def int_limits)

lemma wrap32_word: "in32 n \<Longrightarrow> wrap32 (uint (word_of_int n :: uint64)) = n"
proof -
  assume n: "in32 n"
  have "(n mod 2 ^ 64 + 2147483648) mod 4294967296 = (n + 2147483648) mod 4294967296"
    by (subst mod_add_left_eq [symmetric]) (simp add: mod_mod_cancel mod_add_left_eq)
  then show ?thesis using wrap32_id [OF n] by (simp add: wrap32_def uint_word_of_int)
qed

lemma sint_word: "in64 n \<Longrightarrow> sint (word_of_int n :: uint64) = n"
  by (simp add: signed_of_int signed_take_bit_int_eq_self in64_def int_limits)

lemma CanonicalVote_roundtrip:
  assumes T: "CanonicalVote_Marshal T v = Some bz" "time_codec T D" and l: "int (length bz) \<le> MaxInt64"
    and r: "in32 (cv_Type v)" "in64 (cv_Height v)" "in64 (cv_Round v)"
  shows "CanonicalVote_Unmarshal D zero_CanonicalVote bz = Inr v"
proof -
  let ?l = "length bz"
  obtain ts where ts: "T (cv_Timestamp v) = Some ts" "D ts = Some (cv_Timestamp v)"
    and bz: "bz = varint_field 0x8 (uint64_of (cv_Type v)) @ fixed64_field 0x11 (cv_Height v)
      @ fixed64_field 0x19 (cv_Round v) @ block_field 0x22 (cv_BlockID v) @ message_field 0x2a ts
      @ bytes_field 0x32 (cv_ChainID v)"
    using T by (auto simp: CanonicalVote_Marshal_def time_codec_def block_field_def split: bind_splits)
  define m1 where "m1 = zero_CanonicalVote\<lparr>cv_Type := cv_Type v\<rparr>"
  define m2 where "m2 = m1\<lparr>cv_Height := cv_Height v\<rparr>"
  define m3 where "m3 = m2\<lparr>cv_Round := cv_Round v\<rparr>"
  define m4 where "m4 = m3\<lparr>cv_BlockID := cv_BlockID v\<rparr>"
  define m5 where "m5 = m4\<lparr>cv_Timestamp := cv_Timestamp v\<rparr>"
  note m = m1_def m2_def m3_def m4_def m5_def zero_CanonicalVote_def
  have h: "cvote.decodes D ?l m5 (bytes_field 0x32 (cv_ChainID v) @ []) v"
    by (rule cvote.decodes_bytes [OF cvote.decodes_done])
      (use l in \<open>auto simp: m CanonicalVote_field_def typed_def decode_bytes_field [where rest = "[]", simplified]
        bz bytes_field_def message_field_def\<close>)
  from h [simplified] have "cvote.decodes D ?l m4 (message_field 0x2a ts @ bytes_field 0x32 (cv_ChainID v)) v"
    by (rule cvote.decodes_message)
      (use l ts in \<open>auto simp: m5_def CanonicalVote_field_def typed_def decode_bytes_field decode_time_def
        bz bytes_field_def message_field_def\<close>)
  then have "cvote.decodes D ?l m3 (block_field 0x22 (cv_BlockID v) @ message_field 0x2a ts @ bytes_field 0x32 (cv_ChainID v)) v"
    by (rule cvote.decodes_block)
      (use l in \<open>auto simp: m CanonicalVote_field_def typed_def decode_bytes_field BlockID_roundtrip
        bz block_field_def bytes_field_def message_field_def\<close>)
  then have "cvote.decodes D ?l m2 (fixed64_field 0x19 (cv_Round v) @ block_field 0x22 (cv_BlockID v) @ message_field 0x2a ts
      @ bytes_field 0x32 (cv_ChainID v)) v"
    by (rule cvote.decodes_fixed64) (use r in \<open>auto simp: m CanonicalVote_field_def typed_def decode_fixed64_field\<close>)
  then have "cvote.decodes D ?l m1 (fixed64_field 0x11 (cv_Height v) @ fixed64_field 0x19 (cv_Round v)
      @ block_field 0x22 (cv_BlockID v) @ message_field 0x2a ts @ bytes_field 0x32 (cv_ChainID v)) v"
    by (rule cvote.decodes_fixed64) (use r in \<open>auto simp: m CanonicalVote_field_def typed_def decode_fixed64_field\<close>)
  then have "cvote.decodes D ?l zero_CanonicalVote bz v" unfolding bz
    by (rule cvote.decodes_varint)
      (use r uint64_of_bound in \<open>auto simp: m CanonicalVote_field_def typed_def decode_int wrap32_word uint64_of_zero in32_in64\<close>)
  then show ?thesis unfolding CanonicalVote_Unmarshal_def by (rule cvote.unmarshal_decodes)
qed


lemma CanonicalProposal_roundtrip:
  assumes T: "CanonicalProposal_Marshal T p = Some bz" "time_codec T D" and l: "int (length bz) \<le> MaxInt64"
    and r: "in32 (cp_Type p)" "in64 (cp_Height p)" "in64 (cp_Round p)" "in64 (cp_POLRound p)"
  shows "CanonicalProposal_Unmarshal D zero_CanonicalProposal bz = Inr p"
proof -
  let ?l = "length bz"
  obtain ts where ts: "T (cp_Timestamp p) = Some ts" "D ts = Some (cp_Timestamp p)"
    and bz: "bz = varint_field 0x8 (uint64_of (cp_Type p)) @ fixed64_field 0x11 (cp_Height p)
      @ fixed64_field 0x19 (cp_Round p) @ varint_field 0x20 (uint64_of (cp_POLRound p))
      @ block_field 0x2a (cp_BlockID p) @ message_field 0x32 ts @ bytes_field 0x3a (cp_ChainID p)"
    using T by (auto simp: CanonicalProposal_Marshal_def time_codec_def block_field_def split: bind_splits)
  define m1 where "m1 = zero_CanonicalProposal\<lparr>cp_Type := cp_Type p\<rparr>"
  define m2 where "m2 = m1\<lparr>cp_Height := cp_Height p\<rparr>"
  define m3 where "m3 = m2\<lparr>cp_Round := cp_Round p\<rparr>"
  define m4 where "m4 = m3\<lparr>cp_POLRound := cp_POLRound p\<rparr>"
  define m5 where "m5 = m4\<lparr>cp_BlockID := cp_BlockID p\<rparr>"
  define m6 where "m6 = m5\<lparr>cp_Timestamp := cp_Timestamp p\<rparr>"
  let ?R7 = "bytes_field 0x3a (cp_ChainID p)" and ?R6 = "message_field 0x32 ts" and ?R5 = "block_field 0x2a (cp_BlockID p)"
    and ?R4 = "varint_field 0x20 (uint64_of (cp_POLRound p))" and ?R3 = "fixed64_field 0x19 (cp_Round p)"
  note m = m1_def m2_def m3_def m4_def m5_def m6_def zero_CanonicalProposal_def
  note step = CanonicalProposal_field_def typed_def
  have h: "cprop.decodes D ?l m6 (?R7 @ []) p"
    by (rule cprop.decodes_bytes [OF cprop.decodes_done])
      (use l in \<open>auto simp: m step decode_bytes_field [where rest = "[]", simplified] bz bytes_field_def message_field_def\<close>)
  from h [simplified] have "cprop.decodes D ?l m5 (?R6 @ ?R7) p"
    by (rule cprop.decodes_message)
      (use l ts in \<open>auto simp: m6_def step decode_bytes_field decode_time_def bz bytes_field_def message_field_def\<close>)
  then have "cprop.decodes D ?l m4 (?R5 @ ?R6 @ ?R7) p"
    by (rule cprop.decodes_block)
      (use l in \<open>auto simp: m step decode_bytes_field BlockID_roundtrip bz block_field_def bytes_field_def message_field_def\<close>)
  then have "cprop.decodes D ?l m3 (?R4 @ ?R5 @ ?R6 @ ?R7) p"
    by (rule cprop.decodes_varint)
      (use r uint64_of_bound in \<open>auto simp: m step decode_int sint_word uint64_of_zero\<close>)
  then have "cprop.decodes D ?l m2 (?R3 @ ?R4 @ ?R5 @ ?R6 @ ?R7) p"
    by (rule cprop.decodes_fixed64) (use r in \<open>auto simp: m step decode_fixed64_field\<close>)
  then have "cprop.decodes D ?l m1 (fixed64_field 0x11 (cp_Height p) @ ?R3 @ ?R4 @ ?R5 @ ?R6 @ ?R7) p"
    by (rule cprop.decodes_fixed64) (use r in \<open>auto simp: m step decode_fixed64_field\<close>)
  then have "cprop.decodes D ?l zero_CanonicalProposal bz p" unfolding bz
    by (rule cprop.decodes_varint)
      (use r uint64_of_bound in \<open>auto simp: m step decode_int wrap32_word uint64_of_zero in32_in64\<close>)
  then show ?thesis unfolding CanonicalProposal_Unmarshal_def by (rule cprop.unmarshal_decodes)
qed


section \<open>Sign bytes\<close>

text \<open>A buffer of this length leaves room for its length prefix in an \<^verbatim>\<open>int\<close>.\<close>

definition fits :: "bytes \<Rightarrow> bool" where
  "fits bz \<longleftrightarrow> int (length bz) < MaxInt64 - 10"

definition DecodeVote :: "time_decoder \<Rightarrow> bytes \<Rightarrow> CanonicalVote dec" where
  "DecodeVote D bz = UnmarshalDelimited (CanonicalVote_Unmarshal D zero_CanonicalVote) bz"

definition DecodeProposal :: "time_decoder \<Rightarrow> bytes \<Rightarrow> CanonicalProposal dec" where
  "DecodeProposal D bz = UnmarshalDelimited (CanonicalProposal_Unmarshal D zero_CanonicalProposal) bz"

definition proposal_in_range :: "Proposal \<Rightarrow> bool" where
  "proposal_in_range p \<longleftrightarrow> in64 (p_Height p) \<and> in32 (p_Round p) \<and> in32 (p_POLRound p)"

lemma fits_delimited: "fits (MarshalDelimited m) \<Longrightarrow> fits m"
  by (simp add: fits_def MarshalDelimited_def)

lemma DecodeVote_sign:
  assumes "time_codec T D" and "CanonicalVote_Marshal T c = Some m" and "fits (MarshalDelimited m)"
    and "in32 (cv_Type c)" "in64 (cv_Height c)" "in64 (cv_Round c)"
  shows "DecodeVote D (MarshalDelimited m) = Inr c"
  using assms CanonicalVote_roundtrip [of T c m D] fits_delimited [of m]
  by (simp add: DecodeVote_def UnmarshalDelimited_MarshalDelimited fits_def)

lemma DecodeProposal_sign:
  assumes "time_codec T D" and "CanonicalProposal_Marshal T c = Some m" and "fits (MarshalDelimited m)"
    and "in32 (cp_Type c)" "in64 (cp_Height c)" "in64 (cp_Round c)" "in64 (cp_POLRound c)"
  shows "DecodeProposal D (MarshalDelimited m) = Inr c"
  using assms CanonicalProposal_roundtrip [of T c m D] fits_delimited [of m]
  by (simp add: DecodeProposal_def UnmarshalDelimited_MarshalDelimited fits_def)

lemma VoteSignBytes_decodes:
  assumes "time_codec T D" and "VoteSignBytes T ch v = Ret bz" and "vote_in_range v" and "fits bz"
  shows "\<exists>c. CanonicalizeVote ch v = Ret c \<and> DecodeVote D bz = Inr c"
proof -
  obtain c m where c: "CanonicalizeVote ch v = Ret c" "CanonicalVote_Marshal T c = Some m" "bz = MarshalDelimited m"
    using assms(2) by (auto simp: VoteSignBytes_def split: bind_splits)
  then have "cv_Type c = v_Type v" "cv_Height c = v_Height v" "cv_Round c = v_Round v"
    by (auto simp: CanonicalizeVote_def split: bind_splits)
  then show ?thesis using DecodeVote_sign [OF assms(1) c(2)] assms(3,4) c by (simp add: vote_in_range_def in32_in64)
qed

lemma ProposalSignBytes_decodes:
  assumes "time_codec T D" and "ProposalSignBytes T ch p = Ret bz" and "proposal_in_range p" and "fits bz"
  shows "\<exists>c. CanonicalizeProposal ch p = Ret c \<and> DecodeProposal D bz = Inr c"
proof -
  obtain c m where c: "CanonicalizeProposal ch p = Ret c" "CanonicalProposal_Marshal T c = Some m" "bz = MarshalDelimited m"
    using assms(2) by (auto simp: ProposalSignBytes_def split: bind_splits)
  then have "cp_Type c = ProposalType" "cp_Height c = p_Height p" "cp_Round c = p_Round p" "cp_POLRound c = p_POLRound p"
    by (auto simp: CanonicalizeProposal_def split: bind_splits)
  moreover have "in32 ProposalType" by (simp add: ProposalType_def in32_def int_limits)
  ultimately show ?thesis using DecodeProposal_sign [OF assms(1) c(2)] assms(3,4) c by (simp add: proposal_in_range_def in32_in64)
qed

definition ex_untime :: time_decoder where
  "ex_untime bz = (case bz of [b] \<Rightarrow> Some (uint b) | _ \<Rightarrow> None)"

lemma ex_time_codec: "time_codec ex_time ex_untime"
  by (auto simp: time_codec_def ex_time_def ex_untime_def uint_word_of_int_eq take_bit_int_eq_self_iff split: if_splits)

lemma ex_vote_at:
  assumes "0 \<le> t" and "t < 256"
  shows "\<exists>bz. VoteSignBytes ex_time [99] (ex_vote\<lparr>v_Timestamp := t\<rparr>) = Ret bz \<and> fits bz"
  using assms
  by (simp add: VoteSignBytes_def CanonicalizeVote_def CanonicalVote_Marshal_def ex_time_def ex_vote_def
      CanonicalizeBlockID_def BlockIDFromProto_valid BlockID_ValidateBasic_def PartSetHeader_ValidateBasic_def
      ValidateHash_def zero_BlockID_def zero_PartSetHeader_def BlockID_IsZero_def PartSetHeader_IsZero_def
      fits_def MarshalDelimited_def varint_field_def fixed64_field_def message_field_def bytes_field_def
      uint64_of_def PrecommitType_def uvarint.simps int_limits)

lemma ex_vote_same: "ex_vote\<lparr>v_Timestamp := 9\<rparr> = ex_vote"
  by (simp add: ex_vote_def)

lemma ex_vote_in_range: "vote_in_range (ex_vote\<lparr>v_Timestamp := t\<rparr>)"
  by (simp add: vote_in_range_def ex_vote_def PrecommitType_def in32_def in64_def int_limits)

text \<open>
  C27. Sign bytes are readable: the bytes signed for a vote or for a proposal within the integer ranges decode, with
  the length prefix and the generated decoders, to exactly the canonical message they were made from, provided the
  decoder of times inverts its encoder and the bytes are short enough for a Go slice.
\<close>

theorem SignBytes_inverse:
  assumes "time_codec T D" and "fits bz"
  shows "(VoteSignBytes T ch v = Ret bz \<longrightarrow> vote_in_range v \<longrightarrow> (\<exists>c. CanonicalizeVote ch v = Ret c \<and>
      UnmarshalDelimited (CanonicalVote_Unmarshal D zero_CanonicalVote) bz = Inr c))
    \<and> (ProposalSignBytes T ch p = Ret bz \<longrightarrow> proposal_in_range p \<longrightarrow> (\<exists>c. CanonicalizeProposal ch p = Ret c \<and>
      UnmarshalDelimited (CanonicalProposal_Unmarshal D zero_CanonicalProposal) bz = Inr c))"
  using VoteSignBytes_decodes [OF assms(1)] ProposalSignBytes_decodes [OF assms(1)] assms(2)
  by (simp add: DecodeVote_def DecodeProposal_def)

theorem SignBytes_inverse_witness:
  "\<exists>bz c. VoteSignBytes ex_time [99] ex_vote = Ret bz \<and> CanonicalizeVote [99] ex_vote = Ret c
     \<and> UnmarshalDelimited (CanonicalVote_Unmarshal ex_untime zero_CanonicalVote) bz = Inr c"
proof -
  obtain bz where bz: "VoteSignBytes ex_time [99] ex_vote = Ret bz" "fits bz"
    using ex_vote_at [of 9] by (auto simp: ex_vote_same)
  then show ?thesis
    using SignBytes_inverse [OF ex_time_codec, of bz "[99]" ex_vote] ex_vote_in_range [of 9] by (auto simp: ex_vote_same)
qed

end
