(* ===== verification/Priv_Validator.thy ===== *)
theory Priv_Validator
  imports Canonical_Roundtrip
begin

text \<open>
  The file private validator (\<^verbatim>\<open>privval/file.go\<close>): it signs votes and proposals and keeps on disk the last
  height, round and step it signed, so that a crash never makes it sign two different messages for one step.
  The files are a map from paths to contents. The libraries it calls are the fields of \<open>pv_lib\<close>: signing, the JSON
  codec, the protobuf comparison and the codec of times. A call of \<^verbatim>\<open>tmos.Exit\<close> ends the process like a panic.
\<close>

section \<open>Keys and the last signed state\<close>

type_synonym PrivKey = bytes
type_synonym path = string
type_synonym files = "path \<rightharpoonup> bytes"

definition stepNone :: int8 where "stepNone = 0"
definition stepPropose :: int8 where "stepPropose = 1"
definition stepPrevote :: int8 where "stepPrevote = 2"
definition stepPrecommit :: int8 where "stepPrecommit = 3"

definition voteToStep :: "Vote \<Rightarrow> int8 go" where
  "voteToStep vote =
     (if v_Type vote = PrevoteType then Ret stepPrevote
      else if v_Type vote = PrecommitType then Ret stepPrecommit
      else Panic)"

record FilePVKey =
  pk_Address :: bytes
  pk_PubKey :: PubKey
  pk_PrivKey :: PrivKey
  pk_filePath :: path

record FilePVLastSignState =
  ls_Height :: int64
  ls_Round :: int32
  ls_Step :: int8
  ls_Signature :: "bytes option"
  ls_SignBytes :: "bytes option"
  ls_filePath :: path

record FilePV =
  pv_Key :: FilePVKey
  pv_LastSignState :: FilePVLastSignState

record pv_lib =
  pl_crypto :: crypto_lib
  pl_PubKey :: "PrivKey \<Rightarrow> PubKey"
  pl_Sign :: "PrivKey \<Rightarrow> bytes \<Rightarrow> bytes option"
  pl_keyJSON :: "FilePVKey \<Rightarrow> bytes option"
  pl_keyUnJSON :: "bytes \<Rightarrow> FilePVKey option"
  pl_stateJSON :: "FilePVLastSignState \<Rightarrow> bytes option"
  pl_stateUnJSON :: "bytes \<Rightarrow> FilePVLastSignState option"
  pl_stdTime :: time_encoder
  pl_stdTimeDecode :: time_decoder
  pl_Now :: Time
  pl_voteEqual :: "CanonicalVote \<Rightarrow> CanonicalVote \<Rightarrow> bool"
  pl_proposalEqual :: "CanonicalProposal \<Rightarrow> CanonicalProposal \<Rightarrow> bool"

definition FilePVKey_Save :: "pv_lib \<Rightarrow> FilePVKey \<Rightarrow> files \<Rightarrow> files go" where
  "FilePVKey_Save L pvKey fs =
     (if pk_filePath pvKey = [] then Panic
      else do { jsonBytes \<leftarrow> pl_keyJSON L pvKey; Ret (fs(pk_filePath pvKey \<mapsto> jsonBytes)) })"

datatype sign_error = HeightRegression | RoundRegression | StepRegression | NoSignBytes | ConflictingData | SignFailed

definition CheckHRS :: "FilePVLastSignState \<Rightarrow> int64 \<Rightarrow> int32 \<Rightarrow> int8 \<Rightarrow> (sign_error + bool) go" where
  "CheckHRS lss height rnd step =
     (if ls_Height lss > height then Ret (Inl HeightRegression)
      else if ls_Height lss = height then
        if ls_Round lss > rnd then Ret (Inl RoundRegression)
        else if ls_Round lss = rnd then
          if ls_Step lss > step then Ret (Inl StepRegression)
          else if ls_Step lss = step then
            if ls_SignBytes lss \<noteq> None then
              if ls_Signature lss = None then Panic else Ret (Inr True)
            else Ret (Inl NoSignBytes)
          else Ret (Inr False)
        else Ret (Inr False)
      else Ret (Inr False))"

definition LastSignState_Save :: "pv_lib \<Rightarrow> FilePVLastSignState \<Rightarrow> files \<Rightarrow> files go" where
  "LastSignState_Save L lss fs =
     (if ls_filePath lss = [] then Panic
      else do { jsonBytes \<leftarrow> pl_stateJSON L lss; Ret (fs(ls_filePath lss \<mapsto> jsonBytes)) })"

section \<open>Construction and files\<close>

definition NewFilePV :: "pv_lib \<Rightarrow> PrivKey \<Rightarrow> path \<Rightarrow> path \<Rightarrow> FilePV go" where
  "NewFilePV L privKey keyFilePath stateFilePath =
     do {
       addr \<leftarrow> PubKey_Address (pl_crypto L) (pl_PubKey L privKey);
       Ret \<lparr>pv_Key = \<lparr>pk_Address = addr, pk_PubKey = pl_PubKey L privKey, pk_PrivKey = privKey, pk_filePath = keyFilePath\<rparr>,
            pv_LastSignState = \<lparr>ls_Height = 0, ls_Round = 0, ls_Step = stepNone, ls_Signature = None, ls_SignBytes = None,
              ls_filePath = stateFilePath\<rparr>\<rparr>
     }"

definition FilePV_Save :: "pv_lib \<Rightarrow> FilePV \<Rightarrow> files \<Rightarrow> files go" where
  "FilePV_Save L pv fs = do { fs \<leftarrow> FilePVKey_Save L (pv_Key pv) fs; LastSignState_Save L (pv_LastSignState pv) fs }"

definition FilePV_Reset :: "pv_lib \<Rightarrow> FilePV \<Rightarrow> files \<Rightarrow> (FilePV \<times> files) go" where
  "FilePV_Reset L pv fs =
     (let pv = pv\<lparr>pv_LastSignState := (pv_LastSignState pv)\<lparr>ls_Height := 0, ls_Round := 0, ls_Step := 0,
          ls_Signature := None, ls_SignBytes := None\<rparr>\<rparr> in
      do { fs \<leftarrow> FilePV_Save L pv fs; Ret (pv, fs) })"

definition empty_LastSignState :: FilePVLastSignState where
  "empty_LastSignState = \<lparr>ls_Height = 0, ls_Round = 0, ls_Step = 0, ls_Signature = None, ls_SignBytes = None, ls_filePath = []\<rparr>"

definition loadFilePV :: "pv_lib \<Rightarrow> files \<Rightarrow> path \<Rightarrow> path \<Rightarrow> bool \<Rightarrow> FilePV go" where
  "loadFilePV L fs keyFilePath stateFilePath loadState =
     do {
       keyJSONBytes \<leftarrow> fs keyFilePath;
       pvKey \<leftarrow> pl_keyUnJSON L keyJSONBytes;
       let pubKey = pl_PubKey L (pk_PrivKey pvKey);
       addr \<leftarrow> PubKey_Address (pl_crypto L) pubKey;
       let pvKey = pvKey\<lparr>pk_PubKey := pubKey, pk_Address := addr, pk_filePath := keyFilePath\<rparr>;
       pvState \<leftarrow> (if loadState then do { stateJSONBytes \<leftarrow> fs stateFilePath; pl_stateUnJSON L stateJSONBytes }
                   else Ret empty_LastSignState);
       Ret \<lparr>pv_Key = pvKey, pv_LastSignState = pvState\<lparr>ls_filePath := stateFilePath\<rparr>\<rparr>
     }"

definition LoadFilePV :: "pv_lib \<Rightarrow> files \<Rightarrow> path \<Rightarrow> path \<Rightarrow> FilePV go" where
  "LoadFilePV L fs keyFilePath stateFilePath = loadFilePV L fs keyFilePath stateFilePath True"

definition LoadFilePVEmptyState :: "pv_lib \<Rightarrow> files \<Rightarrow> path \<Rightarrow> path \<Rightarrow> FilePV go" where
  "LoadFilePVEmptyState L fs keyFilePath stateFilePath = loadFilePV L fs keyFilePath stateFilePath False"

section \<open>Signing\<close>

definition saveSigned :: "pv_lib \<Rightarrow> FilePV \<Rightarrow> files \<Rightarrow> int64 \<Rightarrow> int32 \<Rightarrow> int8 \<Rightarrow> bytes \<Rightarrow> bytes \<Rightarrow> (FilePV \<times> files) go" where
  "saveSigned L pv fs height rnd step signBytes sig =
     (let lss = (pv_LastSignState pv)\<lparr>ls_Height := height, ls_Round := rnd, ls_Step := step,
          ls_Signature := Some sig, ls_SignBytes := Some signBytes\<rparr> in
      do { fs \<leftarrow> LastSignState_Save L lss fs; Ret (pv\<lparr>pv_LastSignState := lss\<rparr>, fs) })"

definition checkVotesOnlyDifferByTimestamp :: "pv_lib \<Rightarrow> bytes \<Rightarrow> bytes \<Rightarrow> (Time \<times> bool) go" where
  "checkVotesOnlyDifferByTimestamp L lastSignBytes newSignBytes =
     (case UnmarshalDelimited (CanonicalVote_Unmarshal (pl_stdTimeDecode L) zero_CanonicalVote) lastSignBytes of
        Inl err \<Rightarrow> Panic
      | Inr lastVote \<Rightarrow>
          (case UnmarshalDelimited (CanonicalVote_Unmarshal (pl_stdTimeDecode L) zero_CanonicalVote) newSignBytes of
             Inl err \<Rightarrow> Panic
           | Inr newVote \<Rightarrow>
               Ret (cv_Timestamp lastVote,
                    pl_voteEqual L (newVote\<lparr>cv_Timestamp := pl_Now L\<rparr>) (lastVote\<lparr>cv_Timestamp := pl_Now L\<rparr>))))"

definition checkProposalsOnlyDifferByTimestamp :: "pv_lib \<Rightarrow> bytes \<Rightarrow> bytes \<Rightarrow> (Time \<times> bool) go" where
  "checkProposalsOnlyDifferByTimestamp L lastSignBytes newSignBytes =
     (case UnmarshalDelimited (CanonicalProposal_Unmarshal (pl_stdTimeDecode L) zero_CanonicalProposal) lastSignBytes of
        Inl err \<Rightarrow> Panic
      | Inr lastProposal \<Rightarrow>
          (case UnmarshalDelimited (CanonicalProposal_Unmarshal (pl_stdTimeDecode L) zero_CanonicalProposal) newSignBytes of
             Inl err \<Rightarrow> Panic
           | Inr newProposal \<Rightarrow>
               Ret (cp_Timestamp lastProposal,
                    pl_proposalEqual L (newProposal\<lparr>cp_Timestamp := pl_Now L\<rparr>) (lastProposal\<lparr>cp_Timestamp := pl_Now L\<rparr>))))"

definition signVote :: "pv_lib \<Rightarrow> FilePV \<Rightarrow> files \<Rightarrow> bytes \<Rightarrow> Vote \<Rightarrow> (sign_error option \<times> FilePV \<times> files \<times> Vote) go" where
  "signVote L pv fs chainID vote =
     do {
       step \<leftarrow> voteToStep vote;
       let lss = pv_LastSignState pv;
       hrs \<leftarrow> CheckHRS lss (v_Height vote) (v_Round vote) step;
       case hrs of
         Inl err \<Rightarrow> Ret (Some err, pv, fs, vote)
       | Inr sameHRS \<Rightarrow>
           do {
             signBytes \<leftarrow> VoteSignBytes (pl_stdTime L) chainID vote;
             if sameHRS then
               if signBytes = sig_bytes (ls_SignBytes lss)
               then Ret (None, pv, fs, vote\<lparr>v_Signature := ls_Signature lss\<rparr>)
               else do {
                 (timestamp, ok) \<leftarrow> checkVotesOnlyDifferByTimestamp L (sig_bytes (ls_SignBytes lss)) signBytes;
                 if ok then Ret (None, pv, fs, vote\<lparr>v_Timestamp := timestamp, v_Signature := ls_Signature lss\<rparr>)
                 else Ret (Some ConflictingData, pv, fs, vote)
               }
             else (case pl_Sign L (pk_PrivKey (pv_Key pv)) signBytes of
                 None \<Rightarrow> Ret (Some SignFailed, pv, fs, vote)
               | Some sig \<Rightarrow>
                   do {
                     (pv, fs) \<leftarrow> saveSigned L pv fs (v_Height vote) (v_Round vote) step signBytes sig;
                     Ret (None, pv, fs, vote\<lparr>v_Signature := Some sig\<rparr>)
                   })
           }
     }"

definition signProposal ::
  "pv_lib \<Rightarrow> FilePV \<Rightarrow> files \<Rightarrow> bytes \<Rightarrow> Proposal \<Rightarrow> (sign_error option \<times> FilePV \<times> files \<times> Proposal) go" where
  "signProposal L pv fs chainID proposal =
     do {
       let step = stepPropose;
       let lss = pv_LastSignState pv;
       hrs \<leftarrow> CheckHRS lss (p_Height proposal) (p_Round proposal) step;
       case hrs of
         Inl err \<Rightarrow> Ret (Some err, pv, fs, proposal)
       | Inr sameHRS \<Rightarrow>
           do {
             signBytes \<leftarrow> ProposalSignBytes (pl_stdTime L) chainID proposal;
             if sameHRS then
               if signBytes = sig_bytes (ls_SignBytes lss)
               then Ret (None, pv, fs, proposal\<lparr>p_Signature := ls_Signature lss\<rparr>)
               else do {
                 (timestamp, ok) \<leftarrow> checkProposalsOnlyDifferByTimestamp L (sig_bytes (ls_SignBytes lss)) signBytes;
                 if ok then Ret (None, pv, fs, proposal\<lparr>p_Timestamp := timestamp, p_Signature := ls_Signature lss\<rparr>)
                 else Ret (Some ConflictingData, pv, fs, proposal)
               }
             else (case pl_Sign L (pk_PrivKey (pv_Key pv)) signBytes of
                 None \<Rightarrow> Ret (Some SignFailed, pv, fs, proposal)
               | Some sig \<Rightarrow>
                   do {
                     (pv, fs) \<leftarrow> saveSigned L pv fs (p_Height proposal) (p_Round proposal) step signBytes sig;
                     Ret (None, pv, fs, proposal\<lparr>p_Signature := Some sig\<rparr>)
                   })
           }
     }"

text \<open>\<^verbatim>\<open>SignVote\<close> and \<^verbatim>\<open>SignProposal\<close> wrap the error in a message.\<close>

definition SignVote :: "pv_lib \<Rightarrow> FilePV \<Rightarrow> files \<Rightarrow> bytes \<Rightarrow> Vote \<Rightarrow> (sign_error option \<times> FilePV \<times> files \<times> Vote) go" where
  "SignVote L pv fs chainID vote = signVote L pv fs chainID vote"

definition SignProposal ::
  "pv_lib \<Rightarrow> FilePV \<Rightarrow> files \<Rightarrow> bytes \<Rightarrow> Proposal \<Rightarrow> (sign_error option \<times> FilePV \<times> files \<times> Proposal) go" where
  "SignProposal L pv fs chainID proposal = signProposal L pv fs chainID proposal"

end
