(* ===== verification/Priv_Validator_Safety.thy ===== *)
theory Priv_Validator_Safety
  imports Priv_Validator Commit_Sound "HOL-Library.Product_Lexorder"
begin

text \<open>
  The file private validator never signs two different messages for the same height, round and step, also when
  the process crashes at any point and is started again from its files.
\<close>

section \<open>Messages and laws of the libraries\<close>

datatype signed = SignedVote bytes Vote | SignedProposal bytes Proposal

fun hrs :: "signed \<Rightarrow> int64 \<times> int32 \<times> int8" where
  "hrs (SignedVote _ v) = (v_Height v, v_Round v, if v_Type v = PrevoteType then stepPrevote else stepPrecommit)"
| "hrs (SignedProposal _ p) = (p_Height p, p_Round p, stepPropose)"

fun sign_bytes :: "pv_lib \<Rightarrow> signed \<Rightarrow> bytes go" where
  "sign_bytes L (SignedVote ch v) = VoteSignBytes (pl_stdTime L) ch v"
| "sign_bytes L (SignedProposal ch p) = ProposalSignBytes (pl_stdTime L) ch p"

fun signature :: "signed \<Rightarrow> bytes option" where
  "signature (SignedVote _ v) = v_Signature v"
| "signature (SignedProposal _ p) = p_Signature p"

text \<open>What is signed: the canonical message, which has the chain, the block and the timestamp.\<close>

fun canonical :: "signed \<Rightarrow> (CanonicalVote + CanonicalProposal) go" where
  "canonical (SignedVote ch v) = map_option Inl (CanonicalizeVote ch v)"
| "canonical (SignedProposal ch p) = map_option Inr (CanonicalizeProposal ch p)"

fun message_ok :: "pv_lib \<Rightarrow> signed \<Rightarrow> bool" where
  "message_ok L (SignedVote ch v) \<longleftrightarrow> vote_in_range v \<and> IsVoteTypeValid (v_Type v)
     \<and> (case VoteSignBytes (pl_stdTime L) ch v of None \<Rightarrow> True | Some bz \<Rightarrow> fits bz)"
| "message_ok L (SignedProposal ch p) \<longleftrightarrow> proposal_in_range p
     \<and> (case ProposalSignBytes (pl_stdTime L) ch p of None \<Rightarrow> True | Some bz \<Rightarrow> fits bz)"

fun Sign :: "pv_lib \<Rightarrow> FilePV \<Rightarrow> files \<Rightarrow> signed \<Rightarrow> (sign_error option \<times> FilePV \<times> files \<times> signed) go" where
  "Sign L pv fs (SignedVote ch v) = do { (e, pv, fs, v) \<leftarrow> SignVote L pv fs ch v; Ret (e, pv, fs, SignedVote ch v) }"
| "Sign L pv fs (SignedProposal ch p) = do { (e, pv, fs, p) \<leftarrow> SignProposal L pv fs ch p; Ret (e, pv, fs, SignedProposal ch p) }"

text \<open>
  The documented behaviour of the libraries: decoding a time or a JSON document inverts encoding it (an empty slice
  and the unexported path are not written), \<^verbatim>\<open>proto.Equal\<close> is equality, a signature is not empty.
\<close>

definition state_codec :: "pv_lib \<Rightarrow> bool" where
  "state_codec L \<longleftrightarrow> (\<forall>s js. pl_stateJSON L s = Some js \<longrightarrow> ls_Signature s \<noteq> Some [] \<longrightarrow> ls_SignBytes s \<noteq> Some [] \<longrightarrow>
     pl_stateUnJSON L js = Some (s\<lparr>ls_filePath := []\<rparr>))"

definition key_codec :: "pv_lib \<Rightarrow> bool" where
  "key_codec L \<longleftrightarrow> (\<forall>k js. pl_keyJSON L k = Some js \<longrightarrow> pl_keyUnJSON L js = Some (k\<lparr>pk_filePath := []\<rparr>))"

definition equal_messages :: "pv_lib \<Rightarrow> bool" where
  "equal_messages L \<longleftrightarrow> (\<forall>a b. pl_voteEqual L a b \<longleftrightarrow> a = b) \<and> (\<forall>a b. pl_proposalEqual L a b \<longleftrightarrow> a = b)"

definition pv_laws :: "pv_lib \<Rightarrow> bool" where
  "pv_laws L \<longleftrightarrow> time_codec (pl_stdTime L) (pl_stdTimeDecode L) \<and> state_codec L \<and> key_codec L \<and> equal_messages L
     \<and> (\<forall>k bz. pl_Sign L k bz \<noteq> Some [])"

section \<open>The steps of the validator process\<close>

record pv_world =
  w_pv :: FilePV
  w_files :: files
  w_log :: "signed list"

text \<open>
  A message is signed and released, or refused; the process crashes after it has called the signer and is started
  again from the files; or it is started again at any other time (which is also a crash before the state file is replaced).
\<close>

inductive pv_step :: "pv_lib \<Rightarrow> path \<Rightarrow> path \<Rightarrow> pv_world \<Rightarrow> pv_world \<Rightarrow> bool" for L kf sf where
  release: "message_ok L m \<Longrightarrow> Sign L (w_pv w) (w_files w) m = Ret (None, pv', fs', m') \<Longrightarrow>
    pv_step L kf sf w \<lparr>w_pv = pv', w_files = fs', w_log = w_log w @ [m']\<rparr>"
| refuse: "message_ok L m \<Longrightarrow> Sign L (w_pv w) (w_files w) m = Ret (Some e, pv', fs', m') \<Longrightarrow>
    pv_step L kf sf w \<lparr>w_pv = pv', w_files = fs', w_log = w_log w\<rparr>"
| crash: "message_ok L m \<Longrightarrow> Sign L (w_pv w) (w_files w) m = Ret (e, pv', fs', m') \<Longrightarrow>
    LoadFilePV L fs' kf sf = Ret pv \<Longrightarrow> pv_step L kf sf w \<lparr>w_pv = pv, w_files = fs', w_log = w_log w\<rparr>"
| restart: "LoadFilePV L (w_files w) kf sf = Ret pv \<Longrightarrow>
    pv_step L kf sf w \<lparr>w_pv = pv, w_files = w_files w, w_log = w_log w\<rparr>"

inductive pv_reachable :: "pv_lib \<Rightarrow> PrivKey \<Rightarrow> path \<Rightarrow> path \<Rightarrow> pv_world \<Rightarrow> bool" for L key kf sf where
  start: "NewFilePV L key kf sf = Ret pv \<Longrightarrow> FilePV_Save L pv fs = Ret fs' \<Longrightarrow> kf \<noteq> sf \<Longrightarrow>
    pv_reachable L key kf sf \<lparr>w_pv = pv, w_files = fs', w_log = []\<rparr>"
| step: "pv_reachable L key kf sf w \<Longrightarrow> pv_step L kf sf w w' \<Longrightarrow> pv_reachable L key kf sf w'"

section \<open>One call of the signer\<close>

definition ls_hrs :: "FilePVLastSignState \<Rightarrow> int64 \<times> int32 \<times> int8" where
  "ls_hrs lss = (ls_Height lss, ls_Round lss, ls_Step lss)"

lemma CheckHRS_later: "CheckHRS lss h r s = Ret (Inr False) \<longleftrightarrow> ls_hrs lss < (h, r, s)"
  by (auto simp: CheckHRS_def ls_hrs_def less_prod_def)

lemma CheckHRS_same:
  "CheckHRS lss h r s = Ret (Inr True) \<longleftrightarrow> ls_hrs lss = (h, r, s) \<and> ls_SignBytes lss \<noteq> None \<and> ls_Signature lss \<noteq> None"
  by (auto simp: CheckHRS_def ls_hrs_def)

lemma CheckHRS_regression: "CheckHRS lss h r s = Ret (Inl e) \<Longrightarrow> (h, r, s) \<le> ls_hrs lss"
  by (auto simp: CheckHRS_def ls_hrs_def less_eq_prod_def split: if_splits)

text \<open>The state holds exactly what the message \<open>m\<close> says.\<close>

definition records :: "pv_lib \<Rightarrow> PrivKey \<Rightarrow> FilePVLastSignState \<Rightarrow> signed \<Rightarrow> bool" where
  "records L key lss m \<longleftrightarrow> ls_hrs lss = hrs m \<and> message_ok L m
     \<and> (\<exists>bz sig. sign_bytes L m = Ret bz \<and> pl_Sign L key bz = Some sig \<and> ls_SignBytes lss = Some bz
          \<and> ls_Signature lss = Some sig)"

definition sound_state :: "pv_lib \<Rightarrow> PrivKey \<Rightarrow> FilePVLastSignState \<Rightarrow> bool" where
  "sound_state L key lss \<longleftrightarrow> ls_SignBytes lss = None \<and> ls_Signature lss = None \<or> (\<exists>m. records L key lss m)"

definition saved :: "pv_lib \<Rightarrow> FilePVLastSignState \<Rightarrow> files \<Rightarrow> FilePVLastSignState \<Rightarrow> files \<Rightarrow> bool" where
  "saved L lss fs lss' fs' \<longleftrightarrow> (lss' = lss \<and> fs' = fs)
     \<or> (ls_hrs lss < ls_hrs lss' \<and> ls_filePath lss' = ls_filePath lss \<and> LastSignState_Save L lss' fs = Ret fs')"

lemma VoteSignBytes_cong:
  "CanonicalizeVote c1 v1 = CanonicalizeVote c2 v2 \<Longrightarrow> VoteSignBytes T c1 v1 = VoteSignBytes T c2 v2"
  by (simp add: VoteSignBytes_def)

lemma CanonicalizeVote_timestamp:
  "CanonicalizeVote ch (v\<lparr>v_Timestamp := t, v_Signature := s\<rparr>) = map_option (\<lambda>c. c\<lparr>cv_Timestamp := t\<rparr>) (CanonicalizeVote ch v)"
  by (auto simp: CanonicalizeVote_def split: bind_splits)

lemma CanonicalizeVote_signature: "CanonicalizeVote ch (v\<lparr>v_Signature := s\<rparr>) = CanonicalizeVote ch v"
  by (simp add: CanonicalizeVote_def)

lemma VoteSignBytes_signature [simp]: "VoteSignBytes T ch (v\<lparr>v_Signature := s\<rparr>) = VoteSignBytes T ch v"
  by (rule VoteSignBytes_cong) (rule CanonicalizeVote_signature)

lemma CanonicalizeProposal_timestamp:
  "CanonicalizeProposal ch (p\<lparr>p_Timestamp := t, p_Signature := s\<rparr>) = map_option (\<lambda>c. c\<lparr>cp_Timestamp := t\<rparr>) (CanonicalizeProposal ch p)"
  by (auto simp: CanonicalizeProposal_def split: bind_splits)

lemma ProposalSignBytes_signature [simp]: "ProposalSignBytes T ch (p\<lparr>p_Signature := s\<rparr>) = ProposalSignBytes T ch p"
  by (simp add: ProposalSignBytes_def CanonicalizeProposal_def)

lemma records_vote:
  assumes "records L key lss m" and "hrs m = hrs (SignedVote ch v)"
  shows "\<exists>c0 v0. m = SignedVote c0 v0"
  using assms by (cases m) (auto simp: stepPropose_def stepPrevote_def stepPrecommit_def split: if_splits)

lemma records_proposal:
  assumes "records L key lss m" and "hrs m = hrs (SignedProposal ch p)"
  shows "\<exists>c0 p0. m = SignedProposal c0 p0"
  using assms by (cases m) (auto simp: stepPropose_def stepPrevote_def stepPrecommit_def split: if_splits)

lemma decode_signed_vote:
  assumes "pv_laws L" and "message_ok L (SignedVote ch v)" and "VoteSignBytes (pl_stdTime L) ch v = Ret bz"
  obtains c where "CanonicalizeVote ch v = Ret c" "DecodeVote (pl_stdTimeDecode L) bz = Inr c"
  using VoteSignBytes_decodes [of "pl_stdTime L" "pl_stdTimeDecode L" ch v bz] assms that by (auto simp: pv_laws_def)

lemma decode_signed_proposal:
  assumes "pv_laws L" and "message_ok L (SignedProposal ch p)" and "ProposalSignBytes (pl_stdTime L) ch p = Ret bz"
  obtains c where "CanonicalizeProposal ch p = Ret c" "DecodeProposal (pl_stdTimeDecode L) bz = Inr c"
  using ProposalSignBytes_decodes [of "pl_stdTime L" "pl_stdTimeDecode L" ch p bz] assms that by (auto simp: pv_laws_def)

lemma votes_differ_by_timestamp:
  assumes L: "pv_laws L" and new: "message_ok L (SignedVote ch v)" "VoteSignBytes (pl_stdTime L) ch v = Ret bz"
    and old: "message_ok L (SignedVote c0 v0)" "VoteSignBytes (pl_stdTime L) c0 v0 = Ret bz0"
    and check: "checkVotesOnlyDifferByTimestamp L bz0 bz = Ret (t, True)"
  shows "VoteSignBytes (pl_stdTime L) ch (v\<lparr>v_Timestamp := t, v_Signature := s\<rparr>) = Ret bz0"
proof -
  obtain c where c: "CanonicalizeVote ch v = Ret c" "DecodeVote (pl_stdTimeDecode L) bz = Inr c"
    using decode_signed_vote [OF L new] .
  obtain d where d: "CanonicalizeVote c0 v0 = Ret d" "DecodeVote (pl_stdTimeDecode L) bz0 = Inr d"
    using decode_signed_vote [OF L old] .
  have t: "t = cv_Timestamp d" and "pl_voteEqual L (c\<lparr>cv_Timestamp := pl_Now L\<rparr>) (d\<lparr>cv_Timestamp := pl_Now L\<rparr>)"
    using check c(2) d(2) by (auto simp: checkVotesOnlyDifferByTimestamp_def DecodeVote_def)
  then have "c\<lparr>cv_Timestamp := pl_Now L\<rparr> = d\<lparr>cv_Timestamp := pl_Now L\<rparr>"
    using L by (simp add: pv_laws_def equal_messages_def)
  then have "c\<lparr>cv_Timestamp := t\<rparr> = d" unfolding t by (cases c; cases d) simp
  then have "CanonicalizeVote ch (v\<lparr>v_Timestamp := t, v_Signature := s\<rparr>) = CanonicalizeVote c0 v0"
    using c(1) d(1) by (simp add: CanonicalizeVote_timestamp)
  then show ?thesis using old(2) VoteSignBytes_cong by metis
qed

lemma proposals_differ_by_timestamp:
  assumes L: "pv_laws L" and new: "message_ok L (SignedProposal ch p)" "ProposalSignBytes (pl_stdTime L) ch p = Ret bz"
    and old: "message_ok L (SignedProposal c0 p0)" "ProposalSignBytes (pl_stdTime L) c0 p0 = Ret bz0"
    and check: "checkProposalsOnlyDifferByTimestamp L bz0 bz = Ret (t, True)"
  shows "ProposalSignBytes (pl_stdTime L) ch (p\<lparr>p_Timestamp := t, p_Signature := s\<rparr>) = Ret bz0"
proof -
  obtain c where c: "CanonicalizeProposal ch p = Ret c" "DecodeProposal (pl_stdTimeDecode L) bz = Inr c"
    using decode_signed_proposal [OF L new] .
  obtain d where d: "CanonicalizeProposal c0 p0 = Ret d" "DecodeProposal (pl_stdTimeDecode L) bz0 = Inr d"
    using decode_signed_proposal [OF L old] .
  have t: "t = cp_Timestamp d" and "pl_proposalEqual L (c\<lparr>cp_Timestamp := pl_Now L\<rparr>) (d\<lparr>cp_Timestamp := pl_Now L\<rparr>)"
    using check c(2) d(2) by (auto simp: checkProposalsOnlyDifferByTimestamp_def DecodeProposal_def)
  then have "c\<lparr>cp_Timestamp := pl_Now L\<rparr> = d\<lparr>cp_Timestamp := pl_Now L\<rparr>"
    using L by (simp add: pv_laws_def equal_messages_def)
  then have "c\<lparr>cp_Timestamp := t\<rparr> = d" unfolding t by (cases c; cases d) simp
  then have "CanonicalizeProposal ch (p\<lparr>p_Timestamp := t, p_Signature := s\<rparr>) = CanonicalizeProposal c0 p0"
    using c(1) d(1) by (simp add: CanonicalizeProposal_timestamp)
  then show ?thesis using old(2) by (simp add: ProposalSignBytes_def)
qed

text \<open>What a successful call has done: the message it returns is recorded, and the state file is replaced when it is new.\<close>

definition signed_outcome :: "pv_lib \<Rightarrow> PrivKey \<Rightarrow> FilePV \<Rightarrow> files \<Rightarrow> FilePV \<Rightarrow> files \<Rightarrow> signed \<Rightarrow> bool" where
  "signed_outcome L key pv fs pv' fs' m \<longleftrightarrow> pv_Key pv' = pv_Key pv \<and> records L key (pv_LastSignState pv') m
     \<and> signature m = ls_Signature (pv_LastSignState pv') \<and> saved L (pv_LastSignState pv) fs (pv_LastSignState pv') fs'"

lemma SignVote_outcome:
  assumes L: "pv_laws L" and ok: "message_ok L (SignedVote ch v)" and st: "sound_state L key (pv_LastSignState pv)"
    and key: "pk_PrivKey (pv_Key pv) = key" and run: "SignVote L pv fs ch v = Ret (None, pv', fs', v')"
  shows "signed_outcome L key pv fs pv' fs' (SignedVote ch v')"
proof -
  let ?lss = "pv_LastSignState pv"
  obtain st where step: "voteToStep v = Ret st" "hrs (SignedVote ch v) = (v_Height v, v_Round v, st)"
    using ok by (cases "v_Type v = PrevoteType") (auto simp: voteToStep_def IsVoteTypeValid_def)
  obtain same bz where h: "CheckHRS ?lss (v_Height v) (v_Round v) st = Ret (Inr same)"
    and bz: "VoteSignBytes (pl_stdTime L) ch v = Ret bz"
    using run step by (auto simp: SignVote_def signVote_def Let_def split: bind_splits sum.splits)
  have ok': "message_ok L (SignedVote ch (v\<lparr>v_Signature := s\<rparr>))" for s
    using ok by (simp add: vote_in_range_def)
  show ?thesis
  proof (cases same)
    case True
    then have hr: "ls_hrs ?lss = hrs (SignedVote ch v)" and ss: "ls_SignBytes ?lss \<noteq> None"
      using h step by (auto simp: CheckHRS_same)
    then obtain c0 v0 where m: "records L key ?lss (SignedVote c0 v0)"
      using st records_vote [of L key ?lss _ ch v] by (metis sound_state_def records_def)
    then obtain bz0 sig where m0: "message_ok L (SignedVote c0 v0)" "VoteSignBytes (pl_stdTime L) c0 v0 = Ret bz0"
      "pl_Sign L key bz0 = Some sig" "ls_SignBytes ?lss = Some bz0" "ls_Signature ?lss = Some sig"
      by (auto simp: records_def)
    have "VoteSignBytes (pl_stdTime L) ch v' = Ret bz0 \<and> v_Signature v' = Some sig \<and> pv' = pv \<and> fs' = fs
        \<and> (\<exists>t. v' = v\<lparr>v_Signature := Some sig\<rparr> \<or> v' = v\<lparr>v_Timestamp := t, v_Signature := Some sig\<rparr>)"
      using run step h bz m0 votes_differ_by_timestamp [OF L ok bz m0(1,2)] True
      by (auto simp: SignVote_def signVote_def Let_def sig_bytes_def split: bind_splits if_splits)
    then show ?thesis using ok m0 hr
      by (auto simp: signed_outcome_def records_def saved_def vote_in_range_def)
  next
    case False
    then have hr: "ls_hrs ?lss < hrs (SignedVote ch v)" using h CheckHRS_later step by simp
    obtain sig where sig: "pl_Sign L key bz = Some sig" "v' = v\<lparr>v_Signature := Some sig\<rparr>"
      and sv: "saveSigned L pv fs (v_Height v) (v_Round v) st bz sig = Ret (pv', fs')"
      using run step h bz key False by (auto simp: SignVote_def signVote_def Let_def split: bind_splits option.splits)
    show ?thesis using sig sv hr ok' bz step(2)
      by (auto simp: saveSigned_def Let_def signed_outcome_def records_def saved_def ls_hrs_def split: bind_splits)
  qed
qed


lemma SignProposal_outcome:
  assumes L: "pv_laws L" and ok: "message_ok L (SignedProposal ch p)" and st: "sound_state L key (pv_LastSignState pv)"
    and key: "pk_PrivKey (pv_Key pv) = key" and run: "SignProposal L pv fs ch p = Ret (None, pv', fs', p')"
  shows "signed_outcome L key pv fs pv' fs' (SignedProposal ch p')"
proof -
  let ?lss = "pv_LastSignState pv"
  obtain same bz where h: "CheckHRS ?lss (p_Height p) (p_Round p) stepPropose = Ret (Inr same)"
    and bz: "ProposalSignBytes (pl_stdTime L) ch p = Ret bz"
    using run by (auto simp: SignProposal_def signProposal_def Let_def split: bind_splits sum.splits)
  have ok': "message_ok L (SignedProposal ch (p\<lparr>p_Signature := s\<rparr>))" for s
    using ok by (simp add: proposal_in_range_def)
  show ?thesis
  proof (cases same)
    case True
    then have hr: "ls_hrs ?lss = hrs (SignedProposal ch p)" and ss: "ls_SignBytes ?lss \<noteq> None"
      using h by (auto simp: CheckHRS_same)
    then obtain c0 p0 where m: "records L key ?lss (SignedProposal c0 p0)"
      using st records_proposal [of L key ?lss _ ch p] by (metis sound_state_def records_def)
    then obtain bz0 sig where m0: "message_ok L (SignedProposal c0 p0)" "ProposalSignBytes (pl_stdTime L) c0 p0 = Ret bz0"
      "pl_Sign L key bz0 = Some sig" "ls_SignBytes ?lss = Some bz0" "ls_Signature ?lss = Some sig"
      by (auto simp: records_def)
    have "ProposalSignBytes (pl_stdTime L) ch p' = Ret bz0 \<and> p_Signature p' = Some sig \<and> pv' = pv \<and> fs' = fs
        \<and> (\<exists>t. p' = p\<lparr>p_Signature := Some sig\<rparr> \<or> p' = p\<lparr>p_Timestamp := t, p_Signature := Some sig\<rparr>)"
      using run h bz m0 proposals_differ_by_timestamp [OF L ok bz m0(1,2)] True
      by (auto simp: SignProposal_def signProposal_def Let_def sig_bytes_def split: bind_splits if_splits)
    then show ?thesis using ok m0 hr
      by (auto simp: signed_outcome_def records_def saved_def proposal_in_range_def)
  next
    case False
    then have hr: "ls_hrs ?lss < hrs (SignedProposal ch p)" using h CheckHRS_later by simp
    obtain sig where sig: "pl_Sign L key bz = Some sig" "p' = p\<lparr>p_Signature := Some sig\<rparr>"
      and sv: "saveSigned L pv fs (p_Height p) (p_Round p) stepPropose bz sig = Ret (pv', fs')"
      using run h bz key False by (auto simp: SignProposal_def signProposal_def Let_def split: bind_splits option.splits)
    show ?thesis using sig sv hr ok' bz
      by (auto simp: saveSigned_def Let_def signed_outcome_def records_def saved_def ls_hrs_def split: bind_splits)
  qed
qed


lemma Sign_outcome:
  assumes "pv_laws L" and "message_ok L m" and "sound_state L key (pv_LastSignState pv)"
    and "pk_PrivKey (pv_Key pv) = key" and "Sign L pv fs m = Ret (None, pv', fs', m')"
  shows "signed_outcome L key pv fs pv' fs' m'"
  using assms SignVote_outcome SignProposal_outcome by (cases m) (auto split: bind_splits)

lemma Sign_refused:
  assumes "Sign L pv fs m = Ret (Some e, pv', fs', m')"
  shows "pv' = pv \<and> fs' = fs"
  using assms
  by (cases m)
    (auto simp: SignVote_def signVote_def SignProposal_def signProposal_def Let_def
      split: bind_splits sum.splits if_splits option.splits)


section \<open>Invariant\<close>

text \<open>The state in memory is the one on disk, and the key file holds the key.\<close>

definition on_disk :: "pv_lib \<Rightarrow> PrivKey \<Rightarrow> path \<Rightarrow> path \<Rightarrow> FilePV \<Rightarrow> files \<Rightarrow> bool" where
  "on_disk L key kf sf pv fs \<longleftrightarrow> kf \<noteq> sf \<and> PubKey_Address (pl_crypto L) (pl_PubKey L key) \<noteq> None \<and> pk_PrivKey (pv_Key pv) = key \<and> ls_filePath (pv_LastSignState pv) = sf
     \<and> (\<exists>js k. fs kf = Some js \<and> pl_keyUnJSON L js = Some k \<and> pk_PrivKey k = key)
     \<and> (\<exists>js. fs sf = Some js \<and> pl_stateUnJSON L js = Some ((pv_LastSignState pv)\<lparr>ls_filePath := []\<rparr>))"

definition released_ok :: "pv_lib \<Rightarrow> PrivKey \<Rightarrow> FilePVLastSignState \<Rightarrow> signed \<Rightarrow> bool" where
  "released_ok L key lss m \<longleftrightarrow> message_ok L m \<and> hrs m \<le> ls_hrs lss \<and> (\<exists>bz. sign_bytes L m = Ret bz
     \<and> signature m = pl_Sign L key bz \<and> signature m \<noteq> None
     \<and> (hrs m = ls_hrs lss \<longrightarrow> ls_SignBytes lss = Some bz))"

definition log_ok :: "pv_lib \<Rightarrow> PrivKey \<Rightarrow> FilePVLastSignState \<Rightarrow> signed list \<Rightarrow> bool" where
  "log_ok L key lss ms \<longleftrightarrow> (\<forall>m\<in>set ms. released_ok L key lss m) \<and> sorted (map hrs ms)
     \<and> (\<forall>a\<in>set ms. \<forall>b\<in>set ms. hrs a = hrs b \<longrightarrow> sign_bytes L a = sign_bytes L b)"

definition pv_inv :: "pv_lib \<Rightarrow> PrivKey \<Rightarrow> path \<Rightarrow> path \<Rightarrow> pv_world \<Rightarrow> bool" where
  "pv_inv L key kf sf w \<longleftrightarrow> on_disk L key kf sf (w_pv w) (w_files w) \<and> sound_state L key (pv_LastSignState (w_pv w))
     \<and> log_ok L key (pv_LastSignState (w_pv w)) (w_log w)"

lemma released_ok_later:
  assumes "released_ok L key lss m" and "ls_hrs lss < ls_hrs lss'"
  shows "released_ok L key lss' m"
proof -
  have "hrs m < ls_hrs lss'" using assms by (auto simp only: released_ok_def intro: le_less_trans)
  then have "hrs m \<le> ls_hrs lss'" "hrs m \<noteq> ls_hrs lss'" by (rule less_imp_le, rule less_imp_neq)
  then show ?thesis using assms(1) unfolding released_ok_def by blast
qed

lemma log_ok_later:
  assumes "log_ok L key lss ms" and "ls_hrs lss < ls_hrs lss'"
  shows "log_ok L key lss' ms"
  using assms released_ok_later unfolding log_ok_def by blast

lemma log_ok_saved: "log_ok L key lss ms \<Longrightarrow> saved L lss fs lss' fs' \<Longrightarrow> log_ok L key lss' ms"
  by (auto simp: saved_def intro: log_ok_later)

lemma log_ok_path [simp]: "log_ok L key (lss\<lparr>ls_filePath := p\<rparr>) ms = log_ok L key lss ms"
  by (simp add: log_ok_def released_ok_def ls_hrs_def)

lemma sound_state_path [simp]: "sound_state L key (lss\<lparr>ls_filePath := p\<rparr>) = sound_state L key lss"
  by (simp add: sound_state_def records_def ls_hrs_def)

lemma log_ok_release:
  assumes log: "log_ok L key lss ms" and r: "records L key lss m" and sg: "signature m = ls_Signature lss"
  shows "log_ok L key lss (ms @ [m])"
proof -
  obtain bz sig where b: "sign_bytes L m = Ret bz" "pl_Sign L key bz = Some sig" "ls_SignBytes lss = Some bz"
    "ls_Signature lss = Some sig" "ls_hrs lss = hrs m" "message_ok L m" using r by (auto simp: records_def)
  have m: "released_ok L key lss m" using b sg by (simp add: released_ok_def)
  have old: "released_ok L key lss a" if "a \<in> set ms" for a using log that unfolding log_ok_def by blast
  have eq: "sign_bytes L a = Ret bz" if "a \<in> set ms" "hrs a = hrs m" for a
    using old [OF that(1)] that(2) b(3,5) unfolding released_ok_def by force
  have le: "\<forall>x\<in>set (map hrs ms). x \<le> hrs m" using old b(5) unfolding released_ok_def by force
  have so: "sorted (map hrs (ms @ [m]))" using log le unfolding log_ok_def map_append sorted_append by simp
  have pair: "sign_bytes L x = sign_bytes L y" if x: "x \<in> set ms \<or> x = m" and y: "y \<in> set ms \<or> y = m" and h: "hrs x = hrs y" for x y
  proof -
    consider "x \<in> set ms" "y \<in> set ms" | "x = m" | "y = m" using x y by blast
    then show ?thesis
    proof cases
      case 1
      then show ?thesis using log h unfolding log_ok_def by blast
    qed (use x y h eq b(1) in \<open>metis\<close>)+
  qed
  then show ?thesis using so old m unfolding log_ok_def by (simp del: sorted_wrt_append)
qed

lemma records_sound: "records L key lss m \<Longrightarrow> sound_state L key lss"
  by (auto simp: sound_state_def)

lemma on_disk_saved:
  assumes L: "pv_laws L" and d: "on_disk L key kf sf pv fs" and o: "signed_outcome L key pv fs pv' fs' m"
  shows "on_disk L key kf sf pv' fs'"
proof -
  let ?l = "pv_LastSignState pv'"
  obtain bz sig where r: "sign_bytes L m = Ret bz" "pl_Sign L key bz = Some sig" "ls_SignBytes ?l = Some bz" "ls_Signature ?l = Some sig"
    using o by (auto simp: signed_outcome_def records_def)
  have "bz \<noteq> []" using r(1) by (cases m) (auto simp: VoteSignBytes_def ProposalSignBytes_def MarshalDelimited_def uvarint.simps split: bind_splits)
  moreover have "sig \<noteq> []" using L r(2) by (auto simp: pv_laws_def)
  ultimately have js: "pl_stateJSON L ?l = Some js \<Longrightarrow> pl_stateUnJSON L js = Some (?l\<lparr>ls_filePath := []\<rparr>)" for js
    using L r by (auto simp: pv_laws_def state_codec_def)
  from o consider "?l = pv_LastSignState pv" "fs' = fs"
    | "ls_filePath ?l = ls_filePath (pv_LastSignState pv)" "LastSignState_Save L ?l fs = Ret fs'"
    by (auto simp: signed_outcome_def saved_def)
  then show ?thesis
  proof cases
    case 1
    then show ?thesis using d o by (simp add: on_disk_def signed_outcome_def)
  next
    case 2
    then show ?thesis using d o js by (auto simp: on_disk_def signed_outcome_def LastSignState_Save_def split: if_splits bind_splits)
  qed
qed

lemma LoadFilePV_on_disk:
  assumes "on_disk L key kf sf pv fs" and "LoadFilePV L fs kf sf = Ret pv'"
  shows "on_disk L key kf sf pv' fs \<and> pv_LastSignState pv' = pv_LastSignState pv"
  using assms by (auto simp: on_disk_def LoadFilePV_def loadFilePV_def Let_def split: bind_splits)

lemma LoadFilePV_returns: "on_disk L key kf sf pv fs \<Longrightarrow> LoadFilePV L fs kf sf \<noteq> Panic"
  by (auto simp: on_disk_def LoadFilePV_def loadFilePV_def Let_def)

lemma NewFilePV_inv:
  assumes L: "pv_laws L" and "NewFilePV L key kf sf = Ret pv" and "FilePV_Save L pv fs = Ret fs'" and "kf \<noteq> sf"
  shows "pv_inv L key kf sf \<lparr>w_pv = pv, w_files = fs', w_log = []\<rparr>"
  using assms
  by (auto simp: pv_inv_def on_disk_def sound_state_def log_ok_def NewFilePV_def FilePV_Save_def FilePVKey_Save_def LastSignState_Save_def
      pv_laws_def key_codec_def state_codec_def split: bind_splits if_splits)

lemma pv_step_inv:
  assumes L: "pv_laws L" and "pv_step L kf sf w w'" and inv: "pv_inv L key kf sf w"
  shows "pv_inv L key kf sf w'"
proof -
  have d: "on_disk L key kf sf (w_pv w) (w_files w)" and s: "sound_state L key (pv_LastSignState (w_pv w))"
    and l: "log_ok L key (pv_LastSignState (w_pv w)) (w_log w)" and k: "pk_PrivKey (pv_Key (w_pv w)) = key"
    using inv by (auto simp: pv_inv_def on_disk_def)
  have out: "signed_outcome L key (w_pv w) (w_files w) pv' fs' m'" "on_disk L key kf sf pv' fs'"
      "sound_state L key (pv_LastSignState pv')" "log_ok L key (pv_LastSignState pv') (w_log w)"
    if "message_ok L m" "Sign L (w_pv w) (w_files w) m = Ret (None, pv', fs', m')" for m pv' fs' m'
  proof -
    show o: "signed_outcome L key (w_pv w) (w_files w) pv' fs' m'" using Sign_outcome [OF L that(1) s k that(2)] .
    show "on_disk L key kf sf pv' fs'" using on_disk_saved [OF L d o] .
    show "sound_state L key (pv_LastSignState pv')" using o records_sound by (auto simp: signed_outcome_def)
    show "log_ok L key (pv_LastSignState pv') (w_log w)" using o log_ok_saved [OF l] by (auto simp: signed_outcome_def)
  qed
  from assms(2) show ?thesis
  proof cases
    case (release m pv' fs' m')
    then show ?thesis using out [OF release(2,3)] log_ok_release by (auto simp: pv_inv_def signed_outcome_def)
  next
    case (refuse m e pv' fs' m')
    then show ?thesis using Sign_refused [OF refuse(3)] d s l by (simp add: pv_inv_def)
  next
    case (crash m e pv' fs' m' pv)
    then have "on_disk L key kf sf pv' fs' \<and> sound_state L key (pv_LastSignState pv') \<and> log_ok L key (pv_LastSignState pv') (w_log w)"
      using out [of m] Sign_refused d s l by (cases e) blast+
    then show ?thesis using LoadFilePV_on_disk [OF _ crash(4)] crash(1) by (auto simp: pv_inv_def)
  next
    case (restart pv)
    then show ?thesis using LoadFilePV_on_disk [OF d restart(2)] s l by (simp add: pv_inv_def)
  qed
qed

lemma pv_reachable_inv: "pv_reachable L key kf sf w \<Longrightarrow> pv_laws L \<Longrightarrow> pv_inv L key kf sf w"
  by (induction rule: pv_reachable.induct) (blast intro: NewFilePV_inv pv_step_inv)+

lemma canonical_of_bytes:
  assumes "pv_laws L" and "message_ok L m" and "sign_bytes L m = Ret bz"
  shows "canonical m = (case m of SignedVote _ _ \<Rightarrow> map_option Inl (case_sum Map.empty Some (DecodeVote (pl_stdTimeDecode L) bz))
    | SignedProposal _ _ \<Rightarrow> map_option Inr (case_sum Map.empty Some (DecodeProposal (pl_stdTimeDecode L) bz)))"
proof (cases m)
  case (SignedVote ch v)
  then obtain c where "CanonicalizeVote ch v = Ret c" "DecodeVote (pl_stdTimeDecode L) bz = Inr c"
    using decode_signed_vote [of L ch v bz] assms by auto
  then show ?thesis using SignedVote by simp
next
  case (SignedProposal ch p)
  then obtain c where "CanonicalizeProposal ch p = Ret c" "DecodeProposal (pl_stdTimeDecode L) bz = Inr c"
    using decode_signed_proposal [of L ch p bz] assms by auto
  then show ?thesis using SignedProposal by simp
qed

lemma sign_bytes_canonical:
  assumes L: "pv_laws L" and ok: "message_ok L a" "message_ok L b" and hrs: "hrs a = hrs b"
    and eq: "sign_bytes L a = Ret bz" "sign_bytes L b = Ret bz"
  shows "canonical a = canonical b"
  using canonical_of_bytes [OF L ok(1) eq(1)] canonical_of_bytes [OF L ok(2) eq(2)] hrs
  by (cases a; cases b) (auto simp: stepPropose_def stepPrevote_def stepPrecommit_def split: if_splits)


section \<open>A concrete library\<close>

text \<open>
  A key and a JSON codec that write the states of the example run: the fresh state and one precommit for
  height 7 and round 1, and every key with the public key of the example.
\<close>

definition ex_pub :: PubKey where
  "ex_pub = PubKeyEd25519 (replicate 32 7)"

definition ex_stateJSON :: "FilePVLastSignState \<Rightarrow> bytes option" where
  "ex_stateJSON s =
     (if ls_hrs s = (0, 0, 0) \<and> ls_Signature s = None \<and> ls_SignBytes s = None then Some [0]
      else if ls_hrs s = (7, 1, 3) \<and> ls_Signature s = Some [1] then map_option ((#) 1) (ls_SignBytes s)
      else None)"

definition ex_stateUnJSON :: "bytes \<Rightarrow> FilePVLastSignState option" where
  "ex_stateUnJSON js = (case js of
       [] \<Rightarrow> None
     | b # bz \<Rightarrow> Some (if b = 0 then empty_LastSignState
         else \<lparr>ls_Height = 7, ls_Round = 1, ls_Step = 3, ls_Signature = Some [1], ls_SignBytes = Some bz, ls_filePath = []\<rparr>))"

definition ex_keyJSON :: "FilePVKey \<Rightarrow> bytes option" where
  "ex_keyJSON k = (if pk_PubKey k = ex_pub \<and> pk_Address k = [] then Some (pk_PrivKey k) else None)"

definition ex_pv_lib :: pv_lib where
  "ex_pv_lib = \<lparr>pl_crypto = ex_crypto, pl_PubKey = (\<lambda>_. ex_pub), pl_Sign = (\<lambda>_ _. Some [1]),
     pl_keyJSON = ex_keyJSON, pl_keyUnJSON = (\<lambda>js. Some \<lparr>pk_Address = [], pk_PubKey = ex_pub, pk_PrivKey = js, pk_filePath = []\<rparr>),
     pl_stateJSON = ex_stateJSON, pl_stateUnJSON = ex_stateUnJSON, pl_stdTime = ex_time, pl_stdTimeDecode = ex_untime,
     pl_Now = 0, pl_voteEqual = (=), pl_proposalEqual = (=)\<rparr>"

lemma ex_pv_laws: "pv_laws ex_pv_lib"
  by (auto simp: pv_laws_def ex_pv_lib_def ex_time_codec state_codec_def key_codec_def equal_messages_def ex_stateJSON_def
      ex_stateUnJSON_def ex_keyJSON_def empty_LastSignState_def ls_hrs_def split: if_splits)

definition ex_state :: "bytes option \<Rightarrow> FilePVLastSignState" where
  "ex_state bz = (case bz of
       None \<Rightarrow> empty_LastSignState\<lparr>ls_filePath := ''state''\<rparr>
     | Some bz \<Rightarrow> \<lparr>ls_Height = 7, ls_Round = 1, ls_Step = 3, ls_Signature = Some [1], ls_SignBytes = Some bz, ls_filePath = ''state''\<rparr>)"

definition ex_pv :: "bytes option \<Rightarrow> FilePV" where
  "ex_pv bz = \<lparr>pv_Key = \<lparr>pk_Address = [], pk_PubKey = ex_pub, pk_PrivKey = [42], pk_filePath = ''key''\<rparr>, pv_LastSignState = ex_state bz\<rparr>"

definition ex_files :: "bytes option \<Rightarrow> files" where
  "ex_files bz = [''key'' \<mapsto> [42], ''state'' \<mapsto> (case bz of None \<Rightarrow> [0] | Some bz \<Rightarrow> 1 # bz)]"

lemma ex_pv_start: "NewFilePV ex_pv_lib [42] ''key'' ''state'' = Ret (ex_pv None)" "FilePV_Save ex_pv_lib (ex_pv None) Map.empty = Ret (ex_files None)"
  by (simp_all add: NewFilePV_def ex_pv_lib_def ex_pv_def ex_state_def empty_LastSignState_def ex_pub_def PubKey_Address_def ed25519_Address_def
      ed25519_PubKeySize_def SumTruncated_def ex_crypto_def stepNone_def FilePV_Save_def FilePVKey_Save_def LastSignState_Save_def ex_keyJSON_def ex_stateJSON_def ls_hrs_def ex_files_def)

lemma ex_pv_load: "LoadFilePV ex_pv_lib (ex_files bz) ''key'' ''state'' = Ret (ex_pv bz)"
  by (cases bz) (simp_all add: LoadFilePV_def loadFilePV_def ex_pv_lib_def ex_pv_def ex_state_def empty_LastSignState_def ex_pub_def PubKey_Address_def
      ed25519_Address_def ed25519_PubKeySize_def SumTruncated_def ex_crypto_def ex_stateUnJSON_def ex_files_def)

lemma ex_pv_sign:
  assumes "VoteSignBytes ex_time [99] ex_vote = Ret bz"
  shows "Sign ex_pv_lib (ex_pv None) (ex_files None) (SignedVote [99] ex_vote) = Ret (None, ex_pv (Some bz), ex_files (Some bz), SignedVote [99] ex_vote)"
  using assms
  by (simp add: SignVote_def signVote_def voteToStep_def ex_vote_def PrecommitType_def PrevoteType_def CheckHRS_def ex_pv_def ex_state_def
      empty_LastSignState_def ex_pv_lib_def saveSigned_def LastSignState_Save_def ex_stateJSON_def ls_hrs_def stepPrecommit_def ex_files_def fun_upd_twist)


lemma ex_pv_resign:
  assumes bz: "VoteSignBytes ex_time [99] ex_vote = Ret bz" "fits bz"
    and bz2: "VoteSignBytes ex_time [99] (ex_vote\<lparr>v_Timestamp := 10\<rparr>) = Ret bz2" "fits bz2"
  shows "\<exists>t. Sign ex_pv_lib (ex_pv (Some bz)) (ex_files (Some bz)) (SignedVote [99] (ex_vote\<lparr>v_Timestamp := 10\<rparr>))
    = Ret (None, ex_pv (Some bz), ex_files (Some bz), SignedVote [99] (ex_vote\<lparr>v_Timestamp := t\<rparr>))"
proof -
  obtain c where c: "CanonicalizeVote [99] ex_vote = Ret c" "DecodeVote ex_untime bz = Inr c"
    using VoteSignBytes_decodes [OF ex_time_codec bz(1) _ bz(2)] ex_vote_in_range [of 9] by (auto simp: ex_vote_same)
  obtain d where d: "CanonicalizeVote [99] (ex_vote\<lparr>v_Timestamp := 10\<rparr>) = Ret d" "DecodeVote ex_untime bz2 = Inr d"
    using VoteSignBytes_decodes [OF ex_time_codec bz2(1) ex_vote_in_range bz2(2)] by auto
  have "d = c\<lparr>cv_Timestamp := 10\<rparr>" using c(1) d(1) by (auto simp: CanonicalizeVote_def ex_vote_def split: bind_splits)
  then have "checkVotesOnlyDifferByTimestamp ex_pv_lib bz bz2 = Ret (cv_Timestamp c, True)"
    using c(2) d(2) by (simp add: checkVotesOnlyDifferByTimestamp_def DecodeVote_def ex_pv_lib_def)
  then show ?thesis using bz2(1)
    by (auto simp: SignVote_def signVote_def voteToStep_def ex_vote_def PrecommitType_def PrevoteType_def CheckHRS_def ex_pv_def ex_state_def
        ex_pv_lib_def stepPrecommit_def sig_bytes_def Let_def)
qed

lemma ex_pv_run:
  "\<exists>w t. pv_reachable ex_pv_lib [42] ''key'' ''state'' w
     \<and> w_log w = [SignedVote [99] ex_vote, SignedVote [99] (ex_vote\<lparr>v_Timestamp := t\<rparr>)]"
proof -
  obtain bz where bz: "VoteSignBytes ex_time [99] ex_vote = Ret bz" "fits bz" using ex_vote_at [of 9] by (auto simp: ex_vote_same)
  obtain bz2 where bz2: "VoteSignBytes ex_time [99] (ex_vote\<lparr>v_Timestamp := 10\<rparr>) = Ret bz2" "fits bz2" using ex_vote_at [of 10] by auto
  have ok: "message_ok ex_pv_lib (SignedVote [99] ex_vote)" "message_ok ex_pv_lib (SignedVote [99] (ex_vote\<lparr>v_Timestamp := 10\<rparr>))"
    using bz bz2 ex_vote_in_range [of 9] ex_vote_in_range [of 10]
    by (simp_all add: ex_vote_same ex_pv_lib_def) (simp_all add: ex_vote_def IsVoteTypeValid_def)
  obtain t where t: "Sign ex_pv_lib (ex_pv (Some bz)) (ex_files (Some bz)) (SignedVote [99] (ex_vote\<lparr>v_Timestamp := 10\<rparr>))
    = Ret (None, ex_pv (Some bz), ex_files (Some bz), SignedVote [99] (ex_vote\<lparr>v_Timestamp := t\<rparr>))"
    using ex_pv_resign [OF bz bz2] by blast
  let ?w1 = "\<lparr>w_pv = ex_pv (Some bz), w_files = ex_files (Some bz), w_log = [SignedVote [99] ex_vote]\<rparr>"
  have "pv_reachable ex_pv_lib [42] ''key'' ''state'' \<lparr>w_pv = ex_pv None, w_files = ex_files None, w_log = []\<rparr>"
    by (rule start [OF ex_pv_start]) simp
  then have "pv_reachable ex_pv_lib [42] ''key'' ''state'' ?w1"
    by (rule step) (use release [OF ok(1), of "\<lparr>w_pv = ex_pv None, w_files = ex_files None, w_log = []\<rparr>"] ex_pv_sign [OF bz(1)] in simp)
  then have "pv_reachable ex_pv_lib [42] ''key'' ''state'' ?w1"
    by (rule step) (use restart [of ex_pv_lib ?w1] ex_pv_load in simp)
  then have "pv_reachable ex_pv_lib [42] ''key'' ''state''
      \<lparr>w_pv = ex_pv (Some bz), w_files = ex_files (Some bz), w_log = [SignedVote [99] ex_vote] @ [SignedVote [99] (ex_vote\<lparr>v_Timestamp := t\<rparr>)]\<rparr>"
    by (rule step) (use release [OF ok(2), of ?w1] t in simp)
  then show ?thesis by fastforce
qed

section \<open>Properties\<close>

text \<open>
  C8. No double signing: among all messages the validator ever releases, over any number of crashes and restarts
  from its files, two messages for the same height, round and step are the same canonical message (chain, block and
  timestamp included) with the same sign bytes and the same signature. The libraries are assumed to decode what they
  encode, to compare messages by equality and never to give an empty signature.
\<close>

theorem FilePV_no_double_sign:
  assumes "pv_laws L" and "pv_reachable L key kf sf w"
    and "a \<in> set (w_log w)" and "b \<in> set (w_log w)" and "hrs a = hrs b"
  shows "canonical a = canonical b \<and> sign_bytes L a = sign_bytes L b \<and> signature a = signature b"
proof -
  have log: "log_ok L key (pv_LastSignState (w_pv w)) (w_log w)"
    using pv_reachable_inv [OF assms(2,1)] by (simp add: pv_inv_def)
  then obtain x y where ab: "message_ok L a" "sign_bytes L a = Ret x" "signature a = pl_Sign L key x"
      "message_ok L b" "sign_bytes L b = Ret y" "signature b = pl_Sign L key y"
    using assms(3,4) unfolding log_ok_def released_ok_def by blast
  moreover have "sign_bytes L a = sign_bytes L b" using log assms(3-5) unfolding log_ok_def by blast
  ultimately show ?thesis using sign_bytes_canonical [OF assms(1) ab(1,4) assms(5) ab(2)] by simp
qed

theorem FilePV_no_double_sign_witness:
  "\<exists>w t. pv_reachable ex_pv_lib [42] ''key'' ''state'' w
     \<and> w_log w = [SignedVote [99] ex_vote, SignedVote [99] (ex_vote\<lparr>v_Timestamp := t\<rparr>)]
     \<and> canonical (SignedVote [99] ex_vote) = canonical (SignedVote [99] (ex_vote\<lparr>v_Timestamp := t\<rparr>))"
proof -
  obtain w t where w: "pv_reachable ex_pv_lib [42] ''key'' ''state'' w"
    "w_log w = [SignedVote [99] ex_vote, SignedVote [99] (ex_vote\<lparr>v_Timestamp := t\<rparr>)]" using ex_pv_run by blast
  have "canonical (SignedVote [99] ex_vote) = canonical (SignedVote [99] (ex_vote\<lparr>v_Timestamp := t\<rparr>))"
    using FilePV_no_double_sign [OF ex_pv_laws w(1), of "SignedVote [99] ex_vote" "SignedVote [99] (ex_vote\<lparr>v_Timestamp := t\<rparr>)"]
    by (simp add: w(2))
  then show ?thesis using w by blast
qed

text \<open>
  C9. The validator signs in order and forgets nothing: heights, rounds and steps of the released messages never
  decrease, every released signature is the key's signature of the message's sign bytes, no released message is later
  than the state on disk, and loading the files gives back the state the process has.
\<close>

theorem FilePV_signs_in_order:
  assumes "pv_laws L" and "pv_reachable L key kf sf w"
  shows "sorted (map hrs (w_log w))
    \<and> list_all (\<lambda>m. hrs m \<le> ls_hrs (pv_LastSignState (w_pv w)) \<and> signature m \<noteq> None
        \<and> Option.bind (sign_bytes L m) (pl_Sign L key) = signature m) (w_log w)
    \<and> map_option pv_LastSignState (LoadFilePV L (w_files w) kf sf) = Ret (pv_LastSignState (w_pv w))"
proof -
  have inv: "on_disk L key kf sf (w_pv w) (w_files w)" "log_ok L key (pv_LastSignState (w_pv w)) (w_log w)"
    using pv_reachable_inv [OF assms(2,1)] by (simp_all add: pv_inv_def)
  have "map_option pv_LastSignState (LoadFilePV L (w_files w) kf sf) = Ret (pv_LastSignState (w_pv w))"
    using LoadFilePV_returns [OF inv(1)] LoadFilePV_on_disk [OF inv(1)] by (cases "LoadFilePV L (w_files w) kf sf") auto
  moreover have "list_all (\<lambda>m. hrs m \<le> ls_hrs (pv_LastSignState (w_pv w)) \<and> signature m \<noteq> None
        \<and> Option.bind (sign_bytes L m) (pl_Sign L key) = signature m) (w_log w)"
    unfolding list_all_iff
  proof
    fix m assume "m \<in> set (w_log w)"
    then have "released_ok L key (pv_LastSignState (w_pv w)) m" using inv(2) unfolding log_ok_def by blast
    then show "hrs m \<le> ls_hrs (pv_LastSignState (w_pv w)) \<and> signature m \<noteq> None
        \<and> Option.bind (sign_bytes L m) (pl_Sign L key) = signature m" unfolding released_ok_def by fastforce
  qed
  moreover have "sorted (map hrs (w_log w))" using inv(2) unfolding log_ok_def by blast
  ultimately show ?thesis by blast
qed

theorem FilePV_signs_in_order_witness:
  "\<exists>w t. pv_reachable ex_pv_lib [42] ''key'' ''state'' w
     \<and> sorted (map hrs [SignedVote [99] ex_vote, SignedVote [99] (ex_vote\<lparr>v_Timestamp := t\<rparr>)])"
proof -
  obtain w t where w: "pv_reachable ex_pv_lib [42] ''key'' ''state'' w"
    "w_log w = [SignedVote [99] ex_vote, SignedVote [99] (ex_vote\<lparr>v_Timestamp := t\<rparr>)]" using ex_pv_run by blast
  then show ?thesis using FilePV_signs_in_order [OF ex_pv_laws w(1)] by (metis (no_types, lifting))
qed

end
