(* ===== verification/Merkle_Binding.thy ===== *)
theory Merkle_Binding
  imports Merkle_Proof
begin

text \<open>
  A Merkle root commits to the whole list of items, its length included: two lists with the same root are equal, unless
  a byte string hashed for one root collides with a different byte string hashed for the other.
\<close>

definition hash_inputs :: "hashfn \<Rightarrow> bytes list \<Rightarrow> bytes list" where
  "hash_inputs H items = (if items = [] then [[]] else root_inputs H items)"

lemma root_inputs_split:
  assumes "2 \<le> length items"
  defines "k \<equiv> splitPoint (length items)"
  shows "1 # HashFromByteSlices H (take k items) @ HashFromByteSlices H (drop k items) \<in> set (hash_inputs H items)"
    and "set (hash_inputs H (take k items)) \<subseteq> set (hash_inputs H items)"
    and "set (hash_inputs H (drop k items)) \<subseteq> set (hash_inputs H items)"
proof -
  have k: "0 < k" "k < length items" using splitPoint_range [OF assms(1)] by (simp_all add: k_def)
  have ne: "items \<noteq> []" "take k items \<noteq> []" "drop k items \<noteq> []" using k by auto
  have t: "tree_inputs H (map (leafHash H) items) =
      (1 # HashFromByteSlices H (take k items) @ HashFromByteSlices H (drop k items))
        # tree_inputs H (map (leafHash H) (take k items)) @ tree_inputs H (map (leafHash H) (drop k items))"
    using tree_inputs_step [of "map (leafHash H) items" H] assms(1)
    by (simp add: k_def HashFromByteSlices_tree_root take_map drop_map)
  show "1 # HashFromByteSlices H (take k items) @ HashFromByteSlices H (drop k items) \<in> set (hash_inputs H items)"
    using ne t by (simp add: hash_inputs_def root_inputs_def)
  show "set (hash_inputs H (take k items)) \<subseteq> set (hash_inputs H items)"
    using ne t by (auto simp: hash_inputs_def root_inputs_def dest: in_set_takeD)
  show "set (hash_inputs H (drop k items)) \<subseteq> set (hash_inputs H items)"
    using ne t by (auto simp: hash_inputs_def root_inputs_def dest: in_set_dropD)
qed

text \<open>The byte string whose hash is the root.\<close>

definition top_input :: "hashfn \<Rightarrow> bytes list \<Rightarrow> bytes" where
  "top_input H items = (case items of
       [] \<Rightarrow> []
     | [x] \<Rightarrow> 0 # x
     | _ \<Rightarrow> let k = splitPoint (length items) in 1 # HashFromByteSlices H (take k items) @ HashFromByteSlices H (drop k items))"

lemma top_input_long:
  "2 \<le> length items \<Longrightarrow> top_input H items =
     1 # HashFromByteSlices H (take (splitPoint (length items)) items) @ HashFromByteSlices H (drop (splitPoint (length items)) items)"
  by (cases items rule: remdups_adj.cases) (simp_all add: top_input_def Let_def)

lemma top_input_root: "H (top_input H items) = HashFromByteSlices H items"
proof (cases "2 \<le> length items")
  case True
  then show ?thesis by (simp add: top_input_long HashFromByteSlices_split innerHash_def)
next
  case False
  then consider "items = []" | x where "items = [x]" by (cases items rule: remdups_adj.cases) auto
  then show ?thesis by cases (simp_all add: top_input_def HashFromByteSlices.simps emptyHash_def leafHash_def)
qed

lemma top_input_hashed: "top_input H items \<in> set (hash_inputs H items)"
proof (cases "2 \<le> length items")
  case True
  then show ?thesis using root_inputs_split(1) by (simp add: top_input_long)
next
  case False
  then consider "items = []" | x where "items = [x]" by (cases items rule: remdups_adj.cases) auto
  then show ?thesis by cases (simp_all add: top_input_def hash_inputs_def root_inputs_def)
qed

lemma HashFromByteSlices_binding:
  assumes "HashFromByteSlices H xs = HashFromByteSlices H ys" and "\<forall>x. length (H x) = n"
    and "\<not> clash H (hash_inputs H xs) (hash_inputs H ys)"
  shows "xs = ys"
  using assms
proof (induction "length xs" arbitrary: xs ys rule: less_induct)
  case less
  have top: "top_input H xs = top_input H ys"
    using clashI [OF top_input_hashed [of H xs] top_input_hashed [of H ys], of H] less.prems(1,3) by (simp add: top_input_root)
  consider "xs = []" | x where "xs = [x]" | "2 \<le> length xs" by (cases xs rule: remdups_adj.cases) auto
  then show ?case
  proof cases
    case 3
    then have "2 \<le> length ys" using top top_input_long [OF 3, of H] by (cases ys rule: remdups_adj.cases) (auto simp: top_input_def)
    let ?j = "splitPoint (length xs)" and ?k = "splitPoint (length ys)"
    have len: "length (HashFromByteSlices H zs) = n" for zs using HashFromByteSlices_length [OF less.prems(2)] .
    have eq: "HashFromByteSlices H (take ?j xs) = HashFromByteSlices H (take ?k ys)"
      "HashFromByteSlices H (drop ?j xs) = HashFromByteSlices H (drop ?k ys)"
      using top top_input_long [OF 3, of H] top_input_long [OF \<open>2 \<le> length ys\<close>, of H] len by simp_all
    have nc: "\<not> clash H (hash_inputs H (take ?j xs)) (hash_inputs H (take ?k ys))"
      "\<not> clash H (hash_inputs H (drop ?j xs)) (hash_inputs H (drop ?k ys))"
      using less.prems(3) clash_mono root_inputs_split(2,3) [OF 3] root_inputs_split(2,3) [OF \<open>2 \<le> length ys\<close>] by metis+
    have "length (take ?j xs) < length xs" "length (drop ?j xs) < length xs" using splitPoint_range [OF 3] by auto
    then have "take ?j xs = take ?k ys" "drop ?j xs = drop ?k ys"
      using less.hyps eq nc less.prems(2) by blast+
    then show ?thesis by (metis append_take_drop_id)
  qed (use top in \<open>cases ys rule: remdups_adj.cases; auto simp: top_input_def Let_def\<close>)+
qed

end
