(* ===== verification/Block_Header.thy ===== *)
theory Block_Header
  imports Commit_Sound Merkle_Binding
begin

text \<open>
  Block headers, signed headers and light blocks (\<^verbatim>\<open>types/block.go\<close>, \<^verbatim>\<open>types/light.go\<close>,
  \<^verbatim>\<open>types/encoding_helper.go\<close>). The libraries are the fields of \<open>chain_lib\<close>: the hash, the encoder of times, the
  wrapper messages of the protobuf library, and the generated encoders of simple validators and commit signatures. A
  hash field that the code compares with nil is an option.
\<close>

record chain_lib =
  lib_crypto :: crypto_lib
  lib_hash :: hashfn
  lib_time :: time_encoder
  lib_StringValue :: "bytes \<Rightarrow> bytes option"
  lib_Int32Value :: "int32 \<Rightarrow> bytes option"
  lib_Int64Value :: "int64 \<Rightarrow> bytes option"
  lib_BytesValue :: "bytes \<Rightarrow> bytes option"
  lib_SimpleValidator :: "SimpleValidatorPB \<Rightarrow> bytes"
  lib_CommitSig :: "CommitSigPB \<Rightarrow> bytes go"

section \<open>Headers\<close>

definition BlockProtocol :: uint64 where
  "BlockProtocol = 11"

definition MaxChainIDLen :: nat where
  "MaxChainIDLen = 50"

definition vrf_ProofSize :: nat where
  "vrf_ProofSize = 81"

datatype cdc_item = CdcString bytes | CdcInt32 int32 | CdcInt64 int64 | CdcHexBytes "bytes option" | CdcOther

definition cdcEncode :: "chain_lib \<Rightarrow> cdc_item \<Rightarrow> bytes" where
  "cdcEncode L item = (case item of
       CdcString s \<Rightarrow> if s = [] then [] else sig_bytes (lib_StringValue L s)
     | CdcInt32 n \<Rightarrow> sig_bytes (lib_Int32Value L n)
     | CdcInt64 n \<Rightarrow> sig_bytes (lib_Int64Value L n)
     | CdcHexBytes None \<Rightarrow> []
     | CdcHexBytes (Some bz) \<Rightarrow> if bz = [] then [] else sig_bytes (lib_BytesValue L bz)
     | CdcOther \<Rightarrow> [])"

record Version =
  ver_Block :: uint64
  ver_App :: uint64

definition Version_Marshal :: "Version \<Rightarrow> bytes" where
  "Version_Marshal v = varint_field 0x8 (unat (ver_Block v)) @ varint_field 0x10 (unat (ver_App v))"

definition BlockID_Marshal :: "BlockID \<Rightarrow> bytes" where
  "BlockID_Marshal m = bytes_field 0xa (bid_Hash m) @ message_field 0x12 (PartSetHeader_Marshal (bid_PartSetHeader m))"

record Header =
  h_Version :: Version
  h_ChainID :: bytes
  h_Height :: int64
  h_Time :: Time
  h_LastBlockID :: BlockID
  h_LastCommitHash :: "bytes option"
  h_DataHash :: "bytes option"
  h_VotersHash :: bytes
  h_ValidatorsHash :: bytes
  h_NextValidatorsHash :: bytes
  h_ConsensusHash :: bytes
  h_AppHash :: bytes
  h_LastResultsHash :: bytes
  h_EvidenceHash :: "bytes option"
  h_ProposerAddress :: bytes
  h_Round :: int32
  h_Proof :: bytes

definition Header_Populate ::
  "Version \<Rightarrow> bytes \<Rightarrow> Time \<Rightarrow> BlockID \<Rightarrow> bytes \<Rightarrow> bytes \<Rightarrow> bytes \<Rightarrow> bytes \<Rightarrow> bytes \<Rightarrow> bytes \<Rightarrow> bytes \<Rightarrow> int32 \<Rightarrow> bytes \<Rightarrow> Header \<Rightarrow> Header" where
  "Header_Populate version chainID timestamp lastBlockID votersHash validatorsHash nextValidatorsHash consensusHash
     appHash lastResultsHash proposerAddress rnd proof h =
     h\<lparr>h_Version := version, h_ChainID := chainID, h_Time := timestamp, h_LastBlockID := lastBlockID,
       h_VotersHash := votersHash, h_ValidatorsHash := validatorsHash, h_NextValidatorsHash := nextValidatorsHash,
       h_ConsensusHash := consensusHash, h_AppHash := appHash, h_LastResultsHash := lastResultsHash,
       h_ProposerAddress := proposerAddress, h_Round := rnd, h_Proof := proof\<rparr>"

datatype header_error =
    WrongBlockProtocol uint64 | ChainIDTooLong nat | NegativeHeaderHeight | ZeroHeaderHeight | WrongLastBlockID types_error
  | WrongLastCommitHash | WrongDataHash | WrongEvidenceHash | WrongProposerAddress nat | WrongValidatorsHash
  | WrongNextValidatorsHash | WrongConsensusHash | WrongLastResultsHash | WrongVotersHash | NegativeHeaderRound | WrongProof
  | NilHeader | HeaderBlockID types_error

definition ValidateProof :: "bytes \<Rightarrow> bool" where
  "ValidateProof h \<longleftrightarrow> \<not> (length h > 0 \<and> length h \<noteq> vrf_ProofSize)"

definition Header_ValidateBasic :: "Header \<Rightarrow> header_error option" where
  "Header_ValidateBasic h =
     (if ver_Block (h_Version h) \<noteq> BlockProtocol then Some (WrongBlockProtocol (ver_Block (h_Version h)))
      else if length (h_ChainID h) > MaxChainIDLen then Some (ChainIDTooLong (length (h_ChainID h)))
      else if h_Height h < 0 then Some NegativeHeaderHeight
      else if h_Height h = 0 then Some ZeroHeaderHeight
      else (case BlockID_ValidateBasic (h_LastBlockID h) of
          Some err \<Rightarrow> Some (WrongLastBlockID err)
        | None \<Rightarrow>
            if ValidateHash (sig_bytes (h_LastCommitHash h)) \<noteq> None then Some WrongLastCommitHash
            else if ValidateHash (sig_bytes (h_DataHash h)) \<noteq> None then Some WrongDataHash
            else if ValidateHash (sig_bytes (h_EvidenceHash h)) \<noteq> None then Some WrongEvidenceHash
            else if length (h_ProposerAddress h) \<noteq> AddressSize then Some (WrongProposerAddress (length (h_ProposerAddress h)))
            else if ValidateHash (h_ValidatorsHash h) \<noteq> None then Some WrongValidatorsHash
            else if ValidateHash (h_NextValidatorsHash h) \<noteq> None then Some WrongNextValidatorsHash
            else if ValidateHash (h_ConsensusHash h) \<noteq> None then Some WrongConsensusHash
            else if ValidateHash (h_LastResultsHash h) \<noteq> None then Some WrongLastResultsHash
            else if ValidateHash (h_VotersHash h) \<noteq> None then Some WrongVotersHash
            else if h_Round h < 0 then Some NegativeHeaderRound
            else if \<not> ValidateProof (h_Proof h) then Some WrongProof
            else None))"

text \<open>The leaves of the header's Merkle tree, with the encoded time; \<open>None\<close> when the time is not encodable.\<close>

definition leaves_at :: "chain_lib \<Rightarrow> Header \<Rightarrow> bytes \<Rightarrow> bytes list" where
  "leaves_at L h pbt =
     [Version_Marshal (h_Version h),
      cdcEncode L (CdcString (h_ChainID h)),
      cdcEncode L (CdcInt64 (h_Height h)),
      pbt,
      BlockID_Marshal (BlockID_ToProto (h_LastBlockID h)),
      cdcEncode L (CdcHexBytes (h_LastCommitHash h)),
      cdcEncode L (CdcHexBytes (h_DataHash h)),
      cdcEncode L (CdcHexBytes (Some (h_VotersHash h))),
      cdcEncode L (CdcHexBytes (Some (h_ValidatorsHash h))),
      cdcEncode L (CdcHexBytes (Some (h_NextValidatorsHash h))),
      cdcEncode L (CdcHexBytes (Some (h_ConsensusHash h))),
      cdcEncode L (CdcHexBytes (Some (h_AppHash h))),
      cdcEncode L (CdcHexBytes (Some (h_LastResultsHash h))),
      cdcEncode L (CdcHexBytes (h_EvidenceHash h)),
      cdcEncode L (CdcHexBytes (Some (h_ProposerAddress h))),
      cdcEncode L (CdcInt32 (h_Round h)),
      cdcEncode L (CdcHexBytes (Some (h_Proof h)))]"

definition header_leaves :: "chain_lib \<Rightarrow> Header \<Rightarrow> bytes list option" where
  "header_leaves L h = map_option (leaves_at L h) (lib_time L (h_Time h))"

definition Header_Hash :: "chain_lib \<Rightarrow> Header option \<Rightarrow> bytes option" where
  "Header_Hash L h = (case h of
       None \<Rightarrow> None
     | Some h \<Rightarrow>
         if length (h_ValidatorsHash h) = 0 \<or> length (h_VotersHash h) = 0 then None
         else map_option (HashFromByteSlices (lib_hash L)) (header_leaves L h))"

definition Header_ToProto :: "Header option \<Rightarrow> Header option" where
  "Header_ToProto h = map_option (\<lambda>h.
     \<lparr>h_Version = h_Version h, h_ChainID = h_ChainID h, h_Height = h_Height h, h_Time = h_Time h,
      h_LastBlockID = BlockID_ToProto (h_LastBlockID h), h_LastCommitHash = h_LastCommitHash h, h_DataHash = h_DataHash h,
      h_VotersHash = h_VotersHash h, h_ValidatorsHash = h_ValidatorsHash h, h_NextValidatorsHash = h_NextValidatorsHash h,
      h_ConsensusHash = h_ConsensusHash h, h_AppHash = h_AppHash h, h_LastResultsHash = h_LastResultsHash h,
      h_EvidenceHash = h_EvidenceHash h, h_ProposerAddress = h_ProposerAddress h, h_Round = h_Round h, h_Proof = h_Proof h\<rparr>) h"

definition HeaderFromProto :: "Header option \<Rightarrow> header_error + Header \<times> header_error option" where
  "HeaderFromProto ph = (case ph of
       None \<Rightarrow> Inl NilHeader
     | Some p \<Rightarrow>
         (case BlockIDFromProto (Some (h_LastBlockID p)) of
            (_, Some err) \<Rightarrow> Inl (HeaderBlockID err)
          | (None, None) \<Rightarrow> Inl NilHeader
          | (Some bi, None) \<Rightarrow>
              let h = \<lparr>h_Version = h_Version p, h_ChainID = h_ChainID p, h_Height = h_Height p, h_Time = h_Time p,
                  h_LastBlockID = bi, h_LastCommitHash = h_LastCommitHash p, h_DataHash = h_DataHash p,
                  h_VotersHash = h_VotersHash p, h_ValidatorsHash = h_ValidatorsHash p, h_NextValidatorsHash = h_NextValidatorsHash p,
                  h_ConsensusHash = h_ConsensusHash p, h_AppHash = h_AppHash p, h_LastResultsHash = h_LastResultsHash p,
                  h_EvidenceHash = h_EvidenceHash p, h_ProposerAddress = h_ProposerAddress p, h_Round = h_Round p, h_Proof = h_Proof p\<rparr>
              in Inr (h, Header_ValidateBasic h)))"

section \<open>Signed headers and light blocks\<close>

record SignedHeader =
  sh_Header :: "Header option"
  sh_Commit :: "Commit option"

datatype light_error =
    MissingHeader | MissingCommit | InvalidHeader header_error | InvalidCommit types_error | AnotherChain bytes
  | HeightMismatch int64 int64 | CommitSignsOther | MissingSignedHeader | MissingValidatorSet | MissingVoterSet
  | InvalidValidatorSet valset_error | InvalidVoterSet valset_error | ValidatorHashMismatch | VoterHashMismatch

definition SignedHeader_ValidateBasic :: "chain_lib \<Rightarrow> SignedHeader \<Rightarrow> bytes \<Rightarrow> light_error option" where
  "SignedHeader_ValidateBasic L sh chainID = (case (sh_Header sh, sh_Commit sh) of
       (None, _) \<Rightarrow> Some MissingHeader
     | (Some h, None) \<Rightarrow> Some MissingCommit
     | (Some h, Some c) \<Rightarrow>
         (case Header_ValidateBasic h of
            Some err \<Rightarrow> Some (InvalidHeader err)
          | None \<Rightarrow>
              (case Commit_ValidateBasic c of
                 Some err \<Rightarrow> Some (InvalidCommit err)
               | None \<Rightarrow>
                   if h_ChainID h \<noteq> chainID then Some (AnotherChain (h_ChainID h))
                   else if c_Height c \<noteq> h_Height h then Some (HeightMismatch (h_Height h) (c_Height c))
                   else if sig_bytes (Header_Hash L (Some h)) \<noteq> bid_Hash (c_BlockID c) then Some CommitSignsOther
                   else None)))"

record LightBlock =
  lb_SignedHeader :: "SignedHeader option"
  lb_ValidatorSet :: "ValidatorSet option"
  lb_VoterSet :: "VoterSet option"

definition LightBlock_ValidateBasic :: "chain_lib \<Rightarrow> LightBlock \<Rightarrow> bytes \<Rightarrow> light_error option go" where
  "LightBlock_ValidateBasic L lb chainID = (case (lb_SignedHeader lb, lb_ValidatorSet lb, lb_VoterSet lb) of
       (None, _, _) \<Rightarrow> Ret (Some MissingSignedHeader)
     | (Some sh, None, _) \<Rightarrow> Ret (Some MissingValidatorSet)
     | (Some sh, Some vals, None) \<Rightarrow> Ret (Some MissingVoterSet)
     | (Some sh, Some vals, Some voters) \<Rightarrow>
         (case SignedHeader_ValidateBasic L sh chainID of
            Some err \<Rightarrow> Ret (Some err)
          | None \<Rightarrow>
              (case ValidatorSet_ValidateBasic (Some vals) of
                 Some err \<Rightarrow> Ret (Some (InvalidValidatorSet err))
               | None \<Rightarrow>
                   (case VoterSet_ValidateBasic (Some voters) of
                      Some err \<Rightarrow> Ret (Some (InvalidVoterSet err))
                    | None \<Rightarrow>
                        do {
                          h \<leftarrow> sh_Header sh;
                          validatorSetHash \<leftarrow> ValidatorSet_Hash (lib_hash L) (lib_SimpleValidator L) vals;
                          if h_ValidatorsHash h \<noteq> validatorSetHash then Ret (Some ValidatorHashMismatch)
                          else do {
                            voterSetHash \<leftarrow> VoterSet_Hash (lib_hash L) (lib_SimpleValidator L) voters;
                            if h_VotersHash h \<noteq> sig_bytes voterSetHash then Ret (Some VoterHashMismatch)
                            else Ret None
                          }
                        }))))"


record SignedHeaderPB =
  shp_Header :: "Header option"
  shp_Commit :: "CommitPB option"

definition SignedHeader_ToProto :: "SignedHeader option \<Rightarrow> SignedHeaderPB option" where
  "SignedHeader_ToProto sh = map_option (\<lambda>sh.
     \<lparr>shp_Header = Header_ToProto (sh_Header sh), shp_Commit = Commit_ToProto (sh_Commit sh)\<rparr>) sh"

datatype proto_error = NilSignedHeader | HeaderProto header_error | CommitProto types_error | NilLightBlock
  | ValSetProto valset_error | CodecProto codec_error

definition header_or_nil :: "Header option \<Rightarrow> proto_error + Header option" where
  "header_or_nil ph = (case ph of
       None \<Rightarrow> Inr None
     | Some p \<Rightarrow> (case HeaderFromProto (Some p) of
         Inl err \<Rightarrow> Inl (HeaderProto err)
       | Inr (h, Some err) \<Rightarrow> Inl (HeaderProto err)
       | Inr (h, None) \<Rightarrow> Inr (Some h)))"

definition commit_or_nil :: "CommitPB option \<Rightarrow> proto_error + Commit option" where
  "commit_or_nil pc = (case pc of
       None \<Rightarrow> Inr None
     | Some p \<Rightarrow> (case CommitFromProto (Some p) of
         (_, Some err) \<Rightarrow> Inl (CommitProto err)
       | (c, None) \<Rightarrow> Inr c))"

definition SignedHeaderFromProto :: "SignedHeaderPB option \<Rightarrow> proto_error + SignedHeader" where
  "SignedHeaderFromProto shp = (case shp of
       None \<Rightarrow> Inl NilSignedHeader
     | Some p \<Rightarrow>
         (case header_or_nil (shp_Header p) of
            Inl err \<Rightarrow> Inl err
          | Inr h \<Rightarrow>
              (case commit_or_nil (shp_Commit p) of
                 Inl err \<Rightarrow> Inl err
               | Inr c \<Rightarrow> Inr \<lparr>sh_Header = h, sh_Commit = c\<rparr>)))"

record LightBlockPB =
  lbp_SignedHeader :: "SignedHeaderPB option"
  lbp_ValidatorSet :: "ValidatorSetPB option"
  lbp_VoterSet :: "VoterSetPB option"

definition LightBlock_ToProto :: "LightBlock \<Rightarrow> proto_error + LightBlockPB" where
  "LightBlock_ToProto lb =
     (case (case lb_ValidatorSet lb of None \<Rightarrow> Inr None | Some vs \<Rightarrow> map_sum CodecProto Some (ValidatorSet_ToProto (Some vs))) of
        Inl err \<Rightarrow> Inl err
      | Inr vp \<Rightarrow>
          (case (case lb_VoterSet lb of None \<Rightarrow> Inr None | Some vs \<Rightarrow> map_sum CodecProto Some (VoterSet_ToProto (Some vs))) of
             Inl err \<Rightarrow> Inl err
           | Inr tp \<Rightarrow> Inr \<lparr>lbp_SignedHeader = SignedHeader_ToProto (lb_SignedHeader lb), lbp_ValidatorSet = vp, lbp_VoterSet = tp\<rparr>))"

definition signed_or_nil :: "SignedHeaderPB option \<Rightarrow> proto_error + SignedHeader option" where
  "signed_or_nil p = (case p of None \<Rightarrow> Inr None | Some p \<Rightarrow> map_sum id Some (SignedHeaderFromProto (Some p)))"

definition LightBlockFromProto :: "LightBlockPB option \<Rightarrow> (proto_error + LightBlock) go" where
  "LightBlockFromProto pb = (case pb of
       None \<Rightarrow> Ret (Inl NilLightBlock)
     | Some p \<Rightarrow>
         (case signed_or_nil (lbp_SignedHeader p) of
            Inl err \<Rightarrow> Ret (Inl err)
          | Inr sh \<Rightarrow>
              do {
                vals \<leftarrow> (case lbp_ValidatorSet p of None \<Rightarrow> Ret (None, None) | Some vp \<Rightarrow> ValidatorSetFromProto vp);
                (case vals of
                   (_, Some err) \<Rightarrow> Ret (Inl (ValSetProto err))
                 | (vs, None) \<Rightarrow>
                     do {
                       voters \<leftarrow> (case lbp_VoterSet p of None \<Rightarrow> Ret (None, None) | Some tp \<Rightarrow> VoterSetFromProto (Some tp));
                       (case voters of
                          (_, Some err) \<Rightarrow> Ret (Inl (ValSetProto err))
                        | (ts, None) \<Rightarrow> Ret (Inr \<lparr>lb_SignedHeader = sh, lb_ValidatorSet = vs, lb_VoterSet = ts\<rparr>))
                     })
              }))"

section \<open>The hash of a header commits to all its fields\<close>

definition total_inj_on :: "'a set \<Rightarrow> ('a \<Rightarrow> bytes option) \<Rightarrow> bool" where
  "total_inj_on A f \<longleftrightarrow> inj_on f A \<and> (\<forall>x\<in>A. f x \<noteq> None)"

text \<open>
  The documented behaviour of the wrapper messages: they encode every value of their Go type, differently for different
  values, and an empty value as no bytes.
\<close>

definition wrapper_laws :: "chain_lib \<Rightarrow> bool" where
  "wrapper_laws L \<longleftrightarrow> total_inj_on UNIV (lib_StringValue L) \<and> lib_StringValue L [] = Some []
     \<and> total_inj_on UNIV (lib_BytesValue L) \<and> lib_BytesValue L [] = Some []
     \<and> total_inj_on {n. in32 n} (lib_Int32Value L) \<and> total_inj_on {n. in64 n} (lib_Int64Value L)
     \<and> injective_encoder (lib_time L)"

definition header_in_range :: "Header \<Rightarrow> bool" where
  "header_in_range h \<longleftrightarrow> in64 (h_Height h) \<and> in32 (h_Round h)"

text \<open>The fields with nil and empty hashes identified.\<close>

definition header_content :: "Header \<Rightarrow> Header" where
  "header_content h = h\<lparr>h_LastCommitHash := Some (sig_bytes (h_LastCommitHash h)), h_DataHash := Some (sig_bytes (h_DataHash h)),
     h_EvidenceHash := Some (sig_bytes (h_EvidenceHash h))\<rparr>"

lemma total_inj_onD:
  assumes "total_inj_on A f" and "x \<in> A" and "y \<in> A" and "sig_bytes (f x) = sig_bytes (f y)"
  shows "x = y"
proof -
  have "f x \<noteq> None" "f y \<noteq> None" using assms(1-3) by (simp_all add: total_inj_on_def)
  then obtain u v where "f x = Some u" "f y = Some v" by blast
  then show ?thesis using assms inj_onD [of f A x y] by (simp add: total_inj_on_def sig_bytes_def)
qed

lemma cdc_string_inj:
  assumes L: "wrapper_laws L" and "cdcEncode L (CdcString a) = cdcEncode L (CdcString b)"
  shows "a = b"
proof (rule total_inj_onD [of UNIV "lib_StringValue L"])
  show "sig_bytes (lib_StringValue L a) = sig_bytes (lib_StringValue L b)"
    using assms by (auto simp: cdcEncode_def wrapper_laws_def sig_bytes_def split: if_splits)
qed (use L in \<open>simp_all add: wrapper_laws_def\<close>)

lemma cdc_bytes_inj:
  assumes L: "wrapper_laws L" and eq: "cdcEncode L (CdcHexBytes a) = cdcEncode L (CdcHexBytes b)"
  shows "sig_bytes a = sig_bytes b"
proof (rule total_inj_onD [of UNIV "lib_BytesValue L"])
  have e: "cdcEncode L (CdcHexBytes s) = sig_bytes (lib_BytesValue L (sig_bytes s))" for s
    using L by (auto simp: cdcEncode_def wrapper_laws_def sig_bytes_def split: option.splits)
  show "sig_bytes (lib_BytesValue L (sig_bytes a)) = sig_bytes (lib_BytesValue L (sig_bytes b))" using eq unfolding e .
qed (use L in \<open>simp_all add: wrapper_laws_def\<close>)

lemma cdc_int_inj:
  assumes "wrapper_laws L"
  shows "in64 a \<Longrightarrow> in64 b \<Longrightarrow> cdcEncode L (CdcInt64 a) = cdcEncode L (CdcInt64 b) \<Longrightarrow> a = b"
    and "in32 a \<Longrightarrow> in32 b \<Longrightarrow> cdcEncode L (CdcInt32 a) = cdcEncode L (CdcInt32 b) \<Longrightarrow> a = b"
  using assms total_inj_onD [of "{n. in64 n}" "lib_Int64Value L" a b] total_inj_onD [of "{n. in32 n}" "lib_Int32Value L" a b]
  by (simp_all add: wrapper_laws_def cdcEncode_def)

lemma Version_Marshal_inj: "Version_Marshal a = Version_Marshal b \<Longrightarrow> a = b"
proof -
  assume eq: "Version_Marshal a = Version_Marshal b"
  have "unat (ver_Block a) = unat (ver_Block b) \<and> varint_field 0x10 (unat (ver_App a)) @ [] = varint_field 0x10 (unat (ver_App b)) @ []"
    using varint_field_cancel [OF eq [unfolded Version_Marshal_def]]
    by (simp add: starts_not_def varint_field_def)
  moreover from this have "unat (ver_App a) = unat (ver_App b)"
    using varint_field_cancel [of "0x10" "unat (ver_App a)" "[]" "unat (ver_App b)" "[]"] by (simp add: starts_not_def)
  ultimately show "a = b" using unsigned_word_eqI by (cases a; cases b) auto
qed

lemma BlockID_Marshal_inj: "BlockID_Marshal a = BlockID_Marshal b \<Longrightarrow> a = b"
  using CanonicalBlockID_Marshal_inj [of a b] by (simp add: BlockID_Marshal_def CanonicalBlockID_Marshal_def)

lemma header_leaves_inj:
  assumes L: "wrapper_laws L" and r: "header_in_range a" "header_in_range b"
    and eq: "header_leaves L a = Some xs" "header_leaves L b = Some xs"
  shows "header_content a = header_content b"
proof -
  obtain ta tb where t: "lib_time L (h_Time a) = Some ta" "lib_time L (h_Time b) = Some tb"
    and q: "leaves_at L a ta = leaves_at L b tb" using eq by (auto simp: header_leaves_def)
  note q = q [unfolded leaves_at_def list.inject]
  have s: "cdcEncode L (CdcHexBytes (Some x)) = cdcEncode L (CdcHexBytes (Some y)) \<Longrightarrow> x = y" for x y
    using cdc_bytes_inj [OF L, of "Some x" "Some y"] by (simp add: sig_bytes_def)
  have "ta = tb" using q by blast
  then have "h_Time a = h_Time b" using t L unfolding wrapper_laws_def injective_encoder_def by blast
  moreover have "h_Version a = h_Version b" "h_ChainID a = h_ChainID b" using q Version_Marshal_inj cdc_string_inj [OF L] by blast+
  moreover have "h_Height a = h_Height b" "h_Round a = h_Round b" using q cdc_int_inj [OF L] r unfolding header_in_range_def by blast+
  moreover have "h_LastBlockID a = h_LastBlockID b" using q BlockID_Marshal_inj unfolding BlockID_ToProto_id by blast
  moreover have "sig_bytes (h_LastCommitHash a) = sig_bytes (h_LastCommitHash b)" "sig_bytes (h_DataHash a) = sig_bytes (h_DataHash b)"
    "sig_bytes (h_EvidenceHash a) = sig_bytes (h_EvidenceHash b)" using q cdc_bytes_inj [OF L] by blast+
  moreover have "h_VotersHash a = h_VotersHash b" "h_ValidatorsHash a = h_ValidatorsHash b" "h_NextValidatorsHash a = h_NextValidatorsHash b"
    "h_ConsensusHash a = h_ConsensusHash b" "h_AppHash a = h_AppHash b" "h_LastResultsHash a = h_LastResultsHash b"
    "h_ProposerAddress a = h_ProposerAddress b" "h_Proof a = h_Proof b" using q s by blast+
  ultimately show ?thesis by (cases a; cases b) (simp add: header_content_def)
qed

text \<open>What is hashed for a header.\<close>

definition header_inputs :: "chain_lib \<Rightarrow> Header \<Rightarrow> bytes list" where
  "header_inputs L h = (case header_leaves L h of None \<Rightarrow> [] | Some xs \<Rightarrow> hash_inputs (lib_hash L) xs)"

lemma Header_Hash_inj:
  assumes L: "wrapper_laws L" "\<forall>x. length (lib_hash L x) = n" and r: "header_in_range a" "header_in_range b"
    and h: "Header_Hash L (Some a) = Some r" "Header_Hash L (Some b) = Some r"
    and nc: "\<not> clash (lib_hash L) (header_inputs L a) (header_inputs L b)"
  shows "header_content a = header_content b"
proof -
  obtain xs ys where x: "header_leaves L a = Some xs" "header_leaves L b = Some ys"
    "HashFromByteSlices (lib_hash L) xs = r" "HashFromByteSlices (lib_hash L) ys = r"
    using h by (auto simp: Header_Hash_def split: if_splits)
  then have "xs = ys" using HashFromByteSlices_binding [OF _ L(2), of xs ys] nc by (simp add: header_inputs_def)
  then show ?thesis using header_leaves_inj [OF L(1) r] x by simp
qed

end
