(* ===== verification/Light_Verifier.thy ===== *)
theory Light_Verifier
  imports Block_Header
begin

text \<open>
  The light client's verification of headers (\<^verbatim>\<open>light/verifier.go\<close>). Reading a field through a nil header or commit
  panics. The verifiers return the voter sets, whose cached totals the commit verification may fill.
\<close>

section \<open>The verifiers\<close>

datatype verify_error =
    HeadersAdjacent | HeadersNotAdjacent | ErrOldHeaderExpired Time Time | ErrNewValSetCantBeTrusted commit_error
  | TrustingFailed commit_error | NextValidatorsMismatch
  | BasicFailed light_error | HeightNotGreater int64 int64 | TimeNotAfter | TimeFromFuture | ValidatorsDiffer | VotersDiffer
  | InvalidCommitLight commit_error | BackwardsInvalid header_error | BackwardsOtherChain | BackwardsTime | BackwardsHash

definition header_of :: "SignedHeader \<Rightarrow> Header go" where
  "header_of sh = sh_Header sh"

text \<open>
  Times are nanoseconds without a bound; \<^verbatim>\<open>time.Time\<close> overflows only billions of years from the epoch, which no
  duration in an int64 of nanoseconds (292 years) reaches from a header time that can be encoded.
\<close>

definition HeaderExpired :: "SignedHeader \<Rightarrow> int64 \<Rightarrow> Time \<Rightarrow> bool go" where
  "HeaderExpired h trustingPeriod now =
     do {
       hd \<leftarrow> header_of h;
       let expirationTime = h_Time hd + trustingPeriod;
       Ret (\<not> expirationTime > now)
     }"

definition ValidateTrustLevel :: "Fraction \<Rightarrow> bool" where
  "ValidateTrustLevel lvl \<longleftrightarrow>
     \<not> ((Numerator lvl * 3) mod 2 ^ 64 < Denominator lvl \<or> Numerator lvl > Denominator lvl \<or> Denominator lvl = 0)"

definition verifyNewHeaderAndValsAndVoters ::
  "chain_lib \<Rightarrow> SignedHeader \<Rightarrow> ValidatorSet \<Rightarrow> VoterSet \<Rightarrow> SignedHeader \<Rightarrow> Time \<Rightarrow> int64 \<Rightarrow> verify_error option go" where
  "verifyNewHeaderAndValsAndVoters L untrustedHeader untrustedVals untrustedVoters trustedHeader now maxClockDrift =
     do {
       t \<leftarrow> header_of trustedHeader;
       (case SignedHeader_ValidateBasic L untrustedHeader (h_ChainID t) of
          Some err \<Rightarrow> Ret (Some (BasicFailed err))
        | None \<Rightarrow>
            do {
              u \<leftarrow> header_of untrustedHeader;
              if h_Height u \<le> h_Height t then Ret (Some (HeightNotGreater (h_Height u) (h_Height t)))
              else if \<not> h_Time u > h_Time t then Ret (Some TimeNotAfter)
              else if \<not> h_Time u < now + maxClockDrift then Ret (Some TimeFromFuture)
              else do {
                valsHash \<leftarrow> ValidatorSet_Hash (lib_hash L) (lib_SimpleValidator L) untrustedVals;
                if h_ValidatorsHash u \<noteq> valsHash then Ret (Some ValidatorsDiffer)
                else do {
                  votersHash \<leftarrow> VoterSet_Hash (lib_hash L) (lib_SimpleValidator L) untrustedVoters;
                  if h_VotersHash u \<noteq> sig_bytes votersHash then Ret (Some VotersDiffer) else Ret None
                }
              }
            })
     }"

definition VerifyNonAdjacent ::
  "chain_lib \<Rightarrow> SignedHeader \<Rightarrow> VoterSet \<Rightarrow> SignedHeader \<Rightarrow> ValidatorSet \<Rightarrow> VoterSet \<Rightarrow> int64 \<Rightarrow> Time \<Rightarrow> int64 \<Rightarrow> Fraction
     \<Rightarrow> (verify_error option \<times> VoterSet \<times> VoterSet) go" where
  "VerifyNonAdjacent L trustedHeader trustedVoters untrustedHeader untrustedVals untrustedVoters trustingPeriod now maxClockDrift trustLevel =
     do {
       u \<leftarrow> header_of untrustedHeader;
       t \<leftarrow> header_of trustedHeader;
       if h_Height u = wrap64 (h_Height t + 1) then Ret (Some HeadersAdjacent, trustedVoters, untrustedVoters)
       else do {
         expired \<leftarrow> HeaderExpired trustedHeader trustingPeriod now;
         if expired then Ret (Some (ErrOldHeaderExpired (h_Time t + trustingPeriod) now), trustedVoters, untrustedVoters)
         else do {
           e \<leftarrow> verifyNewHeaderAndValsAndVoters L untrustedHeader untrustedVals untrustedVoters trustedHeader now maxClockDrift;
           if e \<noteq> None then Ret (e, trustedVoters, untrustedVoters)
           else do {
             c \<leftarrow> sh_Commit untrustedHeader;
             (trustedVoters, err) \<leftarrow> VerifyCommitLightTrusting (lib_crypto L) (lib_time L) trustedVoters (h_ChainID t) c trustLevel;
             (case err of
                Some (ErrNotEnoughVotingWeightSigned got needed) \<Rightarrow>
                  Ret (Some (ErrNewValSetCantBeTrusted (ErrNotEnoughVotingWeightSigned got needed)), trustedVoters, untrustedVoters)
              | Some err \<Rightarrow> Ret (Some (TrustingFailed err), trustedVoters, untrustedVoters)
              | None \<Rightarrow>
                  do {
                    (voters, err) \<leftarrow> VerifyCommitLight (lib_crypto L) (lib_time L) (Some untrustedVoters) (h_ChainID t)
                      (c_BlockID c) (h_Height u) (Some c);
                    untrustedVoters \<leftarrow> voters;
                    Ret (map_option InvalidCommitLight err, trustedVoters, untrustedVoters)
                  })
           }
         }
       }
     }"

definition VerifyAdjacent ::
  "chain_lib \<Rightarrow> SignedHeader \<Rightarrow> SignedHeader \<Rightarrow> ValidatorSet \<Rightarrow> VoterSet \<Rightarrow> int64 \<Rightarrow> Time \<Rightarrow> int64
     \<Rightarrow> (verify_error option \<times> VoterSet) go" where
  "VerifyAdjacent L trustedHeader untrustedHeader untrustedVals untrustedVoters trustingPeriod now maxClockDrift =
     do {
       u \<leftarrow> header_of untrustedHeader;
       t \<leftarrow> header_of trustedHeader;
       if h_Height u \<noteq> wrap64 (h_Height t + 1) then Ret (Some HeadersNotAdjacent, untrustedVoters)
       else do {
         expired \<leftarrow> HeaderExpired trustedHeader trustingPeriod now;
         if expired then Ret (Some (ErrOldHeaderExpired (h_Time t + trustingPeriod) now), untrustedVoters)
         else do {
           e \<leftarrow> verifyNewHeaderAndValsAndVoters L untrustedHeader untrustedVals untrustedVoters trustedHeader now maxClockDrift;
           if e \<noteq> None then Ret (e, untrustedVoters)
           else if h_ValidatorsHash u \<noteq> h_NextValidatorsHash t then Ret (Some NextValidatorsMismatch, untrustedVoters)
           else do {
             c \<leftarrow> sh_Commit untrustedHeader;
             (voters, err) \<leftarrow> VerifyCommitLight (lib_crypto L) (lib_time L) (Some untrustedVoters) (h_ChainID t)
               (c_BlockID c) (h_Height u) (Some c);
             untrustedVoters \<leftarrow> voters;
             Ret (map_option InvalidCommitLight err, untrustedVoters)
           }
         }
       }
     }"

definition Verify ::
  "chain_lib \<Rightarrow> SignedHeader \<Rightarrow> VoterSet \<Rightarrow> SignedHeader \<Rightarrow> ValidatorSet \<Rightarrow> VoterSet \<Rightarrow> int64 \<Rightarrow> Time \<Rightarrow> int64 \<Rightarrow> Fraction
     \<Rightarrow> (verify_error option \<times> VoterSet \<times> VoterSet) go" where
  "Verify L trustedHeader trustedVoters untrustedHeader untrustedVals untrustedVoters trustingPeriod now maxClockDrift trustLevel =
     do {
       u \<leftarrow> header_of untrustedHeader;
       t \<leftarrow> header_of trustedHeader;
       if h_Height u \<noteq> wrap64 (h_Height t + 1) then
         VerifyNonAdjacent L trustedHeader trustedVoters untrustedHeader untrustedVals untrustedVoters trustingPeriod now maxClockDrift trustLevel
       else do {
         (err, untrustedVoters) \<leftarrow> VerifyAdjacent L trustedHeader untrustedHeader untrustedVals untrustedVoters trustingPeriod now maxClockDrift;
         Ret (err, trustedVoters, untrustedVoters)
       }
     }"

definition VerifyBackwards :: "chain_lib \<Rightarrow> Header \<Rightarrow> Header \<Rightarrow> verify_error option" where
  "VerifyBackwards L untrustedHeader trustedHeader = (case Header_ValidateBasic untrustedHeader of
       Some err \<Rightarrow> Some (BackwardsInvalid err)
     | None \<Rightarrow>
         if h_ChainID untrustedHeader \<noteq> h_ChainID trustedHeader then Some BackwardsOtherChain
         else if \<not> h_Time untrustedHeader < h_Time trustedHeader then Some BackwardsTime
         else if sig_bytes (Header_Hash L (Some untrustedHeader)) \<noteq> bid_Hash (h_LastBlockID trustedHeader) then Some BackwardsHash
         else None)"

section \<open>What an accepted header has passed\<close>

definition acceptable_header :: "chain_lib \<Rightarrow> Header \<Rightarrow> Header \<Rightarrow> Commit \<Rightarrow> ValidatorSet \<Rightarrow> VoterSet \<Rightarrow> Time \<Rightarrow> int64 \<Rightarrow> bool" where
  "acceptable_header L t u c vals voters now drift \<longleftrightarrow> Header_ValidateBasic u = None \<and> Commit_ValidateBasic c = None
     \<and> h_ChainID u = h_ChainID t \<and> c_Height c = h_Height u \<and> bid_Hash (c_BlockID c) = sig_bytes (Header_Hash L (Some u))
     \<and> h_Height t < h_Height u \<and> h_Time t < h_Time u \<and> h_Time u < now + drift
     \<and> ValidatorSet_Hash (lib_hash L) (lib_SimpleValidator L) vals = Ret (h_ValidatorsHash u)
     \<and> map_option sig_bytes (VoterSet_Hash (lib_hash L) (lib_SimpleValidator L) voters) = Ret (h_VotersHash u)"

lemma SignedHeader_ValidateBasic_None:
  assumes "SignedHeader_ValidateBasic L sh chainID = None"
  shows "\<exists>h c. sh_Header sh = Some h \<and> sh_Commit sh = Some c \<and> Header_ValidateBasic h = None \<and> Commit_ValidateBasic c = None
    \<and> h_ChainID h = chainID \<and> c_Height c = h_Height h \<and> bid_Hash (c_BlockID c) = sig_bytes (Header_Hash L (Some h))"
  using assms by (auto simp: SignedHeader_ValidateBasic_def split: option.splits if_splits)

lemma verifyNew_accepts:
  assumes "verifyNewHeaderAndValsAndVoters L ush vals voters tsh now drift = Ret None" and "sh_Header tsh = Some t"
  shows "\<exists>u c. sh_Header ush = Some u \<and> sh_Commit ush = Some c \<and> acceptable_header L t u c vals voters now drift"
proof -
  have "SignedHeader_ValidateBasic L ush (h_ChainID t) = None"
    using assms by (auto simp: verifyNewHeaderAndValsAndVoters_def header_of_def split: option.splits)
  from SignedHeader_ValidateBasic_None [OF this] obtain u c where u: "sh_Header ush = Some u" "sh_Commit ush = Some c"
    "Header_ValidateBasic u = None" "Commit_ValidateBasic c = None" "h_ChainID u = h_ChainID t" "c_Height c = h_Height u"
    "bid_Hash (c_BlockID c) = sig_bytes (Header_Hash L (Some u))" by blast
  then show ?thesis using assms
    by (auto simp: verifyNewHeaderAndValsAndVoters_def header_of_def acceptable_header_def split: option.splits bind_splits if_splits)
qed

lemma VerifyAdjacent_accepts:
  assumes "VerifyAdjacent L tsh ush vals voters period now drift = Ret (None, voters')" and "sh_Header tsh = Some t"
  shows "\<exists>u c. sh_Header ush = Some u \<and> sh_Commit ush = Some c \<and> acceptable_header L t u c vals voters now drift
    \<and> h_Height u = wrap64 (h_Height t + 1) \<and> now < h_Time t + period \<and> h_ValidatorsHash u = h_NextValidatorsHash t
    \<and> VerifyCommitLight (lib_crypto L) (lib_time L) (Some voters) (h_ChainID t) (c_BlockID c) (h_Height u) (Some c) = Ret (Some voters', None)"
proof -
  have "verifyNewHeaderAndValsAndVoters L ush vals voters tsh now drift = Ret None"
    using assms by (auto simp: VerifyAdjacent_def header_of_def split: bind_splits if_splits)
  from verifyNew_accepts [OF this assms(2)] obtain u c where "sh_Header ush = Some u" "sh_Commit ush = Some c"
    "acceptable_header L t u c vals voters now drift" by blast
  then show ?thesis using assms
    by (auto simp: VerifyAdjacent_def HeaderExpired_def Let_def header_of_def split: bind_splits if_splits)
qed

lemma VerifyNonAdjacent_accepts:
  assumes "VerifyNonAdjacent L tsh tvoters ush vals voters period now drift level = Ret (None, tvoters', voters')" and "sh_Header tsh = Some t"
  shows "\<exists>u c. sh_Header ush = Some u \<and> sh_Commit ush = Some c \<and> acceptable_header L t u c vals voters now drift
    \<and> h_Height u \<noteq> wrap64 (h_Height t + 1) \<and> now < h_Time t + period
    \<and> VerifyCommitLightTrusting (lib_crypto L) (lib_time L) tvoters (h_ChainID t) c level = Ret (tvoters', None)
    \<and> VerifyCommitLight (lib_crypto L) (lib_time L) (Some voters) (h_ChainID t) (c_BlockID c) (h_Height u) (Some c) = Ret (Some voters', None)"
proof -
  have "verifyNewHeaderAndValsAndVoters L ush vals voters tsh now drift = Ret None"
    using assms by (auto simp: VerifyNonAdjacent_def header_of_def split: bind_splits if_splits)
  from verifyNew_accepts [OF this assms(2)] obtain u c where "sh_Header ush = Some u" "sh_Commit ush = Some c"
    "acceptable_header L t u c vals voters now drift" by blast
  then show ?thesis using assms
    by (auto simp: VerifyNonAdjacent_def HeaderExpired_def Let_def header_of_def split: bind_splits if_splits option.splits commit_error.splits)
qed


lemma VerifyAdjacent_complete:
  assumes "sh_Header tsh = Some t" and "sh_Header ush = Some u" and "sh_Commit ush = Some c"
    and "acceptable_header L t u c vals voters now drift"
    and "h_Height u = wrap64 (h_Height t + 1)" and "now < h_Time t + period" and "h_ValidatorsHash u = h_NextValidatorsHash t"
    and "VerifyCommitLight (lib_crypto L) (lib_time L) (Some voters) (h_ChainID t) (c_BlockID c) (h_Height u) (Some c) = Ret (Some voters', None)"
  shows "VerifyAdjacent L tsh ush vals voters period now drift = Ret (None, voters')"
proof -
  have "verifyNewHeaderAndValsAndVoters L ush vals voters tsh now drift = Ret None"
    using assms(1-4)
    by (auto simp: verifyNewHeaderAndValsAndVoters_def header_of_def acceptable_header_def SignedHeader_ValidateBasic_def split: option.splits)
  then show ?thesis using assms by (simp add: VerifyAdjacent_def HeaderExpired_def header_of_def Let_def)
qed

section \<open>One key is enough next to a trusted header\<close>

definition lone_voter :: "bytes \<Rightarrow> PubKey \<Rightarrow> Validator" where
  "lone_voter addr pk = \<lparr>Address = addr, PubKey = Some pk, VotingPower = 10, VotingWeight = 10, ProposerPriority = 0\<rparr>"

definition lone_voters :: "bytes \<Rightarrow> PubKey \<Rightarrow> VoterSet" where
  "lone_voters addr pk = \<lparr>Voters = [lone_voter addr pk], totalVotingWeight = 10\<rparr>"

definition lone_sig :: "bytes \<Rightarrow> Time \<Rightarrow> bytes \<Rightarrow> CommitSig" where
  "lone_sig addr t sig = NewCommitSigForBlock (Some sig) addr t"

definition lone_commit :: "int64 \<Rightarrow> BlockID \<Rightarrow> bytes \<Rightarrow> Time \<Rightarrow> bytes \<Rightarrow> Commit" where
  "lone_commit height b addr t sig = NewCommit height 0 b [lone_sig addr t sig]"

lemmas lone_defs = lone_voter_def lone_voters_def lone_sig_def lone_commit_def NewCommit_def NewCommitSigForBlock_def

definition lone_bytes :: "chain_lib \<Rightarrow> bytes \<Rightarrow> int64 \<Rightarrow> BlockID \<Rightarrow> Time \<Rightarrow> bytes go" where
  "lone_bytes L ch height b t = VoteSignBytes (lib_time L) ch \<lparr>v_Type = PrecommitType, v_Height = height, v_Round = 0, v_BlockID = b,
     v_Timestamp = t, v_ValidatorAddress = [], v_ValidatorIndex = 0, v_Signature = None\<rparr>"

lemma lone_sign_bytes: "Commit_VoteSignBytes (lib_time L) (lone_commit height b addr t sig) ch 0 = lone_bytes L ch height b t"
  by (simp add: Commit_VoteSignBytes_def lone_bytes_def GetVote_def index_def lone_defs CommitSig_BlockID_def BlockIDFlagAbsent_def
      BlockIDFlagCommit_def VoteSignBytes_def CanonicalizeVote_def)

lemma lone_VerifyCommitLight:
  assumes "lone_bytes L ch height b t = Ret bz" and "PubKey_VerifySignature (lib_crypto L) pk bz sig"
  shows "VerifyCommitLight (lib_crypto L) (lib_time L) (Some (lone_voters addr pk)) ch b height (Some (lone_commit height b addr t sig))
    = Ret (Some (lone_voters addr pk), None)"
proof -
  let ?c = "lone_commit height b addr t sig"
  have r: "wrap64 (10 * 2) sdiv 3 = 6" by code_simp
  have w: "wrap64 10 = 10" "wrap32 0 = 0" by (simp_all add: wrap64_def wrap32_def)
  have "check_commit (lone_voters addr pk) b height ?c = None" by (simp add: check_commit_def VoterSet_Size_def lone_defs)
  moreover have "TotalVotingWeight (lone_voters addr pk) = Ret (lone_voters addr pk, 10)"
    by (simp add: TotalVotingWeight_def lone_voters_def)
  moreover have "light_loop (lib_crypto L) (lib_time L) ch ?c (lone_voters addr pk) 6 0 (c_Signatures ?c) 0 0 [] [] = Ret LightEnough"
    using assms lone_sign_bytes [of L height b addr t sig ch] w
    by (simp add: lone_defs ForBlock_def VoterSet_GetByAddress_def verifySignatureOrCollectBlsPubKeysAndGetVotingWeight_def)
  ultimately show ?thesis using r by (simp add: VerifyCommitLight_def Let_def light_finish_def)
qed

text \<open>The header of a block nobody elected voters for.\<close>

definition forged_header :: "Header \<Rightarrow> bytes \<Rightarrow> bytes \<Rightarrow> Header" where
  "forged_header t votersHash app = \<lparr>h_Version = \<lparr>ver_Block = BlockProtocol, ver_App = 0\<rparr>, h_ChainID = h_ChainID t,
     h_Height = h_Height t + 1, h_Time = h_Time t + 1, h_LastBlockID = zero_BlockID, h_LastCommitHash = None, h_DataHash = None,
     h_VotersHash = votersHash, h_ValidatorsHash = h_NextValidatorsHash t, h_NextValidatorsHash = h_NextValidatorsHash t,
     h_ConsensusHash = [], h_AppHash = app, h_LastResultsHash = [], h_EvidenceHash = None, h_ProposerAddress = replicate 20 0,
     h_Round = 0, h_Proof = []\<rparr>"

lemma forged_header_valid:
  assumes "0 \<le> h_Height t" and "length (h_ChainID t) \<le> MaxChainIDLen" and "length vh = tmhash_Size" and "length (h_NextValidatorsHash t) = tmhash_Size"
  shows "Header_ValidateBasic (forged_header t vh app) = None"
  using assms
  by (simp add: Header_ValidateBasic_def forged_header_def BlockID_ValidateBasic_def PartSetHeader_ValidateBasic_def zero_BlockID_def
      zero_PartSetHeader_def ValidateHash_def sig_bytes_def AddressSize_def TruncatedSize_def ValidateProof_def)

lemma lone_commit_valid:
  assumes "0 \<le> height" and "length (bid_Hash b) = tmhash_Size" and "length addr = AddressSize" and "length sig \<le> MaxSignatureSize"
  shows "Commit_ValidateBasic (lone_commit height b addr t sig) = None"
  using assms
  by (auto simp: Commit_ValidateBasic_def lone_defs BlockID_IsZero_def tmhash_Size_def CommitSig_ValidateBasic_def BlockIDFlagCommit_def
      BlockIDFlagAbsent_def sig_bytes_def omittedSignatures_def Absent_def Let_def)

lemma lone_bytes_Ret:
  assumes "length (bid_Hash b) = tmhash_Size" and "psh_Hash (bid_PartSetHeader b) = []" and "lib_time L t = Some ts"
  shows "\<exists>bz. lone_bytes L ch height b t = Ret bz"
proof -
  have "BlockID_ValidateBasic b = None" using assms by (simp add: BlockID_ValidateBasic_def PartSetHeader_ValidateBasic_def ValidateHash_def)
  then show ?thesis using assms(3)
    by (simp add: lone_bytes_def VoteSignBytes_def CanonicalizeVote_def CanonicalizeBlockID_def BlockIDFromProto_valid CanonicalVote_Marshal_def)
qed

lemma forged_accepted:
  assumes "\<forall>x. length (lib_hash L x) = tmhash_Size"
    and "\<forall>bz. \<exists>sig. length sig \<le> MaxSignatureSize \<and> PubKey_VerifySignature (lib_crypto L) pk bz sig"
    and "length addr = AddressSize" and "Validator_Bytes (lib_SimpleValidator L) (lone_voter addr pk) = Ret vbz"
    and "sh_Header tsh = Some t" and "0 \<le> h_Height t" and "h_Height t < MaxInt64" and "length (h_ChainID t) \<le> MaxChainIDLen"
    and "ValidatorSet_Hash (lib_hash L) (lib_SimpleValidator L) vals = Ret (h_NextValidatorsHash t)"
    and "lib_time L (h_Time t + 1) = Some ts" and "h_Time t + 1 < now + drift" and "now < h_Time t + period"
  shows "\<exists>vh b sig. VerifyAdjacent L tsh \<lparr>sh_Header = Some (forged_header t vh app),
      sh_Commit = Some (lone_commit (h_Height t + 1) b addr (h_Time t + 1) sig)\<rparr> vals (lone_voters addr pk) period now drift
    = Ret (None, lone_voters addr pk)"
proof -
  let ?vh = "HashFromByteSlices (lib_hash L) [vbz]"
  let ?u = "forged_header t ?vh app"
  have size: "length (HashFromByteSlices (lib_hash L) xs) = tmhash_Size" for xs using HashFromByteSlices_length [OF assms(1)] .
  have nv: "length (h_NextValidatorsHash t) = tmhash_Size" using assms(9) size
    by (metis (no_types, lifting) ValidatorSet_Hash_def bind_eq_Some_conv option.inject)
  have vh: "VoterSet_Hash (lib_hash L) (lib_SimpleValidator L) (lone_voters addr pk) = Ret (Some ?vh)"
    using assms(4) by (simp add: VoterSet_Hash_def lone_voters_def)
  obtain r where r: "Header_Hash L (Some ?u) = Some r" "length r = tmhash_Size"
    using assms(10) size nv by (auto simp: Header_Hash_def header_leaves_def forged_header_def tmhash_Size_def)
  let ?b = "\<lparr>bid_Hash = r, bid_PartSetHeader = zero_PartSetHeader\<rparr>"
  obtain bz where bz: "lone_bytes L (h_ChainID t) (h_Height t + 1) ?b (h_Time t + 1) = Ret bz"
    using lone_bytes_Ret [of ?b L "h_Time t + 1" ts] r(2) assms(10) by (auto simp: zero_PartSetHeader_def)
  obtain sig where sig: "length sig \<le> MaxSignatureSize" "PubKey_VerifySignature (lib_crypto L) pk bz sig" using assms(2) by blast
  let ?c = "lone_commit (h_Height t + 1) ?b addr (h_Time t + 1) sig"
  have "acceptable_header L t ?u ?c vals (lone_voters addr pk) now drift"
    using forged_header_valid [of t ?vh app] lone_commit_valid [of "h_Height t + 1" ?b addr sig] assms size nv vh r sig
    by (simp add: acceptable_header_def) (simp add: forged_header_def lone_commit_def NewCommit_def sig_bytes_def)
  moreover have "h_Height ?u = wrap64 (h_Height t + 1)" "h_ValidatorsHash ?u = h_NextValidatorsHash t" "h_Height ?u = h_Height t + 1"
    using assms(6,7) by (simp_all add: forged_header_def wrap64_id in64_def int_limits)
  moreover have "c_BlockID ?c = ?b" by (simp add: lone_commit_def NewCommit_def)
  ultimately have "VerifyAdjacent L tsh \<lparr>sh_Header = Some ?u, sh_Commit = Some ?c\<rparr> vals (lone_voters addr pk) period now drift
      = Ret (None, lone_voters addr pk)"
    using VerifyAdjacent_complete [OF assms(5), of "\<lparr>sh_Header = Some ?u, sh_Commit = Some ?c\<rparr>" ?u ?c] lone_VerifyCommitLight [OF bz sig(2)] assms(12)
    by simp
  then show ?thesis by blast
qed

text \<open>The hash of a voter set does not cover the voting weights, which decide whether a commit is accepted.\<close>

lemma VoterSet_Hash_ignores_weights:
  "VoterSet_Hash H m \<lparr>Voters = map (\<lambda>v. v\<lparr>VotingWeight := f v\<rparr>) vs, totalVotingWeight = x\<rparr> = VoterSet_Hash H m \<lparr>Voters = vs, totalVotingWeight = y\<rparr>"
proof -
  have "Validator_Bytes m (v\<lparr>VotingWeight := w\<rparr>) = Validator_Bytes m v" for v w
    by (simp add: Validator_Bytes_def split: option.split sum.split)
  then have "map_go (Validator_Bytes m) (map (\<lambda>v. v\<lparr>VotingWeight := f v\<rparr>) vs) = map_go (Validator_Bytes m) vs"
    by (induction vs) simp_all
  then show ?thesis by (simp add: VoterSet_Hash_def)
qed

section \<open>Examples\<close>

definition ex_lib :: "hashfn \<Rightarrow> chain_lib" where
  "ex_lib H = \<lparr>lib_crypto = ex_crypto, lib_hash = H, lib_time = ex_time, lib_StringValue = (\<lambda>s. Some (bytes_field 0xa s)),
     lib_Int32Value = (\<lambda>n. Some (varint_field 0x8 (uint64_of n))), lib_Int64Value = (\<lambda>n. Some (varint_field 0x8 (uint64_of n))),
     lib_BytesValue = (\<lambda>b. Some (bytes_field 0xa b)), lib_SimpleValidator = (\<lambda>_. [1]), lib_CommitSig = (\<lambda>_. Ret [])\<rparr>"

lemma ex_lib_laws: "wrapper_laws (ex_lib H)"
proof -
  have b: "inj (\<lambda>s. Some (bytes_field 0xa s))"
    using bytes_field_cancel [of "0xa" _ "[]" _ "[]"] by (auto simp: inj_def starts_not_def)
  have i: "a = b" if "varint_field 0x8 (uint64_of a) = varint_field 0x8 (uint64_of b)" "in64 a" "in64 b" for a b
    using varint_field_cancel [of "0x8" "uint64_of a" "[]" "uint64_of b" "[]"] uint64_of_inj that by (simp add: starts_not_def)
  have "inj_on (\<lambda>n. Some (varint_field 0x8 (uint64_of n))) {n. in64 n}" "inj_on (\<lambda>n. Some (varint_field 0x8 (uint64_of n))) {n. in32 n}"
    using i in32_in64 by (auto simp: inj_on_def)
  then show ?thesis using b ex_time_injective
    by (simp add: wrapper_laws_def total_inj_on_def ex_lib_def bytes_field_def)
qed

definition ex_header :: "int64 \<Rightarrow> Time \<Rightarrow> Header" where
  "ex_header height t = \<lparr>h_Version = \<lparr>ver_Block = BlockProtocol, ver_App = 0\<rparr>, h_ChainID = [], h_Height = height, h_Time = t,
     h_LastBlockID = ex_block, h_LastCommitHash = None, h_DataHash = None, h_VotersHash = replicate 32 5,
     h_ValidatorsHash = replicate 32 5, h_NextValidatorsHash = replicate 32 5, h_ConsensusHash = [], h_AppHash = [],
     h_LastResultsHash = [], h_EvidenceHash = None, h_ProposerAddress = replicate 20 0, h_Round = 0, h_Proof = []\<rparr>"

lemma ex_header_valid: "0 < height \<Longrightarrow> Header_ValidateBasic (ex_header height t) = None"
  by (simp add: Header_ValidateBasic_def ex_header_def MaxChainIDLen_def BlockID_ValidateBasic_def PartSetHeader_ValidateBasic_def ex_block_def
      ValidateHash_def tmhash_Size_def sig_bytes_def AddressSize_def TruncatedSize_def ValidateProof_def)

lemma ex_header_Hash:
  assumes "0 \<le> t" and "t < 256"
  shows "\<exists>xs. header_leaves (ex_lib H) (ex_header height t) = Some xs
    \<and> Header_Hash (ex_lib H) (Some (ex_header height t)) = Some (HashFromByteSlices H xs)"
proof -
  obtain b where "ex_time t = Some b" using assms by (auto simp: ex_time_def)
  then show ?thesis by (simp add: Header_Hash_def header_leaves_def) (simp add: ex_header_def ex_lib_def)
qed

definition ex_key :: PubKey where
  "ex_key = PubKeyEd25519 [1]"

definition ex_old_vals :: ValidatorSet where
  "ex_old_vals = \<lparr>Validators = [ex_voter 2 2 5], totalVotingPower = 5\<rparr>"

definition ex_old_vals_hash :: bytes where
  "ex_old_vals_hash = HashFromByteSlices pad_hash [[1]]"

definition ex_trusted_header :: Header where
  "ex_trusted_header = ex_header 7 9\<lparr>h_NextValidatorsHash := ex_old_vals_hash\<rparr>"

definition ex_trusted :: SignedHeader where
  "ex_trusted = \<lparr>sh_Header = Some ex_trusted_header, sh_Commit = None\<rparr>"

lemma ex_trusted_header_simps [simp]:
  "h_Height ex_trusted_header = 7" "h_Time ex_trusted_header = 9" "h_ChainID ex_trusted_header = []"
  "h_NextValidatorsHash ex_trusted_header = ex_old_vals_hash"
  by (simp_all add: ex_trusted_header_def ex_header_def)

lemma ex_forge_facts:
  "\<forall>x. length (lib_hash (ex_lib pad_hash) x) = tmhash_Size"
  "\<forall>bz. \<exists>sig. length sig \<le> MaxSignatureSize \<and> PubKey_VerifySignature (lib_crypto (ex_lib pad_hash)) ex_key bz sig"
  "length (replicate 20 (1 :: byte)) = AddressSize"
  "Validator_Bytes (lib_SimpleValidator (ex_lib pad_hash)) (lone_voter (replicate 20 1) ex_key) = Ret [1]"
  "sh_Header ex_trusted = Some (ex_trusted_header)"
  "ValidatorSet_Hash (lib_hash (ex_lib pad_hash)) (lib_SimpleValidator (ex_lib pad_hash)) ex_old_vals = Ret (h_NextValidatorsHash ex_trusted_header)"
  "lib_time (ex_lib pad_hash) (h_Time ex_trusted_header + 1) = Some [10]"
proof -
  have "PubKey_VerifySignature (lib_crypto (ex_lib pad_hash)) ex_key bz (replicate 64 0)" for bz
    by (simp add: ex_lib_def ex_key_def ex_crypto_def ed25519_VerifySignature_def ed25519_SignatureSize_def)
  moreover have "length (replicate 64 (0 :: byte)) \<le> MaxSignatureSize" by (simp add: MaxSignatureSize_def)
  ultimately show "\<forall>bz. \<exists>sig. length sig \<le> MaxSignatureSize \<and> PubKey_VerifySignature (lib_crypto (ex_lib pad_hash)) ex_key bz sig" by blast
qed (use pad_hash_size in \<open>simp_all add: ex_lib_def ex_key_def AddressSize_def TruncatedSize_def Validator_Bytes_def lone_voter_def
    ex_trusted_def ValidatorSet_Hash_def ex_old_vals_def ex_voter_def ex_old_vals_hash_def ex_time_def\<close>)

lemma ex_forged_accepted:
  "\<exists>vh b sig. VerifyAdjacent (ex_lib pad_hash) ex_trusted \<lparr>sh_Header = Some (forged_header (ex_trusted_header) vh app),
      sh_Commit = Some (lone_commit 8 b (replicate 20 1) 10 sig)\<rparr> ex_old_vals (lone_voters (replicate 20 1) ex_key) 100 50 20
    = Ret (None, lone_voters (replicate 20 1) ex_key)"
  using forged_accepted [OF ex_forge_facts(1-5) _ _ _ ex_forge_facts(6,7), of 50 20 100 app]
  by (simp add: int_limits MaxChainIDLen_def)

section \<open>Properties\<close>

text \<open>
  C10. A header the light client accepts belongs to the trusted chain, is later than the trusted header, which has not
  expired, its commit is for its own hash, the supplied validators and voters have the hashes it names, and supplied voters with
  different addresses signed it whose weight exceeds two thirds of the total weight the supplied set states, in int64
  arithmetic. If that set is well formed (distinct addresses, non-negative weights, the stated total being their sum and bounded),
  which is not checked, they have more than two thirds of its weight. Next to the trusted
  header its validators are the ones the trusted header names; otherwise, if the trusted voter set is well formed,
  distinct trusted voters with more than the trust level of their weight signed it as well. Conditions: the commit repeats no
  address, there are at most 2^31-1 supplied voters, and the trust level fits int64.
\<close>

theorem Light_Verify_sound:
  assumes "Verify L tsh tvoters ush vals voters period now drift level = Ret (None, tvoters', voters')"
    and "int (length (Voters voters)) \<le> MaxInt32"
    and "int (Numerator level) \<le> MaxInt64" and "int (Denominator level) \<le> MaxInt64"
    and "sh_Header tsh = Some t" and "sh_Commit ush = Some c"
    and "distinct (map cs_ValidatorAddress (filter ForBlock (c_Signatures c)))"
  shows "\<exists>u. sh_Header ush = Some u \<and> acceptable_header L t u c vals voters now drift \<and> now < h_Time t + period
    \<and> stated_quorum (lib_crypto L) (lib_time L) (h_ChainID t) c voters
    \<and> (wf_voters voters \<longrightarrow> quorum_signed (lib_crypto L) (lib_time L) (h_ChainID t) c voters (2 * totalVotingWeight voters div 3))
    \<and> (if h_Height u = wrap64 (h_Height t + 1) then h_ValidatorsHash u = h_NextValidatorsHash t
       else wf_voters tvoters \<longrightarrow> quorum_signed (lib_crypto L) (lib_time L) (h_ChainID t) c tvoters
              (totalVotingWeight tvoters * int (Numerator level) div int (Denominator level)))"
proof -
  obtain u where u: "sh_Header ush = Some u" using assms(1) by (auto simp: Verify_def header_of_def split: bind_splits)
  have light: "stated_quorum (lib_crypto L) (lib_time L) (h_ChainID t) c voters"
    if "VerifyCommitLight (lib_crypto L) (lib_time L) (Some voters) (h_ChainID t) (c_BlockID c) (h_Height u) (Some c) = Ret (Some voters', None)"
    using VerifyCommitLight_stated [OF that assms(7,2)] by blast
  show ?thesis
  proof (cases "h_Height u = wrap64 (h_Height t + 1)")
    case True
    then have "VerifyAdjacent L tsh ush vals voters period now drift = Ret (None, voters')"
      using assms(1,5) u by (auto simp: Verify_def header_of_def split: bind_splits)
    from VerifyAdjacent_accepts [OF this assms(5)] show ?thesis using u assms(6) light stated_quorum_wf True by auto
  next
    case False
    then have "VerifyNonAdjacent L tsh tvoters ush vals voters period now drift level = Ret (None, tvoters', voters')"
      using assms(1,5) u by (auto simp: Verify_def header_of_def)
    from VerifyNonAdjacent_accepts [OF this assms(5)] show ?thesis
      using u assms(6) light stated_quorum_wf False VerifyCommitLightTrusting_quorum [OF _ _ assms(3,4)] by auto
  qed
qed

theorem Light_Verify_sound_witness:
  "\<exists>c. quorum_signed ex_crypto ex_time [] c (lone_voters (replicate 20 1) ex_key) 6"
proof -
  let ?t = ex_trusted_header and ?v = "lone_voters (replicate 20 1) ex_key"
  obtain vh b sig where a: "VerifyAdjacent (ex_lib pad_hash) ex_trusted \<lparr>sh_Header = Some (forged_header ?t vh []),
      sh_Commit = Some (lone_commit 8 b (replicate 20 1) 10 sig)\<rparr> ex_old_vals ?v 100 50 20 = Ret (None, ?v)"
    using ex_forged_accepted by blast
  let ?ush = "\<lparr>sh_Header = Some (forged_header ?t vh []), sh_Commit = Some (lone_commit 8 b (replicate 20 1) 10 sig)\<rparr>"
  have "h_Height (forged_header ?t vh []) = wrap64 (h_Height ?t + 1)" by (simp add: forged_header_def wrap64_def)
  then have v: "Verify (ex_lib pad_hash) ex_trusted ?v ?ush ex_old_vals ?v 100 50 20 \<lparr>Numerator = 1, Denominator = 3\<rparr> = Ret (None, ?v, ?v)"
    using a by (simp add: Verify_def header_of_def ex_trusted_def)
  have wf: "wf_voters ?v" by (simp add: wf_voters_def lone_voters_def lone_voter_def sum_weights_def MaxTotalVotingWeight_def max_power)
  have sz: "int (length (Voters ?v)) \<le> MaxInt32" by (simp add: lone_voters_def int_limits)
  have d: "distinct (map cs_ValidatorAddress (filter ForBlock (c_Signatures (lone_commit 8 b (replicate 20 1) 10 sig))))"
    by (simp add: lone_defs)
  have "quorum_signed (lib_crypto (ex_lib pad_hash)) (lib_time (ex_lib pad_hash)) (h_ChainID ?t) (lone_commit 8 b (replicate 20 1) 10 sig) ?v
      (2 * totalVotingWeight ?v div 3)"
    using Light_Verify_sound [OF v sz _ _ ex_forge_facts(5) _ d] wf by (simp add: int_limits)
  then have "quorum_signed ex_crypto ex_time [] (lone_commit 8 b (replicate 20 1) 10 sig) ?v 6"
    by (simp add: ex_lib_def lone_voters_def)
  then show ?thesis by blast
qed

text \<open>
  C11. Next to a trusted header one key of anyone is enough: whoever can sign with some key, which need not belong to
  a validator, can make a header with any application hash that \<^verbatim>\<open>VerifyAdjacent\<close> accepts. The validators must be the
  ones the trusted header names, but nothing relates the voters, who sign the commit, to these validators: the voter
  set is only compared with the hash in the untrusted header itself.
\<close>

theorem VerifyAdjacent_forgeable:
  assumes "\<forall>x. length (lib_hash L x) = tmhash_Size"
    and "\<forall>bz. \<exists>sig. length sig \<le> MaxSignatureSize \<and> PubKey_VerifySignature (lib_crypto L) pk bz sig"
    and "length addr = AddressSize" and "Validator_Bytes (lib_SimpleValidator L) (lone_voter addr pk) = Ret vbz"
    and "sh_Header tsh = Some t" and "0 \<le> h_Height t" and "h_Height t < MaxInt64" and "length (h_ChainID t) \<le> MaxChainIDLen"
    and "ValidatorSet_Hash (lib_hash L) (lib_SimpleValidator L) vals = Ret (h_NextValidatorsHash t)"
    and "lib_time L (h_Time t + 1) = Some ts" and "h_Time t + 1 < now + drift" and "now < h_Time t + period"
  shows "\<exists>ush u voters'. sh_Header ush = Some u \<and> h_AppHash u = app
    \<and> VerifyAdjacent L tsh ush vals (lone_voters addr pk) period now drift = Ret (None, voters')"
proof -
  obtain vh b sig where "VerifyAdjacent L tsh \<lparr>sh_Header = Some (forged_header t vh app),
      sh_Commit = Some (lone_commit (h_Height t + 1) b addr (h_Time t + 1) sig)\<rparr> vals (lone_voters addr pk) period now drift
    = Ret (None, lone_voters addr pk)" using forged_accepted [OF assms] by blast
  moreover have "h_AppHash (forged_header t vh app) = app" by (simp add: forged_header_def)
  ultimately show ?thesis by (metis SignedHeader.select_convs(1))
qed

theorem VerifyAdjacent_forgeable_witness:
  "\<exists>ush u voters'. sh_Header ush = Some u \<and> h_AppHash u = [42]
     \<and> VerifyAdjacent (ex_lib pad_hash) ex_trusted ush ex_old_vals (lone_voters (replicate 20 1) ex_key) 100 50 20 = Ret (None, voters')
     \<and> lone_voter (replicate 20 1) ex_key \<notin> set (Validators ex_old_vals)"
proof -
  have "lone_voter (replicate 20 1) ex_key \<notin> set (Validators ex_old_vals)" by (simp add: lone_voter_def ex_old_vals_def ex_voter_def)
  then show ?thesis
    using VerifyAdjacent_forgeable [OF ex_forge_facts(1-5) _ _ _ ex_forge_facts(6,7), of 50 20 100 "[42]"]
    by (auto simp: int_limits MaxChainIDLen_def)
qed

text \<open>
  C12. Verification backwards is unambiguous: two headers that \<^verbatim>\<open>VerifyBackwards\<close> accepts against the same trusted
  header have the same fields (nil and empty hashes identified), or a concrete collision of the hash is among the
  bytes hashed for them. The last block of the trusted header must have a hash.
\<close>

theorem VerifyBackwards_unique:
  assumes "VerifyBackwards L a t = None" and "VerifyBackwards L b t = None" and "bid_Hash (h_LastBlockID t) \<noteq> []"
    and "wrapper_laws L" and "\<forall>x. length (lib_hash L x) = n" and "header_in_range a" and "header_in_range b"
  shows "header_content a = header_content b \<or> clash (lib_hash L) (header_inputs L a) (header_inputs L b)"
proof -
  have "sig_bytes (Header_Hash L (Some x)) = bid_Hash (h_LastBlockID t)" if "VerifyBackwards L x t = None" for x
    using that by (auto simp: VerifyBackwards_def split: option.splits if_splits)
  then have "sig_bytes (Header_Hash L (Some a)) = bid_Hash (h_LastBlockID t)" "sig_bytes (Header_Hash L (Some b)) = bid_Hash (h_LastBlockID t)"
    using assms(1,2) by blast+
  then obtain r where "Header_Hash L (Some a) = Some r" "Header_Hash L (Some b) = Some r"
    using assms(3) by (auto simp: sig_bytes_def split: option.splits)
  then show ?thesis using Header_Hash_inj [OF assms(4-7)] by blast
qed

theorem VerifyBackwards_unique_witness:
  "\<exists>r. \<forall>b. VerifyBackwards (ex_lib pad_hash) b (ex_header 8 20\<lparr>h_LastBlockID := \<lparr>bid_Hash = r, bid_PartSetHeader = zero_PartSetHeader\<rparr>\<rparr>) = None
     \<longrightarrow> header_in_range b \<longrightarrow> header_content (ex_header 7 9) = header_content b
       \<or> clash pad_hash (header_inputs (ex_lib pad_hash) (ex_header 7 9)) (header_inputs (ex_lib pad_hash) b)"
proof -
  obtain xs where h: "Header_Hash (ex_lib pad_hash) (Some (ex_header 7 9)) = Some (HashFromByteSlices pad_hash xs)"
    using ex_header_Hash [of 9 pad_hash 7] by auto
  let ?r = "HashFromByteSlices pad_hash xs"
  let ?t = "ex_header 8 20\<lparr>h_LastBlockID := \<lparr>bid_Hash = ?r, bid_PartSetHeader = zero_PartSetHeader\<rparr>\<rparr>"
  have hash: "lib_hash (ex_lib pad_hash) = pad_hash" by (simp add: ex_lib_def)
  have "length ?r = tmhash_Size" using HashFromByteSlices_length pad_hash_size by blast
  then have ne: "bid_Hash (h_LastBlockID ?t) \<noteq> []" by (auto simp: tmhash_Size_def)
  have "VerifyBackwards (ex_lib pad_hash) (ex_header 7 9) ?t = None"
    using h by (simp add: VerifyBackwards_def ex_header_valid sig_bytes_def) (simp add: ex_header_def)
  moreover have "header_in_range (ex_header 7 9)" by (simp add: header_in_range_def ex_header_def in32_def in64_def int_limits)
  ultimately show ?thesis
    using VerifyBackwards_unique [of "ex_lib pad_hash" "ex_header 7 9" ?t _ tmhash_Size] ne ex_lib_laws pad_hash_size
    unfolding hash by blast
qed

end
