(* ===== verification/Evidence.thy ===== *)
theory Evidence
  imports Light_Verifier Vote_Set_Safety
begin

text \<open>
  Evidence of misbehaviour (\<^verbatim>\<open>types/evidence.go\<close>) and its verification against the voters of the height
  (\<^verbatim>\<open>evidence/verify.go\<close>). The generated encoders of the evidence messages are parameters.
\<close>

section \<open>Duplicate votes\<close>

record DuplicateVoteEvidence =
  dve_VoteA :: "Vote option"
  dve_VoteB :: "Vote option"
  dve_TotalVotingPower :: int64
  dve_ValidatorPower :: int64
  dve_VotingWeight :: int64
  dve_Timestamp :: Time

record LightClientAttackEvidence =
  lca_ConflictingBlock :: "LightBlock option"
  lca_CommonHeight :: int64
  lca_ByzantineValidators :: "Validator list option"
  lca_TotalVotingPower :: int64
  lca_Timestamp :: Time

record LightClientAttackEvidencePB =
  lcp_ConflictingBlock :: "LightBlockPB option"
  lcp_CommonHeight :: int64
  lcp_ByzantineValidators :: "ValidatorPB list"
  lcp_TotalVotingPower :: int64
  lcp_Timestamp :: Time

datatype Evidence = DuplicateVote DuplicateVoteEvidence | LightClientAttack LightClientAttackEvidence

datatype EvidencePB = DuplicateVotePB DuplicateVoteEvidence | LightClientAttackPB LightClientAttackEvidencePB

record evidence_lib =
  el_chain :: chain_lib
  el_DuplicateVote :: "DuplicateVoteEvidence \<Rightarrow> bytes option"
  el_LightClientAttack :: "LightClientAttackEvidencePB \<Rightarrow> bytes option"

datatype evidence_error =
    MissingVotes | InvalidVoteA types_error | InvalidVoteB types_error | InvalidOrder | NilEvidence
  | ConflictingBlockNil | ConflictingHeaderNil | TotalNotPositive | CommonHeightNotPositive | CommonHeightAhead
  | InvalidConflictingBlock light_error | EvidenceCodec codec_error | EvidenceProto proto_error | NilVote types_error
  | NotAVoter bytes | StepMismatch | AddressMismatch | SameBlockID | KeyAddressMismatch | ValidatorPowerMismatch
  | TotalPowerMismatch | WrongSignatureA | WrongSignatureB
  | SkippingFailed commit_error | HeaderNotDerived | ConflictingCommit commit_error | TimeNotViolated | SameHeader
  | ExpectedNilValidators nat | ByzantineCount nat nat | ByzantineAddress | ByzantinePower | ByzantineWeight

definition NewDuplicateVoteEvidence ::
  "Vote option \<Rightarrow> Vote option \<Rightarrow> Time \<Rightarrow> VoterSet option \<Rightarrow> DuplicateVoteEvidence option go" where
  "NewDuplicateVoteEvidence vote1 vote2 blockTime voterSet = (case (vote1, vote2, voterSet) of
       (Some v1, Some v2, Some voters) \<Rightarrow>
         (case VoterSet_GetByAddress voters (v_ValidatorAddress v1) of (idx, val) \<Rightarrow>
            if idx = -1 then Ret None
            else
              do {
                let (a, b) = (if BlockID_Key (v_BlockID v1) < BlockID_Key (v_BlockID v2) then (v1, v2) else (v2, v1));
                (_, tvw) \<leftarrow> TotalVotingWeight voters;
                v \<leftarrow> val;
                Ret (Some \<lparr>dve_VoteA = Some a, dve_VoteB = Some b, dve_TotalVotingPower = tvw, dve_ValidatorPower = VotingPower v,
                  dve_VotingWeight = VotingWeight v, dve_Timestamp = blockTime\<rparr>)
              })
     | _ \<Rightarrow> Ret None)"

definition DuplicateVoteEvidence_ToProto :: "DuplicateVoteEvidence \<Rightarrow> DuplicateVoteEvidence" where
  "DuplicateVoteEvidence_ToProto dve =
     dve\<lparr>dve_VoteA := map_option Vote_ToProto (dve_VoteA dve), dve_VoteB := map_option Vote_ToProto (dve_VoteB dve)\<rparr>"

definition DuplicateVoteEvidence_ValidateBasic :: "DuplicateVoteEvidence \<Rightarrow> evidence_error option" where
  "DuplicateVoteEvidence_ValidateBasic dve = (case (dve_VoteA dve, dve_VoteB dve) of
       (Some a, Some b) \<Rightarrow>
         (case Vote_ValidateBasic a of
            Some err \<Rightarrow> Some (InvalidVoteA err)
          | None \<Rightarrow>
              (case Vote_ValidateBasic b of
                 Some err \<Rightarrow> Some (InvalidVoteB err)
               | None \<Rightarrow> if BlockID_Key (v_BlockID a) \<ge> BlockID_Key (v_BlockID b) then Some InvalidOrder else None))
     | _ \<Rightarrow> Some MissingVotes)"

definition DuplicateVoteEvidenceFromProto ::
  "DuplicateVoteEvidence option \<Rightarrow> DuplicateVoteEvidence option \<times> evidence_error option" where
  "DuplicateVoteEvidenceFromProto pb = (case pb of
       None \<Rightarrow> (None, Some NilEvidence)
     | Some p \<Rightarrow>
         (case VoteFromProto (dve_VoteA p) of
            (_, Some err) \<Rightarrow> (None, Some (NilVote err))
          | (vA, None) \<Rightarrow>
              (case VoteFromProto (dve_VoteB p) of
                 (_, Some err) \<Rightarrow> (None, Some (NilVote err))
               | (vB, None) \<Rightarrow>
                   let dve = p\<lparr>dve_VoteA := vA, dve_VoteB := vB\<rparr> in (Some dve, DuplicateVoteEvidence_ValidateBasic dve))))"

section \<open>Attacks on light clients\<close>

definition lca_header :: "LightClientAttackEvidence \<Rightarrow> Header go" where
  "lca_header l =
     do {
       lb \<leftarrow> lca_ConflictingBlock l;
       sh \<leftarrow> lb_SignedHeader lb;
       sh_Header sh
     }"

definition lca_commit :: "LightClientAttackEvidence \<Rightarrow> Commit go" where
  "lca_commit l =
     do {
       lb \<leftarrow> lca_ConflictingBlock l;
       sh \<leftarrow> lb_SignedHeader lb;
       sh_Commit sh
     }"

definition ConflictingHeaderIsInvalid :: "LightClientAttackEvidence \<Rightarrow> Header \<Rightarrow> bool go" where
  "ConflictingHeaderIsInvalid l t =
     do {
       h \<leftarrow> lca_header l;
       Ret (h_VotersHash t \<noteq> h_VotersHash h \<or> h_NextValidatorsHash t \<noteq> h_NextValidatorsHash h
         \<or> h_ConsensusHash t \<noteq> h_ConsensusHash h \<or> h_AppHash t \<noteq> h_AppHash h \<or> h_LastResultsHash t \<noteq> h_LastResultsHash h)
     }"

text \<open>
  Sorting compares every element once there are two, and the comparison reads the validators, so that a nil panics. A
  slice that nothing was appended to is nil.
\<close>

definition sort_found :: "Validator option list \<Rightarrow> Validator option list option go" where
  "sort_found vals =
     (if vals = [] then Ret None
      else if length vals = 1 then Ret (Some vals)
      else if None \<in> set vals then Panic
      else Ret (Some (map Some (sort_by ValidatorsByVotingPower (List.map_filter id vals)))))"

fun equivocators :: "VoterSet option \<Rightarrow> CommitSig list \<Rightarrow> CommitSig list \<Rightarrow> Validator option list go" where
  "equivocators voters [] trusted = Ret []"
| "equivocators voters (sigA # sigs) trusted =
     (if Absent sigA then equivocators voters sigs (tl trusted)
      else (case trusted of
          [] \<Rightarrow> Panic
        | sigB # rest \<Rightarrow>
            if Absent sigB then equivocators voters sigs rest
            else do {
              vs \<leftarrow> voters;
              vals \<leftarrow> equivocators voters sigs rest;
              Ret (snd (VoterSet_GetByAddress vs (cs_ValidatorAddress sigA)) # vals)
            }))"

definition GetByzantineValidators ::
  "LightClientAttackEvidence \<Rightarrow> VoterSet \<Rightarrow> SignedHeader \<Rightarrow> Validator option list option go" where
  "GetByzantineValidators l commonVoters trusted =
     do {
       t \<leftarrow> header_of trusted;
       lunatic \<leftarrow> ConflictingHeaderIsInvalid l t;
       c \<leftarrow> lca_commit l;
       if lunatic then
         sort_found (map Some (List.map_filter
           (\<lambda>cs. if ForBlock cs then snd (VoterSet_GetByAddress commonVoters (cs_ValidatorAddress cs)) else None) (c_Signatures c)))
       else do {
         tc \<leftarrow> sh_Commit trusted;
         if c_Round tc = c_Round c then
           do {
             lb \<leftarrow> lca_ConflictingBlock l;
             vals \<leftarrow> equivocators (lb_VoterSet lb) (c_Signatures c) (c_Signatures tc);
             sort_found vals
           }
         else Ret None
       }
     }"

definition LightClientAttackEvidence_ValidateBasic :: "chain_lib \<Rightarrow> LightClientAttackEvidence \<Rightarrow> evidence_error option go" where
  "LightClientAttackEvidence_ValidateBasic L l = (case lca_ConflictingBlock l of
       None \<Rightarrow> Ret (Some ConflictingBlockNil)
     | Some lb \<Rightarrow>
         do {
           sh \<leftarrow> lb_SignedHeader lb;
           (case sh_Header sh of
              None \<Rightarrow> Ret (Some ConflictingHeaderNil)
            | Some h \<Rightarrow>
                if lca_TotalVotingPower l \<le> 0 then Ret (Some TotalNotPositive)
                else if lca_CommonHeight l \<le> 0 then Ret (Some CommonHeightNotPositive)
                else if lca_CommonHeight l > h_Height h then Ret (Some CommonHeightAhead)
                else do {
                  err \<leftarrow> LightBlock_ValidateBasic L lb (h_ChainID h);
                  Ret (map_option InvalidConflictingBlock err)
                })
         })"

definition LightClientAttackEvidence_ToProto ::
  "LightClientAttackEvidence \<Rightarrow> evidence_error + LightClientAttackEvidencePB" where
  "LightClientAttackEvidence_ToProto l =
     (case (case lca_ConflictingBlock l of None \<Rightarrow> Inr None | Some lb \<Rightarrow> map_sum EvidenceProto Some (LightBlock_ToProto lb)) of
        Inl err \<Rightarrow> Inl err
      | Inr conflictingBlock \<Rightarrow>
          (case validators_ToProto (case lca_ByzantineValidators l of None \<Rightarrow> [] | Some vals \<Rightarrow> vals) of
             Inl err \<Rightarrow> Inl (EvidenceCodec err)
           | Inr byzVals \<Rightarrow>
               Inr \<lparr>lcp_ConflictingBlock = conflictingBlock, lcp_CommonHeight = lca_CommonHeight l,
                 lcp_ByzantineValidators = byzVals, lcp_TotalVotingPower = lca_TotalVotingPower l,
                 lcp_Timestamp = lca_Timestamp l\<rparr>))"

definition LightClientAttackEvidenceFromProto ::
  "chain_lib \<Rightarrow> LightClientAttackEvidencePB option \<Rightarrow> (LightClientAttackEvidence option \<times> evidence_error option) go" where
  "LightClientAttackEvidenceFromProto L lpb = (case lpb of
       None \<Rightarrow> Ret (None, Some NilEvidence)
     | Some p \<Rightarrow>
         do {
           block \<leftarrow> LightBlockFromProto (lcp_ConflictingBlock p);
           (case block of
              Inl err \<Rightarrow> Ret (None, Some (EvidenceProto err))
            | Inr lb \<Rightarrow>
                do {
                  vals \<leftarrow> validators_FromProto (lcp_ByzantineValidators p);
                  (case vals of
                     Inl err \<Rightarrow> Ret (None, Some (EvidenceCodec err))
                   | Inr byzVals \<Rightarrow>
                       do {
                         let l = \<lparr>lca_ConflictingBlock = Some lb, lca_CommonHeight = lcp_CommonHeight p,
                           lca_ByzantineValidators = Some byzVals, lca_TotalVotingPower = lcp_TotalVotingPower p,
                           lca_Timestamp = lcp_Timestamp p\<rparr>;
                         err \<leftarrow> LightClientAttackEvidence_ValidateBasic L l;
                         Ret (Some l, err)
                       })
                })
         })"

definition PutVarint :: "int64 \<Rightarrow> bytes" where
  "PutVarint x =
     (let ux = push_bit 1 (word_of_int x :: uint64)
      in uvarint (unat (if x < 0 then NOT ux else ux)))"

text \<open>The copy of the header's hash ends one byte early.\<close>

definition LightClientAttackEvidence_Hash :: "chain_lib \<Rightarrow> LightClientAttackEvidence \<Rightarrow> bytes go" where
  "LightClientAttackEvidence_Hash L l =
     do {
       h \<leftarrow> lca_header l;
       let hash = take (tmhash_Size - 1) (sig_bytes (Header_Hash L (Some h)));
       Ret (lib_hash L (hash @ replicate (tmhash_Size - length hash) 0 @ PutVarint (lca_CommonHeight l)))
     }"

section \<open>Evidence\<close>

fun Evidence_Bytes :: "evidence_lib \<Rightarrow> Evidence \<Rightarrow> bytes go" where
  "Evidence_Bytes E (DuplicateVote dve) = el_DuplicateVote E (DuplicateVoteEvidence_ToProto dve)"
| "Evidence_Bytes E (LightClientAttack l) = (case LightClientAttackEvidence_ToProto l of
       Inl err \<Rightarrow> Panic
     | Inr pb \<Rightarrow> el_LightClientAttack E pb)"

fun Evidence_Hash :: "evidence_lib \<Rightarrow> Evidence \<Rightarrow> bytes go" where
  "Evidence_Hash E (DuplicateVote dve) = do { bz \<leftarrow> Evidence_Bytes E (DuplicateVote dve); Ret (lib_hash (el_chain E) bz) }"
| "Evidence_Hash E (LightClientAttack l) = LightClientAttackEvidence_Hash (el_chain E) l"

fun Evidence_Height :: "Evidence \<Rightarrow> int64 go" where
  "Evidence_Height (DuplicateVote dve) = do { a \<leftarrow> dve_VoteA dve; Ret (v_Height a) }"
| "Evidence_Height (LightClientAttack l) = Ret (lca_CommonHeight l)"

fun Evidence_Time :: "Evidence \<Rightarrow> Time" where
  "Evidence_Time (DuplicateVote dve) = dve_Timestamp dve"
| "Evidence_Time (LightClientAttack l) = lca_Timestamp l"

fun Evidence_ValidateBasic :: "chain_lib \<Rightarrow> Evidence \<Rightarrow> evidence_error option go" where
  "Evidence_ValidateBasic L (DuplicateVote dve) = Ret (DuplicateVoteEvidence_ValidateBasic dve)"
| "Evidence_ValidateBasic L (LightClientAttack l) = LightClientAttackEvidence_ValidateBasic L l"

definition EvidenceList_Hash :: "evidence_lib \<Rightarrow> Evidence list \<Rightarrow> bytes go" where
  "EvidenceList_Hash E evl =
     do {
       evidenceBzs \<leftarrow> map_go (Evidence_Bytes E) evl;
       Ret (HashFromByteSlices (lib_hash (el_chain E)) evidenceBzs)
     }"

fun EvidenceToProto :: "Evidence \<Rightarrow> evidence_error + EvidencePB" where
  "EvidenceToProto (DuplicateVote dve) = Inr (DuplicateVotePB (DuplicateVoteEvidence_ToProto dve))"
| "EvidenceToProto (LightClientAttack l) = map_sum id LightClientAttackPB (LightClientAttackEvidence_ToProto l)"

fun EvidenceFromProto :: "chain_lib \<Rightarrow> EvidencePB \<Rightarrow> (Evidence option \<times> evidence_error option) go" where
  "EvidenceFromProto L (DuplicateVotePB p) =
     (case DuplicateVoteEvidenceFromProto (Some p) of (dve, err) \<Rightarrow> Ret (map_option DuplicateVote dve, err))"
| "EvidenceFromProto L (LightClientAttackPB p) =
     do {
       (l, err) \<leftarrow> LightClientAttackEvidenceFromProto L (Some p);
       Ret (map_option LightClientAttack l, err)
     }"

section \<open>Verification\<close>

definition VerifyDuplicateVote ::
  "crypto_lib \<Rightarrow> time_encoder \<Rightarrow> DuplicateVoteEvidence \<Rightarrow> bytes \<Rightarrow> VoterSet \<Rightarrow> evidence_error option go" where
  "VerifyDuplicateVote C T e chainID voterSet =
     do {
       a \<leftarrow> dve_VoteA e;
       (case snd (VoterSet_GetByAddress voterSet (v_ValidatorAddress a)) of
          None \<Rightarrow> Ret (Some (NotAVoter (v_ValidatorAddress a)))
        | Some val \<Rightarrow>
            do {
              b \<leftarrow> dve_VoteB e;
              if v_Height a \<noteq> v_Height b \<or> v_Round a \<noteq> v_Round b \<or> v_Type a \<noteq> v_Type b then Ret (Some StepMismatch)
              else if v_ValidatorAddress a \<noteq> v_ValidatorAddress b then Ret (Some AddressMismatch)
              else if BlockID_Equals (v_BlockID a) (v_BlockID b) then Ret (Some SameBlockID)
              else do {
                pubKey \<leftarrow> PubKey val;
                addr \<leftarrow> PubKey_Address C pubKey;
                if addr \<noteq> v_ValidatorAddress a then Ret (Some KeyAddressMismatch)
                else if VotingPower val \<noteq> dve_ValidatorPower e then Ret (Some ValidatorPowerMismatch)
                else do {
                  (_, tvw) \<leftarrow> TotalVotingWeight voterSet;
                  if tvw \<noteq> dve_TotalVotingPower e then Ret (Some TotalPowerMismatch)
                  else do {
                    bzA \<leftarrow> VoteSignBytes T chainID (Vote_ToProto a);
                    if \<not> PubKey_VerifySignature C pubKey bzA (sig_bytes (v_Signature a)) then Ret (Some WrongSignatureA)
                    else do {
                      bzB \<leftarrow> VoteSignBytes T chainID (Vote_ToProto b);
                      if \<not> PubKey_VerifySignature C pubKey bzB (sig_bytes (v_Signature b)) then Ret (Some WrongSignatureB)
                      else Ret None
                    }
                  }
                }
              }
            })
     }"

fun check_byzantine :: "Validator option list \<Rightarrow> Validator list \<Rightarrow> evidence_error option go" where
  "check_byzantine [] evs = Ret None"
| "check_byzantine (v # vs) evs =
     (case evs of
        [] \<Rightarrow> Panic
      | ev # rest \<Rightarrow>
          do {
            val \<leftarrow> v;
            if Address ev \<noteq> Address val then Ret (Some ByzantineAddress)
            else if VotingPower ev \<noteq> VotingPower val then Ret (Some ByzantinePower)
            else if VotingWeight ev \<noteq> VotingWeight val then Ret (Some ByzantineWeight)
            else check_byzantine vs rest
          })"

definition validateABCIEvidence ::
  "LightClientAttackEvidence \<Rightarrow> VoterSet \<Rightarrow> SignedHeader \<Rightarrow> evidence_error option go" where
  "validateABCIEvidence ev commonVoter trustedHeader =
     do {
       validators \<leftarrow> GetByzantineValidators ev commonVoter trustedHeader;
       let found = (case validators of None \<Rightarrow> [] | Some vals \<Rightarrow> vals);
       let listed = (case lca_ByzantineValidators ev of None \<Rightarrow> [] | Some vals \<Rightarrow> vals);
       if validators = None \<and> lca_ByzantineValidators ev \<noteq> None then Ret (Some (ExpectedNilValidators (length listed)))
       else if length found \<noteq> length listed then Ret (Some (ByzantineCount (length found) (length listed)))
       else check_byzantine found listed
     }"

definition DefaultTrustLevel :: Fraction where
  "DefaultTrustLevel = \<lparr>Numerator = 1, Denominator = 3\<rparr>"

definition VerifyLightClientAttack ::
  "chain_lib \<Rightarrow> LightClientAttackEvidence \<Rightarrow> SignedHeader \<Rightarrow> SignedHeader \<Rightarrow> VoterSet \<Rightarrow> evidence_error option go" where
  "VerifyLightClientAttack L e commonHeader trustedHeader commonVoters =
     do {
       ch \<leftarrow> header_of commonHeader;
       h \<leftarrow> lca_header e;
       t \<leftarrow> header_of trustedHeader;
       (commonVoters, jump) \<leftarrow>
         (if h_Height ch \<noteq> h_Height h then
            do {
              c \<leftarrow> lca_commit e;
              (voters, err) \<leftarrow> VerifyCommitLightTrusting (lib_crypto L) (lib_time L) commonVoters (h_ChainID t) c DefaultTrustLevel;
              Ret (voters, map_option SkippingFailed err)
            }
          else
            do {
              invalid \<leftarrow> ConflictingHeaderIsInvalid e t;
              Ret (commonVoters, if invalid then Some HeaderNotDerived else None)
            });
       if jump \<noteq> None then Ret jump
       else do {
         lb \<leftarrow> lca_ConflictingBlock e;
         c \<leftarrow> lca_commit e;
         (_, err) \<leftarrow> VerifyCommitLight (lib_crypto L) (lib_time L) (lb_VoterSet lb) (h_ChainID t) (c_BlockID c) (h_Height h) (Some c);
         (case err of
            Some err \<Rightarrow> Ret (Some (ConflictingCommit err))
          | None \<Rightarrow>
              do {
                (_, votersTotal) \<leftarrow> TotalVotingWeight commonVoters;
                if lca_TotalVotingPower e \<noteq> votersTotal then Ret (Some TotalPowerMismatch)
                else if h_Height h > h_Height t \<and> h_Time h > h_Time t then Ret (Some TimeNotViolated)
                else if sig_bytes (Header_Hash L (Some t)) = sig_bytes (Header_Hash L (Some h)) then Ret (Some SameHeader)
                else validateABCIEvidence e commonVoters trustedHeader
              })
       }
     }"

section \<open>Reported conflicts\<close>

lemma addVote_conflict:
  assumes res: "addVote vs (Some vote) exec = Ret (vs', added, Some (ErrVoteConflictingVotes a b))"
    and noerr: "\<forall>c d. exec vote (vset_chainID vs) k \<noteq> Ret (Some (ErrVoteConflictingVotes c d))" and adm: "admissible vs vote"
    and i: "v_ValidatorIndex vote = int i" and k: "k = PubKey (Voters (vset_voterSet vs) ! i)"
  shows "b = vote \<and> exec vote (vset_chainID vs) k = Ret None \<and> i < length (votes vs) \<and> votes vs ! i = Some a
    \<and> \<not> BlockID_Equals (v_BlockID a) (v_BlockID vote)"
proof -
  have "verify_and_add exec vs vote (Voters (vset_voterSet vs) ! i) = Ret (vs', added, Some (ErrVoteConflictingVotes a b))"
    using res addVote_admissible [OF adm i, of exec] by (auto split: bind_splits option.splits if_splits)
  then obtain w where e: "exec vote (vset_chainID vs) k = Ret None" and b: "b = vote"
      and av: "addVerifiedVote vs vote (BlockID_Key (v_BlockID vote)) w = Ret (vs', added, Some a)"
    using noerr k by (auto simp: verify_and_add_def split: bind_splits option.splits if_splits)
  obtain vs1 where "place_vote vs vote (BlockID_Key (v_BlockID vote)) w = Ret (vs1, Some a)"
    using av by (auto simp: addVerifiedVote_def Let_def split: bind_splits if_splits)
  then have "i < length (votes vs) \<and> votes vs ! i = Some a \<and> \<not> BlockID_Equals (v_BlockID a) (v_BlockID vote)"
    using i by (auto simp: place_vote_def split: bind_splits option.splits if_splits)
  then show ?thesis using e b by blast
qed

lemma GetByAddress_nth:
  assumes "distinct (map Address (Voters voters))" and "i < length (Voters voters)" and "int (length (Voters voters)) \<le> MaxInt32"
  shows "VoterSet_GetByAddress voters (Address (Voters voters ! i)) = (int i, Some (Voters voters ! i))"
proof -
  have "find_address k vs (Address (vs ! i)) = (wrap32 (int (k + i)), Some (vs ! i))"
    if "distinct (map Address vs)" "i < length vs" for k i and vs :: "Validator list"
    using that
  proof (induction vs arbitrary: k i)
    case (Cons v vs)
    show ?case
    proof (cases i)
      case (Suc j)
      then have "Address (vs ! j) \<in> Address ` set vs" using Cons.prems by auto
      then have "Address v \<noteq> Address (vs ! j)" using Cons.prems by auto
      then show ?thesis using Cons Suc by (simp add: add.assoc)
    qed simp
  qed simp
  then show ?thesis using assms by (simp add: VoterSet_GetByAddress_def wrap32_id in32_def int_limits)
qed

lemma VerifyDuplicateVote_accepts:
  assumes wf: "wf_voters voters" and d: "distinct (map Address (Voters voters))" and n: "int (length (Voters voters)) \<le> MaxInt32"
    and i: "i < length (Voters voters)" and addr: "v_ValidatorAddress a = Address (Voters voters ! i)" "v_ValidatorAddress b = Address (Voters voters ! i)"
    and step: "v_Height a = v_Height b" "v_Round a = v_Round b" "v_Type a = v_Type b" and ne: "v_BlockID a \<noteq> v_BlockID b"
    and ver: "exec_verify C T a chainID (PubKey (Voters voters ! i)) = Ret None" "exec_verify C T b chainID (PubKey (Voters voters ! i)) = Ret None"
    and e: "dve_VoteA e = Some a" "dve_VoteB e = Some b" "dve_ValidatorPower e = VotingPower (Voters voters ! i)"
      "dve_TotalVotingPower e = totalVotingWeight voters"
  shows "VerifyDuplicateVote C T e chainID voters = Ret None"
  using assms GetByAddress_nth [OF d i n] TotalVotingWeight_cached [OF wf] unfolding exec_verify_Ret VerifyDuplicateVote_def
  by (auto simp: BlockID_Equals_iff)

lemma NewDuplicateVoteEvidence_found:
  assumes wf: "wf_voters voters" and d: "distinct (map Address (Voters voters))" and n: "int (length (Voters voters)) \<le> MaxInt32"
    and i: "i < length (Voters voters)" and addr: "v_ValidatorAddress a = Address (Voters voters ! i)"
  shows "NewDuplicateVoteEvidence (Some a) (Some b) t (Some voters) = Ret (Some
    \<lparr>dve_VoteA = Some (if BlockID_Key (v_BlockID a) < BlockID_Key (v_BlockID b) then a else b),
     dve_VoteB = Some (if BlockID_Key (v_BlockID a) < BlockID_Key (v_BlockID b) then b else a),
     dve_TotalVotingPower = totalVotingWeight voters, dve_ValidatorPower = VotingPower (Voters voters ! i),
     dve_VotingWeight = VotingWeight (Voters voters ! i), dve_Timestamp = t\<rparr>)"
  using addr GetByAddress_nth [OF d i n] TotalVotingWeight_cached [OF wf] by (simp add: NewDuplicateVoteEvidence_def)

lemma Vote_ValidateBasic_proper: "Vote_ValidateBasic v = None \<Longrightarrow> proper_BlockID (v_BlockID v)"
  by (auto simp: Vote_ValidateBasic_def proper_BlockID_def split: if_splits option.splits)

lemma verifier_True:
  "verifier C T False v chainID pk = Ret None \<longleftrightarrow> proper_BlockID (v_BlockID v) \<and> exec_verify C T v chainID pk = Ret None"
  by (simp add: verifier_def proper_exec_def)

lemma exec_verify_no_conflict: "exec_verify C T v chainID pk \<noteq> Ret (Some (ErrVoteConflictingVotes a b))"
  by (auto simp: exec_verify_def Vote_Verify_def split: option.splits bind_splits if_splits)

lemma conflict_facts:
  assumes "reachable C T False vs" and "AddVote C T (Some vs) (Some vote) = Ret (vs', added, Some (ErrVoteConflictingVotes a b))"
  obtains i where "b = vote" and "i < num_voters (vset_voterSet vs)" and "v_ValidatorAddress a = Address (Voters (vset_voterSet vs) ! i)"
    and "v_ValidatorAddress b = Address (Voters (vset_voterSet vs) ! i)" and "v_Height a = v_Height b" and "v_Round a = v_Round b"
    and "v_Type a = v_Type b" and "v_BlockID a \<noteq> v_BlockID b"
    and "exec_verify C T a (vset_chainID vs) (PubKey (Voters (vset_voterSet vs) ! i)) = Ret None"
    and "exec_verify C T b (vset_chainID vs) (PubKey (Voters (vset_voterSet vs) ! i)) = Ret None"
proof -
  have wf: "wf_voteSet (verifier C T False) vs" using reachable_wf [OF assms(1)] by blast
  have res: "addVote vs (Some vote) (exec_verify C T) = Ret (vs', added, Some (ErrVoteConflictingVotes a b))"
    using assms(2) by (simp add: AddVote_def)
  have adm: "admissible vs vote"
  proof (rule ccontr)
    assume n: "\<not> admissible vs vote"
    then show False using res
      by (auto simp: addVote_def admissible_def Let_def VoterSet_GetByIndex_def num_voters_def sig_bytes_def nat_less_iff split: if_splits)
  qed
  then obtain i where i: "v_ValidatorIndex vote = int i" by (auto simp: admissible_def dest: nonneg_int_cases)
  have iv: "i < num_voters (vset_voterSet vs)" using adm i by (simp add: admissible_def)
  have c: "b = vote" "exec_verify C T vote (vset_chainID vs) (PubKey (Voters (vset_voterSet vs) ! i)) = Ret None"
      "votes vs ! i = Some a" "i < length (votes vs)" "v_BlockID a \<noteq> v_BlockID vote"
    using addVote_conflict [OF res _ adm i refl] exec_verify_no_conflict BlockID_Equals_iff by blast+
  have g: "good_vote (verifier C T False) vs i a" using wf c(3,4) by (simp add: wf_voteSet_def)
  show ?thesis
    by (rule that [of i]) (use c iv g adm i in \<open>simp_all add: good_vote_def admissible_def verifier_True\<close>)
qed

lemma addVote_conflicts:
  assumes wf: "wf_voteSet exec vs" and st: "stronger exec' exec" and adm: "admissible vs vote" and i: "v_ValidatorIndex vote = int i"
    and ver: "exec' vote (vset_chainID vs) (PubKey (Voters (vset_voterSet vs) ! i)) = Ret None"
    and new: "getVote vs (int i) (BlockID_Key (v_BlockID vote)) = Ret None" and old: "votes vs ! i = Some e"
  shows "\<exists>vs' added. addVote vs (Some vote) exec' = Ret (vs', added, Some (ErrVoteConflictingVotes e vote))"
proof -
  have iv: "i < num_voters (vset_voterSet vs)" using adm i by (simp add: admissible_def)
  have good: "good_vote exec vs i vote" using adm i ver st by (simp add: good_vote_def admissible_def stronger_def)
  obtain vs' added c where a: "addVerifiedVote vs vote (BlockID_Key (v_BlockID vote)) (voter_weight (vset_voterSet vs) i) = Ret (vs', added, c)"
      "c = votes vs ! i"
    using addVerifiedVote_spec [OF wf iv good refl new] by (elim exE conjE) (rule that)
  then show ?thesis unfolding addVote_admissible [OF adm i] new using ver old
    by (simp add: verify_and_add_def voter_weight_def)
qed

lemma getVote_key:
  assumes "getVote vs (int i) key = Ret (Some e)" and "wf_voteSet exec vs" and "i < num_voters (vset_voterSet vs)"
  shows "BlockID_Key (v_BlockID e) = key"
proof -
  have "index (votes vs) (int i) = Ret (votes vs ! i)" using assms by (simp add: wf_voteSet_def)
  note assms(1) [unfolded getVote_def this bind.simps]
  then consider "BlockID_Key (v_BlockID e) = key" | bv where "votesByBlock vs key = Some bv" "index (bv_votes bv) (int i) = Ret (Some e)"
    by (auto simp: blockVotes_getByIndex_def split: option.splits if_splits)
  then show ?thesis
  proof cases
    case 2
    then have "wf_blockVotes exec vs key bv" using assms(2) by (simp add: wf_voteSet_def)
    then show ?thesis using 2(2) by (auto simp: wf_blockVotes_def)
  qed simp
qed

lemma ex_conflict:
  obtains vs vs' added a where "reachable live_crypto ex_time False vs" and "vset_voterSet vs = ex_electorate" and "vset_chainID vs = []"
    and "AddVote live_crypto ex_time (Some vs) (Some (ex_ballot ex_block2)) = Ret (vs', added, Some (ErrVoteConflictingVotes a (ex_ballot ex_block2)))"
    and "v_BlockID a = ex_block"
proof -
  have one: "ex_block \<in> {ex_block, ex_block2}" and two: "ex_block2 \<in> {ex_block, ex_block2}" by simp_all
  obtain vs where vs: "reachable live_crypto ex_time False vs" "loyal {0} ex_block vs" "same_step ex_set vs"
      "\<forall>i v. Receive v \<in> set [Receive (ex_ballot ex_block)] \<longrightarrow> valid_vote live_crypto ex_time ex_set i ex_block v \<longrightarrow> i \<in> occupied (votes vs)"
    using run_events_loyal [OF ex_set_reachable ex_set_loyal, of ex_block "[Receive (ex_ballot ex_block)]" "{0}"]
      ex_blocks [OF one] ex_event_ok(1) [OF one] by auto
  have wf: "wf_voteSet (verifier live_crypto ex_time False) vs" using reachable_wf [OF vs(1)] by blast
  have same: "vset_voterSet vs = ex_electorate" "vset_chainID vs = []" "vset_height vs = 7" "vset_round vs = 1" "vset_type vs = PrecommitType"
    using vs(3) by (simp_all add: same_step_def)
  have "0 \<in> occupied (votes vs)" using vs(4) ex_event_ok(2) [OF one] by auto
  then obtain a where a: "votes vs ! 0 = Some a" "a \<in> stored vs" "v_ValidatorIndex a = 0" using occupied_stored [OF _ wf, of 0] by auto
  then have ab: "v_BlockID a = ex_block" using vs(2) by (simp add: loyal_def)
  have ne: "ex_block \<noteq> ex_block2" by (simp add: ex_block_def ex_block2_def)
  obtain r where r: "getVote vs (int 0) (BlockID_Key ex_block2) = Ret r" using getVote_total [OF wf, of 0] same by auto
  have rn: "r = None"
  proof (cases r)
    case (Some e)
    have "e \<in> stored vs" "v_ValidatorIndex e = 0" using getVote_stored [OF r [unfolded Some] wf] same by auto
    then have eb: "v_BlockID e = ex_block" using vs(2) by (simp add: loyal_def)
    have "BlockID_Key (v_BlockID e) = BlockID_Key ex_block2" using getVote_key [OF r [unfolded Some] wf] same by simp
    then have "ex_block = ex_block2" using BlockID_Key_inj [of ex_block ex_block2] ex_blocks [OF one] ex_blocks [OF two] eb by simp
    then show ?thesis using ne by simp
  qed simp
  have i0: "v_ValidatorIndex (ex_ballot ex_block2) = int 0" by (simp add: ex_ballot_def)
  have adm: "admissible vs (ex_ballot ex_block2)" using same by (simp add: admissible_def ex_ballot_def) (simp add: ex_electorate_def ex_member_def)
  have st: "stronger (proper_exec (exec_verify live_crypto ex_time)) (verifier live_crypto ex_time False)" by (rule verifier_stronger)
  have ver: "proper_exec (exec_verify live_crypto ex_time) (ex_ballot ex_block2) (vset_chainID vs) (PubKey (Voters (vset_voterSet vs) ! 0)) = Ret None"
    using ex_ballot_exec [OF two, of 1 30] ex_blocks [OF two] same by (simp add: proper_exec_def ex_electorate_def) (simp add: ex_ballot_def)
  have key: "v_BlockID (ex_ballot ex_block2) = ex_block2" by (simp add: ex_ballot_def)
  obtain vs' added where "addVote vs (Some (ex_ballot ex_block2)) (proper_exec (exec_verify live_crypto ex_time))
      = Ret (vs', added, Some (ErrVoteConflictingVotes a (ex_ballot ex_block2)))"
    using addVote_conflicts [OF wf st adm i0 ver _ a(1)] r [unfolded rn] key by metis
  moreover have "proper_vote (Some (ex_ballot ex_block2))" using ex_blocks [OF two] by (simp add: proper_vote_def ex_ballot_def)
  ultimately have "AddVote live_crypto ex_time (Some vs) (Some (ex_ballot ex_block2))
      = Ret (vs', added, Some (ErrVoteConflictingVotes a (ex_ballot ex_block2)))"
    using proper_exec_add [of "Some (ex_ballot ex_block2)" vs "exec_verify live_crypto ex_time"] by (simp add: AddVote_def)
  then show ?thesis using that [OF vs(1) same(1,2)] ab by blast
qed

section \<open>Transport of amnesia evidence\<close>

lemma transported_validators:
  assumes "LightClientAttackEvidence_ToProto l = Inr p" and "LightClientAttackEvidenceFromProto L (Some p) = Ret (Some l', err)"
    and "lca_ByzantineValidators l = None"
  shows "lca_ByzantineValidators l' = Some []"
  using assms by (auto simp: LightClientAttackEvidence_ToProto_def LightClientAttackEvidenceFromProto_def Let_def split: sum.splits bind_splits)

lemma amnesia_no_validators:
  assumes "sh_Header trusted = Some t" and "ConflictingHeaderIsInvalid l t = Ret False" and "lca_commit l = Ret c"
    and "sh_Commit trusted = Some tc" and "c_Round tc \<noteq> c_Round c"
  shows "GetByzantineValidators l voters trusted = Ret None"
  using assms by (simp add: GetByzantineValidators_def header_of_def)

lemma VerifyLightClientAttack_last:
  assumes "VerifyLightClientAttack L e common trusted voters = Ret None"
  shows "\<exists>voters'. validateABCIEvidence e voters' trusted = Ret None"
  using assms by (auto simp: VerifyLightClientAttack_def split: bind_splits if_splits option.splits) blast+

definition ex_amnesia_val :: Validator where
  "ex_amnesia_val = lone_voter (replicate 20 1) (PubKeyEd25519 (replicate 32 1))"

definition ex_amnesia_header :: Header where
  "ex_amnesia_header = ex_header 7 9\<lparr>h_VotersHash := ex_old_vals_hash, h_ValidatorsHash := ex_old_vals_hash\<rparr>"

definition ex_amnesia_id :: BlockID where
  "ex_amnesia_id = \<lparr>bid_Hash = sig_bytes (Header_Hash (ex_lib pad_hash) (Some ex_amnesia_header)), bid_PartSetHeader = zero_PartSetHeader\<rparr>"

definition ex_amnesia_block :: LightBlock where
  "ex_amnesia_block = \<lparr>lb_SignedHeader = Some \<lparr>sh_Header = Some ex_amnesia_header,
       sh_Commit = Some (lone_commit 7 ex_amnesia_id (replicate 20 1) 9 (replicate 64 0))\<rparr>,
     lb_ValidatorSet = Some \<lparr>Validators = [ex_amnesia_val], totalVotingPower = 10\<rparr>,
     lb_VoterSet = Some \<lparr>Voters = [ex_amnesia_val], totalVotingWeight = 10\<rparr>\<rparr>"

definition ex_amnesia :: LightClientAttackEvidence where
  "ex_amnesia = \<lparr>lca_ConflictingBlock = Some ex_amnesia_block, lca_CommonHeight = 7, lca_ByzantineValidators = None,
     lca_TotalVotingPower = 10, lca_Timestamp = 9\<rparr>"

lemma ex_amnesia_valid:
  "BlockID_ValidateBasic ex_block = None" "BlockID_ValidateBasic ex_amnesia_id = None" "Header_ValidateBasic ex_amnesia_header = None"
  "Commit_ValidateBasic (lone_commit 7 ex_amnesia_id (replicate 20 1) 9 (replicate 64 0)) = None"
proof -
  let ?h = "sig_bytes (Header_Hash (ex_lib pad_hash) (Some ex_amnesia_header))"
  have oh: "length ex_old_vals_hash = 32"
    using HashFromByteSlices_length [OF pad_hash_size] by (simp add: ex_old_vals_hash_def tmhash_Size_def)
  have hh: "length ?h = tmhash_Size"
    using HashFromByteSlices_length [OF pad_hash_size] oh
    by (auto simp: Header_Hash_def ex_amnesia_header_def ex_header_def header_leaves_def ex_lib_def ex_time_def sig_bytes_def)
  have bv: "BlockID_ValidateBasic ex_block = None" "BlockID_ValidateBasic ex_amnesia_id = None"
    using hh by (simp_all add: BlockID_ValidateBasic_def PartSetHeader_ValidateBasic_def ValidateHash_def ex_block_def ex_amnesia_id_def
        zero_PartSetHeader_def tmhash_Size_def)
  have hv: "Header_ValidateBasic ex_amnesia_header = None"
    using oh bv(1) by (simp add: ex_amnesia_header_def Header_ValidateBasic_def ex_header_def ValidateHash_def tmhash_Size_def MaxChainIDLen_def
        sig_bytes_def AddressSize_def TruncatedSize_def ValidateProof_def)
  have cv: "Commit_ValidateBasic (lone_commit 7 ex_amnesia_id (replicate 20 1) 9 (replicate 64 0)) = None"
    by (rule lone_commit_valid) (use hh in \<open>simp_all add: ex_amnesia_id_def AddressSize_def TruncatedSize_def MaxSignatureSize_def\<close>)
  show "BlockID_ValidateBasic ex_block = None" "BlockID_ValidateBasic ex_amnesia_id = None" "Header_ValidateBasic ex_amnesia_header = None"
    "Commit_ValidateBasic (lone_commit 7 ex_amnesia_id (replicate 20 1) 9 (replicate 64 0)) = None"
    using bv hv cv by simp_all
qed

lemma ex_amnesia_transport:
  "\<exists>p. LightClientAttackEvidence_ToProto ex_amnesia = Inr p
    \<and> LightClientAttackEvidenceFromProto (ex_lib pad_hash) (Some p) = Ret (Some (ex_amnesia\<lparr>lca_ByzantineValidators := Some []\<rparr>), None)"
proof -
  let ?L = "ex_lib pad_hash"
  have h1: "HeaderFromProto (Header_ToProto (Some ex_amnesia_header)) = Inr (ex_amnesia_header, None)"
    using ex_amnesia_valid(1) ex_amnesia_valid(3) by (simp add: HeaderFromProto_def Header_ToProto_def BlockIDFromProto_valid ex_amnesia_header_def ex_header_def Let_def)
  have c1: "CommitFromProto (Commit_ToProto (Some (lone_commit 7 ex_amnesia_id (replicate 20 1) 9 (replicate 64 0))))
      = (Some (lone_commit 7 ex_amnesia_id (replicate 20 1) 9 (replicate 64 0)), None)"
    using ex_amnesia_valid(2) ex_amnesia_valid(4) by (simp add: CommitFromProto_def Commit_ToProto_def BlockIDFromProto_valid lone_defs CommitSig_FromProto_def CommitSig_ToProto_def
        CommitSig_ValidateBasic_def BlockIDFlagCommit_def BlockIDFlagAbsent_def AddressSize_def TruncatedSize_def MaxSignatureSize_def sig_bytes_def Let_def)
  let ?vp = "\<lparr>vp_Address = replicate 20 1, vp_PubKey = PB_Ed25519 (replicate 32 1), vp_VotingPower = 10, vp_VotingWeight = 10, vp_ProposerPriority = 0\<rparr>"
  have v1: "Validator_ToProto ex_amnesia_val = Inr ?vp" "ValidatorFromProto ?vp = Ret (Inr ex_amnesia_val)"
      "Validator_ValidateBasic (Some ex_amnesia_val) = None" "Validator_Bytes (lib_SimpleValidator ?L) ex_amnesia_val = Ret [1]"
    by (simp_all add: Validator_ToProto_def ValidatorFromProto_def ex_amnesia_val_def lone_voter_def PubKeyToProto_nil_def
        ed25519_PubKeySize_def Validator_ValidateBasic_def AddressSize_def TruncatedSize_def Validator_Bytes_def ex_lib_def)
  have s1: "ValidatorSetFromProto \<lparr>vsp_Validators = [?vp], vsp_TotalVotingPower = 10\<rparr>
        = Ret (Some \<lparr>Validators = [ex_amnesia_val], totalVotingPower = 10\<rparr>, None)"
      "VoterSetFromProto (Some \<lparr>vtp_Voters = [?vp], vtp_TotalVotingWeight = 10\<rparr>)
        = Ret (Some \<lparr>Voters = [ex_amnesia_val], totalVotingWeight = 10\<rparr>, None)"
    using v1(2,3) by (simp_all add: ValidatorSetFromProto_def VoterSetFromProto_def ValidatorSet_ValidateBasic_def VoterSet_ValidateBasic_def
        IsNilOrEmpty_def VoterSet_IsNilOrEmpty_def)
  let ?pb = "\<lparr>lbp_SignedHeader = SignedHeader_ToProto (lb_SignedHeader ex_amnesia_block),
    lbp_ValidatorSet = Some \<lparr>vsp_Validators = [?vp], vsp_TotalVotingPower = 10\<rparr>, lbp_VoterSet = Some \<lparr>vtp_Voters = [?vp], vtp_TotalVotingWeight = 10\<rparr>\<rparr>"
  have l1: "LightBlock_ToProto ex_amnesia_block = Inr ?pb"
    using v1(1) by (simp add: LightBlock_ToProto_def ex_amnesia_block_def ValidatorSet_ToProto_def VoterSet_ToProto_def)
  obtain hp cp where pbs: "Header_ToProto (Some ex_amnesia_header) = Some hp"
      "Commit_ToProto (Some (lone_commit 7 ex_amnesia_id (replicate 20 1) 9 (replicate 64 0))) = Some cp"
    by (simp add: Header_ToProto_def Commit_ToProto_def)
  have l2: "LightBlockFromProto (Some ?pb) = Ret (Inr ex_amnesia_block)"
    using s1 h1 c1 unfolding pbs by (simp add: LightBlockFromProto_def signed_or_nil_def SignedHeaderFromProto_def SignedHeader_ToProto_def
        header_or_nil_def commit_or_nil_def ex_amnesia_block_def pbs)
  have vh: "ValidatorSet_Hash (lib_hash ?L) (lib_SimpleValidator ?L) \<lparr>Validators = [ex_amnesia_val], totalVotingPower = 10\<rparr> = Ret ex_old_vals_hash"
      "VoterSet_Hash (lib_hash ?L) (lib_SimpleValidator ?L) \<lparr>Voters = [ex_amnesia_val], totalVotingWeight = 10\<rparr> = Ret (Some ex_old_vals_hash)"
    using v1(4) by (simp_all add: ValidatorSet_Hash_def VoterSet_Hash_def ex_old_vals_hash_def ex_lib_def)
  have lv: "LightBlock_ValidateBasic ?L ex_amnesia_block [] = Ret None"
    using ex_amnesia_valid(3) ex_amnesia_valid(4) vh v1(3) by (simp add: LightBlock_ValidateBasic_def ex_amnesia_block_def SignedHeader_ValidateBasic_def
        ValidatorSet_ValidateBasic_def VoterSet_ValidateBasic_def IsNilOrEmpty_def VoterSet_IsNilOrEmpty_def)
      (simp add: ex_amnesia_header_def ex_header_def lone_defs sig_bytes_def ex_amnesia_id_def)
  let ?p = "\<lparr>lcp_ConflictingBlock = Some ?pb, lcp_CommonHeight = 7, lcp_ByzantineValidators = [], lcp_TotalVotingPower = 10, lcp_Timestamp = 9\<rparr>"
  have p1: "LightClientAttackEvidence_ToProto ex_amnesia = Inr ?p"
    using l1 by (simp add: LightClientAttackEvidence_ToProto_def ex_amnesia_def)
  have hf: "h_Height ex_amnesia_header = 7" "h_ChainID ex_amnesia_header = []" by (simp_all add: ex_amnesia_header_def ex_header_def)
  have p2: "LightClientAttackEvidenceFromProto ?L (Some ?p) = Ret (Some (ex_amnesia\<lparr>lca_ByzantineValidators := Some []\<rparr>), None)"
    using l2 lv hf by (simp add: LightClientAttackEvidenceFromProto_def ex_amnesia_def LightClientAttackEvidence_ValidateBasic_def)
      (simp add: ex_amnesia_block_def)
  show ?thesis using p1 p2 by blast
qed

section \<open>Properties\<close>

text \<open>
  C14. Conflicting votes become evidence: when a vote set reports two conflicting votes, \<^verbatim>\<open>NewDuplicateVoteEvidence\<close> makes
  evidence of them that \<^verbatim>\<open>VerifyDuplicateVote\<close> accepts against the same voters, and the evidence passes its own
  validation if both votes do. The addresses of the voters must be distinct and their number an int32.
\<close>

theorem conflict_is_evidence:
  assumes "reachable C T False vs" and "AddVote C T (Some vs) (Some vote) = Ret (vs', added, Some (ErrVoteConflictingVotes a b))"
    and "distinct (map Address (Voters (vset_voterSet vs)))" and "int (length (Voters (vset_voterSet vs))) \<le> MaxInt32"
  shows "\<exists>e. NewDuplicateVoteEvidence (Some a) (Some b) t (Some (vset_voterSet vs)) = Ret (Some e)
    \<and> VerifyDuplicateVote C T e (vset_chainID vs) (vset_voterSet vs) = Ret None
    \<and> (Vote_ValidateBasic a = None \<longrightarrow> Vote_ValidateBasic b = None \<longrightarrow> DuplicateVoteEvidence_ValidateBasic e = None)"
proof -
  obtain i where i: "i < num_voters (vset_voterSet vs)" "v_ValidatorAddress a = Address (Voters (vset_voterSet vs) ! i)"
      "v_ValidatorAddress b = Address (Voters (vset_voterSet vs) ! i)" "v_Height a = v_Height b" "v_Round a = v_Round b"
      "v_Type a = v_Type b" "v_BlockID a \<noteq> v_BlockID b"
      "exec_verify C T a (vset_chainID vs) (PubKey (Voters (vset_voterSet vs) ! i)) = Ret None"
      "exec_verify C T b (vset_chainID vs) (PubKey (Voters (vset_voterSet vs) ! i)) = Ret None"
    using conflict_facts [OF assms(1,2)] by blast
  have wv: "wf_voters (vset_voterSet vs)" using reachable_wf [OF assms(1)] by (simp add: wf_voteSet_def)
  have il: "i < length (Voters (vset_voterSet vs))" using i(1) by (simp add: num_voters_def)
  note ok = VerifyDuplicateVote_accepts [OF wv assms(3,4) il]
  note new = NewDuplicateVoteEvidence_found [OF wv assms(3,4) il i(2), of b t]
  have key: "BlockID_Key (v_BlockID a) \<noteq> BlockID_Key (v_BlockID b)" if "Vote_ValidateBasic a = None" "Vote_ValidateBasic b = None"
    using that Vote_ValidateBasic_proper BlockID_Key_inj i(7) by blast
  show ?thesis
  proof (cases "BlockID_Key (v_BlockID a) < BlockID_Key (v_BlockID b)")
    case True
    then show ?thesis using new ok [OF i(2-9)] by (auto simp: DuplicateVoteEvidence_ValidateBasic_def)
  next
    case False
    then show ?thesis using new ok [OF i(3,2) i(4-6) [symmetric] i(7) [symmetric] i(9,8)] key
      by (auto simp: DuplicateVoteEvidence_ValidateBasic_def)
  qed
qed

theorem conflict_is_evidence_witness:
  "\<exists>a e. v_BlockID a = ex_block \<and> NewDuplicateVoteEvidence (Some a) (Some (ex_ballot ex_block2)) 5 (Some ex_electorate) = Ret (Some e)
     \<and> VerifyDuplicateVote live_crypto ex_time e [] ex_electorate = Ret None"
proof -
  have d: "distinct (map Address (Voters ex_electorate))" "int (length (Voters ex_electorate)) \<le> MaxInt32"
    by (simp_all add: ex_electorate_def ex_member_def int_limits replicate_eq_replicate)
  show ?thesis by (rule ex_conflict) (use conflict_is_evidence [where t = 5] d in metis)
qed

text \<open>
  C15. Evidence of a duplicate vote proves it: when \<^verbatim>\<open>VerifyDuplicateVote\<close> accepts, one voter of the set, under its own address,
  has valid signatures on two votes of the same height, round and type for different blocks, and the two signed byte
  strings differ.
\<close>

theorem VerifyDuplicateVote_sound:
  assumes "VerifyDuplicateVote C T e chainID voters = Ret None"
  shows "\<exists>a b v k bzA bzB. dve_VoteA e = Some a \<and> dve_VoteB e = Some b \<and> v \<in> set (Voters voters) \<and> PubKey v = Some k
    \<and> Address v = v_ValidatorAddress a \<and> v_ValidatorAddress b = v_ValidatorAddress a \<and> PubKey_Address C k = Ret (Address v)
    \<and> v_Height a = v_Height b \<and> v_Round a = v_Round b \<and> v_Type a = v_Type b \<and> v_BlockID a \<noteq> v_BlockID b
    \<and> VoteSignBytes T chainID a = Ret bzA \<and> VoteSignBytes T chainID b = Ret bzB
    \<and> PubKey_VerifySignature C k bzA (sig_bytes (v_Signature a)) \<and> PubKey_VerifySignature C k bzB (sig_bytes (v_Signature b))
    \<and> (injective_encoder T \<longrightarrow> vote_in_range a \<longrightarrow> vote_in_range b \<longrightarrow> bzA \<noteq> bzB)"
proof -
  obtain a v b k bzA bzB where a: "dve_VoteA e = Some a" "dve_VoteB e = Some b"
      and g: "snd (VoterSet_GetByAddress voters (v_ValidatorAddress a)) = Some v" and k: "PubKey v = Some k"
      and s: "v_Height a = v_Height b" "v_Round a = v_Round b" "v_Type a = v_Type b" "v_ValidatorAddress a = v_ValidatorAddress b"
        "v_BlockID a \<noteq> v_BlockID b" "PubKey_Address C k = Ret (v_ValidatorAddress a)"
      and bz: "VoteSignBytes T chainID a = Ret bzA" "VoteSignBytes T chainID b = Ret bzB"
      and ver: "PubKey_VerifySignature C k bzA (sig_bytes (v_Signature a))" "PubKey_VerifySignature C k bzB (sig_bytes (v_Signature b))"
    using assms by (auto simp: VerifyDuplicateVote_def BlockID_Equals_iff split: bind_splits option.splits if_splits)
  obtain j where "VoterSet_GetByAddress voters (v_ValidatorAddress a) = (j, Some v)" using g by (metis prod.collapse)
  then have v: "v \<in> set (Voters voters)" "Address v = v_ValidatorAddress a"
    using GetByAddress_Some [of voters "v_ValidatorAddress a" j v] by auto
  have "bzA \<noteq> bzB" if "injective_encoder T" "vote_in_range a" "vote_in_range b"
  proof
    assume "bzA = bzB"
    then have "signed_content a = signed_content b" using VoteSignBytes_inj [OF bz(1) _ that] bz(2) by blast
    then show False using s(5) by (simp add: signed_content_def)
  qed
  then show ?thesis using a v k s bz ver by metis
qed

theorem VerifyDuplicateVote_sound_witness:
  "\<exists>(e :: DuplicateVoteEvidence) a b bzA bzB. dve_VoteA e = Some a \<and> dve_VoteB e = Some b \<and> v_BlockID a \<noteq> v_BlockID b
     \<and> VoteSignBytes ex_time [] a = Ret bzA \<and> VoteSignBytes ex_time [] b = Ret bzB
     \<and> PubKey_VerifySignature live_crypto (PubKeyEd25519 (replicate 32 1)) bzA (sig_bytes (v_Signature a))"
proof -
  let ?a = "ex_ballot ex_block" and ?b = "ex_ballot ex_block2" and ?k = "PubKeyEd25519 (replicate 32 1)"
  let ?e = "\<lparr>dve_VoteA = Some ?a, dve_VoteB = Some ?b, dve_TotalVotingPower = 40, dve_ValidatorPower = 30, dve_VotingWeight = 30, dve_Timestamp = 5\<rparr>"
  have d: "distinct (map Address (Voters ex_electorate))" "int (length (Voters ex_electorate)) \<le> MaxInt32"
    by (simp_all add: ex_electorate_def ex_member_def int_limits replicate_eq_replicate)
  have el: "Voters ex_electorate ! 0 = ex_member 1 30" "0 < length (Voters ex_electorate)" "totalVotingWeight ex_electorate = 40"
    by (simp_all add: ex_electorate_def)
  have "VerifyDuplicateVote live_crypto ex_time ?e [] ex_electorate = Ret None"
    using ex_ballot_exec [of ex_block 1 30] ex_ballot_exec [of ex_block2 1 30]
    by (intro VerifyDuplicateVote_accepts [OF ex_electorate_wf d el(2), of ?a ?b])
      (simp_all add: el, simp_all add: ex_ballot_def ex_member_def ex_block_def ex_block2_def)
  from VerifyDuplicateVote_sound [OF this] obtain v k bzA bzB where r: "v \<in> set (Voters ex_electorate)" "PubKey v = Some k"
      "Address v = v_ValidatorAddress ?a" "v_BlockID ?a \<noteq> v_BlockID ?b" "VoteSignBytes ex_time [] ?a = Ret bzA"
      "VoteSignBytes ex_time [] ?b = Ret bzB" "PubKey_VerifySignature live_crypto k bzA (sig_bytes (v_Signature ?a))"
    by auto
  have "k = ?k" using r(1-3) by (auto simp: ex_electorate_def ex_member_def ex_ballot_def replicate_eq_replicate)
  then show ?thesis using r by (intro exI [of _ ?e]) auto
qed

text \<open>
  C16. Evidence of an amnesia attack does not survive transport: in this attack no voter is named, so the list of Byzantine
  validators is nil and \<^verbatim>\<open>validateABCIEvidence\<close> accepts it; but decoding the encoded evidence gives an empty list that is
  not nil, which is rejected (for light blocks that decoding gives back unchanged). Evidence read from a peer, a block or the database is always decoded this way, so
  \<^verbatim>\<open>VerifyLightClientAttack\<close> never accepts it.
\<close>

theorem amnesia_evidence_rejected:
  assumes "lca_ByzantineValidators l = None" and "LightClientAttackEvidence_ToProto l = Inr p"
    and "LightClientAttackEvidenceFromProto L (Some p) = Ret (Some l', None)"
    and "lca_ConflictingBlock l' = lca_ConflictingBlock l"
    and "sh_Header trusted = Some t" and "ConflictingHeaderIsInvalid l t = Ret False"
    and "lca_commit l = Ret c" and "sh_Commit trusted = Some tc" and "c_Round tc \<noteq> c_Round c"
  shows "validateABCIEvidence l voters trusted = Ret None
    \<and> validateABCIEvidence l' voters trusted = Ret (Some (ExpectedNilValidators 0))
    \<and> VerifyLightClientAttack L l' common trusted voters \<noteq> Ret None"
proof -
  have b: "lca_ByzantineValidators l' = Some []" using transported_validators [OF assms(2,3,1)] .
  have same: "lca_commit l' = Ret c" "ConflictingHeaderIsInvalid l' t = Ret False"
    using assms(4,6,7) by (simp_all add: lca_commit_def ConflictingHeaderIsInvalid_def lca_header_def)
  have rej: "validateABCIEvidence l' v trusted = Ret (Some (ExpectedNilValidators 0))" for v
    using amnesia_no_validators [OF assms(5) same(2,1) assms(8,9), of v] b by (simp add: validateABCIEvidence_def)
  moreover have "validateABCIEvidence l voters trusted = Ret None"
    using amnesia_no_validators [OF assms(5-9), of voters] assms(1) by (simp add: validateABCIEvidence_def)
  moreover have "VerifyLightClientAttack L l' common trusted voters \<noteq> Ret None"
    using VerifyLightClientAttack_last [of L l' common trusted voters] rej by auto
  ultimately show ?thesis by blast
qed

theorem amnesia_evidence_rejected_witness:
  "\<exists>p l'. LightClientAttackEvidence_ToProto ex_amnesia = Inr p
     \<and> LightClientAttackEvidenceFromProto (ex_lib pad_hash) (Some p) = Ret (Some l', None)
     \<and> validateABCIEvidence l' ex_electorate \<lparr>sh_Header = Some (ex_amnesia_header\<lparr>h_Time := 10\<rparr>), sh_Commit = Some (NewCommit 7 1 ex_block [])\<rparr>
       = Ret (Some (ExpectedNilValidators 0))"
proof -
  let ?t = "\<lparr>sh_Header = Some (ex_amnesia_header\<lparr>h_Time := 10\<rparr>), sh_Commit = Some (NewCommit 7 1 ex_block [])\<rparr>"
  obtain p where p1: "LightClientAttackEvidence_ToProto ex_amnesia = Inr p"
      and p2: "LightClientAttackEvidenceFromProto (ex_lib pad_hash) (Some p) = Ret (Some (ex_amnesia\<lparr>lca_ByzantineValidators := Some []\<rparr>), None)"
    using ex_amnesia_transport by blast
  have "validateABCIEvidence (ex_amnesia\<lparr>lca_ByzantineValidators := Some []\<rparr>) ex_electorate ?t = Ret (Some (ExpectedNilValidators 0))"
    using amnesia_evidence_rejected [OF _ p1 p2, of ?t "ex_amnesia_header\<lparr>h_Time := 10\<rparr>"
        "lone_commit 7 ex_amnesia_id (replicate 20 1) 9 (replicate 64 0)" "NewCommit 7 1 ex_block []" ex_electorate]
    by (simp add: ex_amnesia_def ex_amnesia_block_def ConflictingHeaderIsInvalid_def lca_header_def lca_commit_def lone_commit_def NewCommit_def)
  then show ?thesis using p1 p2 by blast
qed

end
