(* ===== verification/Part_Set.thy ===== *)
theory Part_Set
  imports Block_Types Merkle_Proof
begin

text \<open>
  Block parts and part sets (\<^verbatim>\<open>types/part_set.go\<close>): a block is cut into parts that travel with Merkle
  proofs and are put together again. The mutex is not modelled: every method holds it to the end.
\<close>

section \<open>Parts\<close>

definition BlockPartSizeBytes :: nat where
  "BlockPartSizeBytes = 65536"

record Part =
  part_Index :: uint32
  part_Bytes :: bytes
  part_Proof :: Proof

datatype part_error = PartTooBig nat | WrongProof proof_error | NilPart | ErrPartSetUnexpectedIndex | ErrPartSetInvalidProof

definition Part_ValidateBasic :: "Part \<Rightarrow> part_error option" where
  "Part_ValidateBasic part =
     (if length (part_Bytes part) > BlockPartSizeBytes then Some (PartTooBig (length (part_Bytes part)))
      else map_option WrongProof (Proof_ValidateBasic (part_Proof part)))"

record PartPB =
  partpb_Index :: uint32
  partpb_Bytes :: bytes
  partpb_Proof :: ProofPB

text \<open>\<^verbatim>\<open>ToProto\<close> dereferences the converted proof, which is never nil here.\<close>

definition Part_ToProto :: "Part option \<Rightarrow> (part_error + PartPB) go" where
  "Part_ToProto part = (case part of
       None \<Rightarrow> Ret (Inl NilPart)
     | Some p \<Rightarrow>
         do {
           pr \<leftarrow> Proof_ToProto (Some (part_Proof p));
           Ret (Inr \<lparr>partpb_Index = part_Index p, partpb_Bytes = part_Bytes p, partpb_Proof = pr\<rparr>)
         })"

text \<open>The second result is the error; the part is returned with the error of its validation.\<close>

definition PartFromProto :: "PartPB option \<Rightarrow> (Part option \<times> part_error option) go" where
  "PartFromProto pb = (case pb of
       None \<Rightarrow> Ret (None, Some NilPart)
     | Some pb \<Rightarrow>
         (case ProofFromProto (Some (partpb_Proof pb)) of
            (_, Some err) \<Rightarrow> Ret (None, Some (WrongProof err))
          | (None, None) \<Rightarrow> Panic
          | (Some pr, None) \<Rightarrow>
              let part = \<lparr>part_Index = partpb_Index pb, part_Bytes = partpb_Bytes pb, part_Proof = pr\<rparr> in
              Ret (Some part, Part_ValidateBasic part)))"

section \<open>Part sets\<close>

record PartSet =
  ps_total :: uint32
  ps_hash :: bytes
  ps_parts :: "Part option list"
  ps_partsBitArray :: "BitArray option"
  ps_count :: uint32
  ps_byteSize :: int64

text \<open>A slice expression \<^verbatim>\<open>xs[lo:hi]\<close>.\<close>

definition slice :: "'a list \<Rightarrow> int \<Rightarrow> int \<Rightarrow> 'a list go" where
  "slice xs lo hi =
     (if 0 \<le> lo \<and> lo \<le> hi \<and> hi \<le> int (length xs) then Ret (take (nat (hi - lo)) (drop (nat lo) xs)) else Panic)"

definition part_bytes :: "bytes \<Rightarrow> uint32 \<Rightarrow> uint32 \<Rightarrow> bytes go" where
  "part_bytes data partSize i = slice data (uint (i * partSize)) (min (int (length data)) (uint ((i + 1) * partSize)))"

fun set_all_bits :: "BitArray option \<Rightarrow> nat list \<Rightarrow> BitArray option go" where
  "set_all_bits ba [] = Ret ba"
| "set_all_bits ba (i # is) = do { (_, ba') \<leftarrow> BitArray_SetIndex ba (int i) True; set_all_bits ba' is }"

definition make_part :: "bytes list \<Rightarrow> Proof list \<Rightarrow> nat \<Rightarrow> Part go" where
  "make_part chunks proofs i =
     do {
       bz \<leftarrow> index chunks (int i);
       pr \<leftarrow> index proofs (int i);
       Ret \<lparr>part_Index = of_nat i, part_Bytes = bz, part_Proof = pr\<rparr>
     }"

definition NewPartSetFromData :: "hashfn \<Rightarrow> bytes \<Rightarrow> uint32 \<Rightarrow> PartSet go" where
  "NewPartSetFromData H data partSize =
     (if partSize = 0 then Panic
      else
        let tot = (of_nat (length data) + partSize - 1) div partSize; n = unat tot in
        do {
          chunks \<leftarrow> map_go (\<lambda>i. part_bytes data partSize (of_nat i)) [0..<n];
          ba \<leftarrow> set_all_bits (NewBitArray (int n)) [0..<n];
          (case ProofsFromByteSlices H chunks of (rootHash, proofs) \<Rightarrow>
             do {
               parts \<leftarrow> map_go (make_part chunks proofs) [0..<n];
               Ret \<lparr>ps_total = tot, ps_hash = rootHash, ps_parts = map Some parts, ps_partsBitArray = ba,
                    ps_count = tot, ps_byteSize = int (length data)\<rparr>
             })
        })"

definition NewPartSetFromHeader :: "PartSetHeader \<Rightarrow> PartSet" where
  "NewPartSetFromHeader header =
     \<lparr>ps_total = psh_Total header, ps_hash = psh_Hash header, ps_parts = replicate (unat (psh_Total header)) None,
      ps_partsBitArray = NewBitArray (uint (psh_Total header)), ps_count = 0, ps_byteSize = 0\<rparr>"

definition PartSet_Header :: "PartSet option \<Rightarrow> PartSetHeader" where
  "PartSet_Header ps = (case ps of
       None \<Rightarrow> zero_PartSetHeader
     | Some ps \<Rightarrow> \<lparr>psh_Total = ps_total ps, psh_Hash = ps_hash ps\<rparr>)"

definition HasHeader :: "PartSet option \<Rightarrow> PartSetHeader \<Rightarrow> bool" where
  "HasHeader ps header = (case ps of None \<Rightarrow> False | Some _ \<Rightarrow> PartSetHeader_Equals (PartSet_Header ps) header)"

definition PartSet_BitArray :: "PartSet \<Rightarrow> BitArray option" where
  "PartSet_BitArray ps = BitArray_Copy (ps_partsBitArray ps)"

definition PartSet_Hash :: "hashfn \<Rightarrow> PartSet option \<Rightarrow> bytes" where
  "PartSet_Hash H ps = (case ps of None \<Rightarrow> HashFromByteSlices H [] | Some ps \<Rightarrow> ps_hash ps)"

definition PartSet_HashesTo :: "PartSet option \<Rightarrow> bytes \<Rightarrow> bool" where
  "PartSet_HashesTo ps h = (case ps of None \<Rightarrow> False | Some ps \<Rightarrow> ps_hash ps = h)"

definition PartSet_Count :: "PartSet option \<Rightarrow> uint32" where
  "PartSet_Count ps = (case ps of None \<Rightarrow> 0 | Some ps \<Rightarrow> ps_count ps)"

definition PartSet_ByteSize :: "PartSet option \<Rightarrow> int64" where
  "PartSet_ByteSize ps = (case ps of None \<Rightarrow> 0 | Some ps \<Rightarrow> ps_byteSize ps)"

definition PartSet_Total :: "PartSet option \<Rightarrow> uint32" where
  "PartSet_Total ps = (case ps of None \<Rightarrow> 0 | Some ps \<Rightarrow> ps_total ps)"

definition AddPart :: "hashfn \<Rightarrow> PartSet option \<Rightarrow> Part option \<Rightarrow> (PartSet option \<times> bool \<times> part_error option) go" where
  "AddPart H pso parto = (case pso of
       None \<Rightarrow> Ret (None, False, None)
     | Some ps \<Rightarrow>
         do {
           part \<leftarrow> parto;
           if part_Index part \<ge> ps_total ps then Ret (pso, False, Some ErrPartSetUnexpectedIndex)
           else
             do {
               existing \<leftarrow> index (ps_parts ps) (uint (part_Index part));
               if existing \<noteq> None then Ret (pso, False, None)
               else if Proof_Verify H (part_Proof part) (PartSet_Hash H pso) (part_Bytes part) \<noteq> None
               then Ret (pso, False, Some ErrPartSetInvalidProof)
               else
                 do {
                   parts \<leftarrow> assign (ps_parts ps) (uint (part_Index part)) (Some part);
                   (_, ba) \<leftarrow> BitArray_SetIndex (ps_partsBitArray ps) (uint (part_Index part)) True;
                   Ret (Some (ps\<lparr>ps_parts := parts, ps_partsBitArray := ba, ps_count := ps_count ps + 1,
                          ps_byteSize := wrap64 (ps_byteSize ps + int (length (part_Bytes part)))\<rparr>), True, None)
                 }
             }
         })"

definition GetPart :: "PartSet \<Rightarrow> int \<Rightarrow> Part option go" where
  "GetPart ps i = index (ps_parts ps) i"

definition PartSet_IsComplete :: "PartSet \<Rightarrow> bool" where
  "PartSet_IsComplete ps \<longleftrightarrow> ps_count ps = ps_total ps"

section \<open>Reading a part set\<close>

text \<open>\<open>psr_rest\<close> is what the \<^verbatim>\<open>bytes.Reader\<close> over the current part has left.\<close>

record PartSetReader =
  psr_i :: nat
  psr_parts :: "Part option list"
  psr_rest :: bytes

definition NewPartSetReader :: "Part option list \<Rightarrow> PartSetReader go" where
  "NewPartSetReader parts =
     do {
       p \<leftarrow> index parts 0;
       part \<leftarrow> p;
       Ret \<lparr>psr_i = 0, psr_parts = parts, psr_rest = part_Bytes part\<rparr>
     }"

definition GetReader :: "PartSet \<Rightarrow> PartSetReader go" where
  "GetReader ps = (if \<not> PartSet_IsComplete ps then Panic else NewPartSetReader (ps_parts ps))"

text \<open>
  A read into a buffer of \<open>n\<close> bytes: the bytes written, whether the result is \<^verbatim>\<open>io.EOF\<close>, and the reader.
  The read of \<^verbatim>\<open>p[:readerLen]\<close> takes all that the current part has left.
\<close>

definition Reader_Read :: "bytes \<Rightarrow> nat \<Rightarrow> bytes \<times> bool \<times> bytes" where
  "Reader_Read rest n = (if rest = [] then ([], True, []) else (take n rest, False, drop n rest))"

function psr_Read :: "PartSetReader \<Rightarrow> nat \<Rightarrow> (bytes \<times> bool \<times> PartSetReader) go" where
  "psr_Read r n =
     (let readerLen = length (psr_rest r) in
      if n \<le> readerLen then
        (case Reader_Read (psr_rest r) n of (bz, eof, rest) \<Rightarrow> Ret (bz, eof, r\<lparr>psr_rest := rest\<rparr>))
      else if readerLen > 0 then
        do {
          (bz2, eof, r') \<leftarrow> psr_Read (r\<lparr>psr_rest := []\<rparr>) (n - readerLen);
          Ret (psr_rest r @ bz2, eof, r')
        }
      else if Suc (psr_i r) \<ge> length (psr_parts r) then Ret ([], True, r\<lparr>psr_i := Suc (psr_i r)\<rparr>)
      else (case psr_parts r ! Suc (psr_i r) of
          None \<Rightarrow> Panic
        | Some part \<Rightarrow> psr_Read (r\<lparr>psr_i := Suc (psr_i r), psr_rest := part_Bytes part\<rparr>) n))"
  by pat_completeness auto
termination
  by (relation "measures [\<lambda>(r, n). length (psr_parts r) - psr_i r, \<lambda>(r, n). length (psr_rest r)]") auto

declare psr_Read.simps [simp del]

end
