(* ===== verification/Part_Set_Sound.thy ===== *)
theory Part_Set_Sound
  imports Part_Set
begin

text \<open>
  What part sets promise: the reader is a stream of the bytes of the parts in order, a part set made from
  data can be sent part by part in any order and put together again, and every part that is accepted is a
  part of the data unless it shows a hash collision. That a part is stored at the place its proof is for
  is not checked by \<^verbatim>\<open>AddPart\<close>.
\<close>

section \<open>The reader is a byte stream\<close>

definition all_present :: "Part option list \<Rightarrow> bool" where
  "all_present parts \<longleftrightarrow> (\<forall>p \<in> set parts. p \<noteq> None)"

definition content :: "Part option list \<Rightarrow> bytes" where
  "content parts = concat (map (\<lambda>p. case p of None \<Rightarrow> [] | Some q \<Rightarrow> part_Bytes q) parts)"

definition stream :: "PartSetReader \<Rightarrow> bytes" where
  "stream r = psr_rest r @ content (drop (Suc (psr_i r)) (psr_parts r))"

lemma content_drop:
  "i < length parts \<Longrightarrow> parts ! i = Some p \<Longrightarrow> content (drop i parts) = part_Bytes p @ content (drop (Suc i) parts)"
  by (simp add: content_def Cons_nth_drop_Suc [symmetric])

lemma psr_Read_stream:
  assumes "all_present (psr_parts r)" and "0 < n"
  shows "\<exists>r'. psr_Read r n = Ret (take n (stream r), length (stream r) < n, r') \<and> stream r' = drop n (stream r)
    \<and> psr_parts r' = psr_parts r"
  using assms
proof (induction r n rule: psr_Read.induct)
  case (1 r n)
  let ?len = "length (psr_rest r)"
  consider "n \<le> ?len" | "?len < n" "0 < ?len" | "?len = 0" "length (psr_parts r) \<le> Suc (psr_i r)"
    | "?len = 0" "Suc (psr_i r) < length (psr_parts r)" by linarith
  then show ?case
  proof cases
    case 1
    then have "psr_rest r \<noteq> []" using \<open>0 < n\<close> by auto
    then show ?thesis using 1 by (simp add: psr_Read.simps [of r n] Reader_Read_def stream_def)
  next
    case 2
    obtain r' where r': "psr_Read (r\<lparr>psr_rest := []\<rparr>) (n - ?len) = Ret (take (n - ?len) (stream (r\<lparr>psr_rest := []\<rparr>)),
        length (stream (r\<lparr>psr_rest := []\<rparr>)) < n - ?len, r')" "stream r' = drop (n - ?len) (stream (r\<lparr>psr_rest := []\<rparr>))"
        "psr_parts r' = psr_parts r"
      using "1.IH"(1) [OF refl] 2 "1.prems"(1) by auto
    then show ?thesis using 2 by (auto simp: psr_Read.simps [of r n] stream_def Let_def)
  next
    case 3
    then show ?thesis using \<open>0 < n\<close> by (simp add: psr_Read.simps [of r n] stream_def content_def)
  next
    case 4
    obtain p where p: "psr_parts r ! Suc (psr_i r) = Some p"
      using 4 "1.prems"(1) by (fastforce simp: all_present_def)
    let ?r = "r\<lparr>psr_i := Suc (psr_i r), psr_rest := part_Bytes p\<rparr>"
    have st: "stream ?r = stream r" using 4 p by (simp add: stream_def content_drop [symmetric])
    obtain r' where "psr_Read ?r n = Ret (take n (stream ?r), length (stream ?r) < n, r')" "stream r' = drop n (stream ?r)"
        "psr_parts r' = psr_parts r"
      using "1.IH"(2) [OF refl _ _ _ p] 4 "1.prems" by auto
    then show ?thesis using 4 p \<open>0 < n\<close> st by (simp add: psr_Read.simps [of r n])
  qed
qed

lemma NewPartSetReader_stream:
  assumes "all_present parts" and "parts \<noteq> []"
  shows "\<exists>r. NewPartSetReader parts = Ret r \<and> psr_parts r = parts \<and> stream r = content parts"
proof -
  obtain p where p: "parts ! 0 = Some p" using assms by (cases parts) (auto simp: all_present_def)
  then show ?thesis using assms(2) content_drop [of 0 parts p]
    by (simp add: NewPartSetReader_def index_def stream_def)
qed

section \<open>Adding parts\<close>

definition wf_partSet :: "PartSet \<Rightarrow> bool" where
  "wf_partSet ps \<longleftrightarrow> length (ps_parts ps) = unat (ps_total ps) \<and> ba.mirrors (ps_partsBitArray ps) (ps_parts ps)
     \<and> ps_count ps = of_nat (card (occupied (ps_parts ps)))"

lemma NewPartSetFromHeader_wf: "wf_partSet (NewPartSetFromHeader header)"
  using ba.mirrors_new [of "unat (psh_Total header)"]
  by (simp add: wf_partSet_def NewPartSetFromHeader_def)

lemma card_occupied: "card (occupied xs) \<le> length xs"
  using card_mono [OF _ occupied_bound [of xs]] by simp

lemma occupied_all: "card (occupied xs) = length xs \<longleftrightarrow> all_present xs" for xs :: "Part option list"
proof
  assume "card (occupied xs) = length xs"
  then have "occupied xs = {..<length xs}" using card_subset_eq [OF _ occupied_bound [of xs]] by simp
  then have "\<forall>i < length xs. xs ! i \<noteq> None" unfolding occupied_def by blast
  then show "all_present xs" by (auto simp: all_present_def in_set_conv_nth)
next
  assume "all_present xs"
  then have "occupied xs = {..<length xs}" by (auto simp: all_present_def occupied_def)
  then show "card (occupied xs) = length xs" by simp
qed

lemma complete_iff:
  assumes "wf_partSet ps"
  shows "PartSet_IsComplete ps \<longleftrightarrow> all_present (ps_parts ps)"
proof -
  have "card (occupied (ps_parts ps)) \<le> unat (ps_total ps)"
    using assms card_occupied [of "ps_parts ps"] by (simp add: wf_partSet_def)
  moreover have "unat (ps_total ps) < 2 ^ 32" using unsigned_less [of "ps_total ps", where ?'a = nat] by simp
  ultimately have "unat (of_nat (card (occupied (ps_parts ps))) :: uint32) = card (occupied (ps_parts ps))"
    by (simp add: unat_of_nat take_bit_eq_mod)
  then have "ps_count ps = ps_total ps \<longleftrightarrow> card (occupied (ps_parts ps)) = length (ps_parts ps)"
    using assms by (metis wf_partSet_def word_unat_eq_iff)
  then show ?thesis using occupied_all by (simp add: PartSet_IsComplete_def)
qed

lemma AddPart_spec:
  assumes wf: "wf_partSet ps"
  shows "(part_Index part \<ge> ps_total ps \<and> AddPart H (Some ps) (Some part) = Ret (Some ps, False, Some ErrPartSetUnexpectedIndex))
    \<or> (unat (part_Index part) \<in> occupied (ps_parts ps) \<and> AddPart H (Some ps) (Some part) = Ret (Some ps, False, None))
    \<or> (unat (part_Index part) < length (ps_parts ps) \<and> Proof_Verify H (part_Proof part) (ps_hash ps) (part_Bytes part) \<noteq> None
         \<and> AddPart H (Some ps) (Some part) = Ret (Some ps, False, Some ErrPartSetInvalidProof))
    \<or> (\<exists>ps'. unat (part_Index part) < length (ps_parts ps) \<and> unat (part_Index part) \<notin> occupied (ps_parts ps)
         \<and> Proof_Verify H (part_Proof part) (ps_hash ps) (part_Bytes part) = None
         \<and> AddPart H (Some ps) (Some part) = Ret (Some ps', True, None) \<and> wf_partSet ps'
         \<and> ps_parts ps' = (ps_parts ps)[unat (part_Index part) := Some part] \<and> ps_hash ps' = ps_hash ps \<and> ps_total ps' = ps_total ps)"
proof (cases "part_Index part \<ge> ps_total ps")
  case True
  then show ?thesis by (simp add: AddPart_def)
next
  case False
  let ?i = "unat (part_Index part)"
  have i: "?i < length (ps_parts ps)" "uint (part_Index part) = int ?i"
    using False wf by (auto simp: wf_partSet_def not_le word_less_nat_alt)
  have idx: "index (ps_parts ps) (int ?i) = Ret (ps_parts ps ! ?i)" using i(1) by (simp only: index_def nat_int of_nat_less_iff of_nat_0_le_iff simp_thms if_True)
  note step = AddPart_def [of H "Some ps" "Some part", unfolded option.case bind.simps if_not_P [OF False] i(2) idx PartSet_Hash_def]
  show ?thesis
  proof (cases "ps_parts ps ! ?i")
    case (Some q)
    then show ?thesis using i by (simp add: step occupied_def)
  next
    case None
    show ?thesis
    proof (cases "Proof_Verify H (part_Proof part) (ps_hash ps) (part_Bytes part)")
      case (Some e)
      then show ?thesis using None i by (simp add: step)
    next
      case V: None
      obtain ba' where ba: "BitArray_SetIndex (ps_partsBitArray ps) (int ?i) True = Ret (True, ba')"
          "ba.mirrors ba' ((ps_parts ps)[?i := Some part])"
        using ba.mirrors_put [OF _ i(1)] wf by (auto simp: wf_partSet_def)
      have fresh: "?i \<notin> occupied (ps_parts ps)" using None by (simp add: occupied_def)
      have card: "card (occupied ((ps_parts ps)[?i := Some part])) = Suc (card (occupied (ps_parts ps)))"
        using fresh i by (simp add: occupied_update)
      have asg: "assign (ps_parts ps) (uint (part_Index part)) (Some part) = Ret ((ps_parts ps)[?i := Some part])"
        unfolding i(2) using i(1) by (simp only: assign_def nat_int of_nat_less_iff of_nat_0_le_iff simp_thms if_True)
      show ?thesis using None V i ba fresh wf
        by (simp add: step asg wf_partSet_def card add.commute)
    qed
  qed
qed


fun add_parts :: "hashfn \<Rightarrow> PartSet option \<Rightarrow> Part list \<Rightarrow> PartSet option go" where
  "add_parts H pso [] = Ret pso"
| "add_parts H pso (p # ps) = do { (pso', _, _) \<leftarrow> AddPart H pso (Some p); add_parts H pso' ps }"

lemma add_parts_spec:
  assumes "wf_partSet ps"
  shows "\<exists>ps'. add_parts H (Some ps) order = Ret (Some ps') \<and> wf_partSet ps' \<and> ps_hash ps' = ps_hash ps \<and> ps_total ps' = ps_total ps
    \<and> occupied (ps_parts ps) \<subseteq> occupied (ps_parts ps')
    \<and> (\<forall>i < length (ps_parts ps'). \<forall>p. ps_parts ps' ! i = Some p \<longrightarrow> ps_parts ps ! i = Some p
         \<or> (p \<in> set order \<and> unat (part_Index p) = i \<and> Proof_Verify H (part_Proof p) (ps_hash ps) (part_Bytes p) = None))
    \<and> (\<forall>p \<in> set order. part_Index p < ps_total ps \<longrightarrow> Proof_Verify H (part_Proof p) (ps_hash ps) (part_Bytes p) = None
         \<longrightarrow> unat (part_Index p) \<in> occupied (ps_parts ps'))"
  using assms
proof (induction order arbitrary: ps)
  case Nil
  then show ?case by simp
next
  case (Cons p order)
  let ?i = "unat (part_Index p)"
  have "\<exists>p1 a e. AddPart H (Some ps) (Some p) = Ret (Some p1, a, e) \<and> wf_partSet p1 \<and> ps_hash p1 = ps_hash ps \<and> ps_total p1 = ps_total ps
      \<and> occupied (ps_parts ps) \<subseteq> occupied (ps_parts p1)
      \<and> (\<forall>i < length (ps_parts p1). \<forall>q. ps_parts p1 ! i = Some q \<longrightarrow> ps_parts ps ! i = Some q
           \<or> (q = p \<and> ?i = i \<and> Proof_Verify H (part_Proof p) (ps_hash ps) (part_Bytes p) = None))
      \<and> (part_Index p < ps_total ps \<longrightarrow> Proof_Verify H (part_Proof p) (ps_hash ps) (part_Bytes p) = None \<longrightarrow> ?i \<in> occupied (ps_parts p1))"
    using AddPart_spec [OF Cons.prems, of p H]
  proof (elim disjE exE conjE)
    fix ps' assume "?i < length (ps_parts ps)" "AddPart H (Some ps) (Some p) = Ret (Some ps', True, None)"
      "wf_partSet ps'" "ps_parts ps' = (ps_parts ps)[?i := Some p]" "ps_hash ps' = ps_hash ps" "ps_total ps' = ps_total ps"
      "Proof_Verify H (part_Proof p) (ps_hash ps) (part_Bytes p) = None"
    then show ?thesis by (simp add: occupied_update nth_list_update) blast
  qed (use Cons.prems in auto)
  then obtain p1 a e where one: "AddPart H (Some ps) (Some p) = Ret (Some p1, a, e)" "wf_partSet p1" "ps_hash p1 = ps_hash ps"
      "ps_total p1 = ps_total ps" "occupied (ps_parts ps) \<subseteq> occupied (ps_parts p1)"
      "\<forall>i < length (ps_parts p1). \<forall>q. ps_parts p1 ! i = Some q \<longrightarrow> ps_parts ps ! i = Some q
           \<or> (q = p \<and> ?i = i \<and> Proof_Verify H (part_Proof p) (ps_hash ps) (part_Bytes p) = None)"
      "part_Index p < ps_total ps \<longrightarrow> Proof_Verify H (part_Proof p) (ps_hash ps) (part_Bytes p) = None \<longrightarrow> ?i \<in> occupied (ps_parts p1)"
    by (elim exE conjE) (rule that)
  obtain ps' where ih: "add_parts H (Some p1) order = Ret (Some ps')" "wf_partSet ps'" "ps_hash ps' = ps_hash p1" "ps_total ps' = ps_total p1"
      "occupied (ps_parts p1) \<subseteq> occupied (ps_parts ps')"
      "\<forall>i < length (ps_parts ps'). \<forall>p. ps_parts ps' ! i = Some p \<longrightarrow> ps_parts p1 ! i = Some p
         \<or> (p \<in> set order \<and> unat (part_Index p) = i \<and> Proof_Verify H (part_Proof p) (ps_hash p1) (part_Bytes p) = None)"
      "\<forall>p \<in> set order. part_Index p < ps_total p1 \<longrightarrow> Proof_Verify H (part_Proof p) (ps_hash p1) (part_Bytes p) = None
         \<longrightarrow> unat (part_Index p) \<in> occupied (ps_parts ps')"
    using Cons.IH [OF one(2)] by (elim exE conjE) (rule that)
  have len: "length (ps_parts ps') = length (ps_parts p1)" using ih(2,4) one(2) by (simp add: wf_partSet_def)
  show ?case
  proof (intro exI [of _ ps'] conjI)
    show "\<forall>i < length (ps_parts ps'). \<forall>q. ps_parts ps' ! i = Some q \<longrightarrow> ps_parts ps ! i = Some q
         \<or> (q \<in> set (p # order) \<and> unat (part_Index q) = i \<and> Proof_Verify H (part_Proof q) (ps_hash ps) (part_Bytes q) = None)"
      using ih(6) one(3,6) len by (metis list.set_intros)
    show "\<forall>q \<in> set (p # order). part_Index q < ps_total ps \<longrightarrow> Proof_Verify H (part_Proof q) (ps_hash ps) (part_Bytes q) = None
         \<longrightarrow> unat (part_Index q) \<in> occupied (ps_parts ps')"
      using ih(5,7) one(3,4,7) by auto
  qed (use ih one in auto)
qed

section \<open>Cutting data into parts\<close>

definition chunks_of :: "nat \<Rightarrow> bytes \<Rightarrow> bytes list" where
  "chunks_of k data = map (\<lambda>i. take k (drop (i * k) data)) [0..<(length data + k - 1) div k]"

lemma concat_chunks: "concat (map (\<lambda>i. take k (drop (i * k) data)) [0..<n]) = take (n * k) data"
  by (induction n) (simp_all add: take_add [symmetric] add.commute)

lemma chunks_of_concat: "0 < k \<Longrightarrow> concat (chunks_of k data) = data"
proof -
  assume k: "0 < k"
  have "length data \<le> (length data + k - 1) div k * k"
    using k dividend_less_div_times [of k "length data + k - 1"] by simp
  then show ?thesis by (simp add: chunks_of_def concat_chunks)
qed

lemma set_bits_total: "ba.mirrors b xs \<Longrightarrow> \<forall>i \<in> set is. i < length xs \<Longrightarrow> \<exists>b'. set_all_bits b is = Ret b'"
proof (induction "is" arbitrary: b xs)
  case (Cons i "is")
  obtain b1 where "BitArray_SetIndex b (int i) True = Ret (True, b1)" "ba.mirrors b1 (xs[i := Some undefined])"
    using ba.mirrors_put [OF Cons.prems(1), of i] Cons.prems(2) by auto
  then show ?case using Cons.IH [of b1 "xs[i := Some undefined]"] Cons.prems(2) by auto
qed simp

lemma word_bound: "a < 2 ^ 32 \<Longrightarrow> unat (of_nat a :: uint32) = a"
  by (simp add: unat_of_nat take_bit_eq_mod)

lemma slice_nat: "lo \<le> hi \<Longrightarrow> hi \<le> length xs \<Longrightarrow> slice xs (int lo) (int hi) = Ret (take (hi - lo) (drop lo xs))"
  by (simp add: slice_def nat_diff_distrib')

lemma part_bytes_chunk:
  assumes k: "0 < k" "length data + k < 2 ^ 32" and i: "i < (length data + k - 1) div k"
  shows "part_bytes data (of_nat k) (of_nat i) = Ret (take k (drop (i * k) data))"
proof -
  have ik: "i * k < length data"
  proof -
    have "Suc i * k \<le> (length data + k - 1) div k * k" using i by (intro mult_le_mono1) simp
    also have "\<dots> \<le> length data + k - 1" by simp
    finally show ?thesis using k(1) by simp
  qed
  have "unat (of_nat i * of_nat k :: uint32) = i * k" "unat ((of_nat i + 1) * of_nat k :: uint32) = (i + 1) * k"
    using word_bound [of "i * k"] word_bound [of "(i + 1) * k"] ik k by (simp_all add: algebra_simps)
  then have "uint (of_nat i * of_nat k :: uint32) = int (i * k)" "uint ((of_nat i + 1) * of_nat k :: uint32) = int ((i + 1) * k)"
    by (metis uint_nat)+
  then have "part_bytes data (of_nat k) (of_nat i) = slice data (int (i * k)) (int (min (length data) ((i + 1) * k)))"
    by (simp only: part_bytes_def of_nat_min)
  also have "\<dots> = Ret (take (min (length data) ((i + 1) * k) - i * k) (drop (i * k) data))"
    using ik by (intro slice_nat) simp_all
  also have "\<dots> = Ret (take k (drop (i * k) data))" by (simp add: min_def)
  finally show ?thesis .
qed


lemma ProofsFromByteSlices_length: "length (snd (ProofsFromByteSlices H items)) = length items"
  by (auto simp: ProofsFromByteSlices_def split: prod.splits dest: trailsFromByteSlices_ok)

lemma NewPartSetFromData_parts:
  assumes k: "0 < k" "length data + k < 2 ^ 32"
  shows "\<exists>full. NewPartSetFromData H data (of_nat k) = Ret full \<and> ps_total full = of_nat (length (chunks_of k data))
    \<and> ps_hash full = HashFromByteSlices H (chunks_of k data) \<and> ps_byteSize full = int (length data)
    \<and> ps_parts full = map (\<lambda>i. Some \<lparr>part_Index = of_nat i, part_Bytes = chunks_of k data ! i,
          part_Proof = snd (ProofsFromByteSlices H (chunks_of k data)) ! i\<rparr>) [0..<length (chunks_of k data)]"
proof -
  let ?n = "(length data + k - 1) div k" and ?cs = "chunks_of k data"
  have n: "length ?cs = ?n" by (simp add: chunks_of_def)
  have "?n \<le> length data + k - 1" by (rule div_le_dividend)
  then have nb: "?n < 2 ^ 32" using k by linarith
  have words: "of_nat (length data) + of_nat k - 1 = (of_nat (length data + k - 1) :: uint32)" using k by (simp add: of_nat_diff)
  have w: "unat (of_nat (length data + k - 1) :: uint32) = length data + k - 1" "unat (of_nat k :: uint32) = k"
    by (rule word_bound; use k in linarith)+
  have tot: "(of_nat (length data) + of_nat k - 1) div of_nat k = (of_nat ?n :: uint32)"
    unfolding words by (rule word_unat_eq_iff [THEN iffD2]) (simp only: unat_div w word_bound [OF nb])
  have kz: "(of_nat k :: uint32) \<noteq> 0" using k word_bound [of k] by force
  have chunks: "map_go (\<lambda>i. part_bytes data (of_nat k) (of_nat i)) [0..<?n] = Ret ?cs"
    unfolding chunks_of_def by (rule map_go_map) (use part_bytes_chunk [OF k] in simp)
  obtain b where b: "set_all_bits (NewBitArray (int ?n)) [0..<?n] = Ret b"
    using set_bits_total [OF ba.mirrors_new [of ?n], of "[0..<?n]"] by auto
  obtain pf where pf: "ProofsFromByteSlices H ?cs = (HashFromByteSlices H ?cs, pf)" "length pf = ?n"
    using ProofsFromByteSlices_root [of H ?cs] ProofsFromByteSlices_length [of H ?cs] n by (cases "ProofsFromByteSlices H ?cs") auto
  have parts: "map_go (make_part ?cs pf) [0..<?n]
      = Ret (map (\<lambda>i. \<lparr>part_Index = of_nat i, part_Bytes = ?cs ! i, part_Proof = pf ! i\<rparr>) [0..<?n])"
    by (rule map_go_map) (use pf n in \<open>simp add: make_part_def index_in\<close>)
  show ?thesis
    unfolding NewPartSetFromData_def if_not_P [OF kz] tot Let_def word_bound [OF nb] chunks b pf(1) bind.simps prod.case parts n
    by (simp add: comp_def)
qed


definition made_of :: "PartSet \<Rightarrow> Part list \<Rightarrow> bool" where
  "made_of full parts \<longleftrightarrow> set (map Some parts) = set (ps_parts full)"

abbreviation cut_part :: "hashfn \<Rightarrow> bytes list \<Rightarrow> nat \<Rightarrow> Part" where
  "cut_part H cs i \<equiv> \<lparr>part_Index = of_nat i, part_Bytes = cs ! i, part_Proof = snd (ProofsFromByteSlices H cs) ! i\<rparr>"

text \<open>Adding the parts that data was cut into, in any order, fills every slot with its part.\<close>

lemma add_parts_fills:
  assumes n: "length cs < 2 ^ 32" and new: "wf_partSet new" "ps_total new = of_nat (length cs)" "ps_hash new = HashFromByteSlices H cs"
      "ps_parts new = replicate (length cs) None"
    and mem: "\<And>p. p \<in> set order \<longleftrightarrow> (\<exists>i < length cs. p = cut_part H cs i)"
  shows "\<exists>ps. add_parts H (Some new) order = Ret (Some ps) \<and> wf_partSet ps \<and> ps_parts ps = map (\<lambda>i. Some (cut_part H cs i)) [0..<length cs]"
proof -
  obtain ps where ps: "add_parts H (Some new) order = Ret (Some ps)" "wf_partSet ps" "ps_total ps = ps_total new"
      "\<forall>i < length (ps_parts ps). \<forall>p. ps_parts ps ! i = Some p \<longrightarrow> ps_parts new ! i = Some p \<or> (p \<in> set order \<and> unat (part_Index p) = i
        \<and> Proof_Verify H (part_Proof p) (ps_hash new) (part_Bytes p) = None)"
      "\<forall>p \<in> set order. part_Index p < ps_total new \<longrightarrow> Proof_Verify H (part_Proof p) (ps_hash new) (part_Bytes p) = None
       \<longrightarrow> unat (part_Index p) \<in> occupied (ps_parts ps)"
    using add_parts_spec [OF new(1)] by blast
  have len: "length (ps_parts ps) = length cs" using ps(2,3) new word_bound [OF n] by (simp add: wf_partSet_def)
  have "ps_parts ps ! i = Some (cut_part H cs i)" if i: "i < length cs" for i
  proof -
    have ib: "unat (of_nat i :: uint32) = i" using i n by (intro word_bound) simp
    have "cut_part H cs i \<in> set order" using mem i by blast
    moreover have "part_Index (cut_part H cs i) < ps_total new" using new ib i word_bound [OF n] by (simp add: word_less_nat_alt)
    moreover have "Proof_Verify H (part_Proof (cut_part H cs i)) (ps_hash new) (part_Bytes (cut_part H cs i)) = None"
      using generated_proof_Verify [OF i] new by simp
    ultimately have "i \<in> occupied (ps_parts ps)" using ps(5) ib by fastforce
    then obtain p where p: "ps_parts ps ! i = Some p" by (auto simp: occupied_def)
    then have "p \<in> set order" "unat (part_Index p) = i" using ps(4) len i new by auto
    moreover obtain j where "j < length cs" "p = cut_part H cs j" using mem calculation(1) by blast
    ultimately have "j = i" using n by (simp add: word_bound)
    then show ?thesis using p \<open>p = cut_part H cs j\<close> by simp
  qed
  then have "ps_parts ps = map (\<lambda>i. Some (cut_part H cs i)) [0..<length cs]" using len by (intro nth_equalityI) auto
  then show ?thesis using ps(1,2) by blast
qed

text \<open>A part set with all parts is complete and reads back their content.\<close>

lemma complete_reads_back:
  assumes "wf_partSet ps" and all: "all_present (ps_parts ps)" and "ps_parts ps \<noteq> []" and cont: "content (ps_parts ps) = data"
  shows "\<exists>r r'. PartSet_IsComplete ps \<and> GetReader ps = Ret r \<and> psr_Read r (Suc (length data)) = Ret (data, True, r')"
proof -
  have comp: "PartSet_IsComplete ps" using complete_iff [OF assms(1)] all by simp
  obtain r where r: "NewPartSetReader (ps_parts ps) = Ret r" "psr_parts r = ps_parts ps" "stream r = data"
    using NewPartSetReader_stream [OF all] cont assms(3) by force
  obtain r' where "psr_Read r (Suc (length data)) = Ret (take (Suc (length data)) data, length data < Suc (length data), r')"
    using psr_Read_stream [of r "Suc (length data)"] all r by auto
  then show ?thesis using comp r(1) by (auto simp: GetReader_def)
qed

section \<open>Properties\<close>

text \<open>
  C17. A block survives its transport in parts: cutting non-empty data into parts of a positive size, the length and the part
  size together below 2^32, always succeeds, the parts carry
  valid proofs, and adding them in any order, with repetitions, to an empty part set made from the header
  completes it with the same parts; its reader returns exactly the data and then the end of file.
\<close>

theorem PartSet_roundtrip:
  assumes "0 < k" and "length data + k < 2 ^ 32" and "data \<noteq> []"
  shows "\<exists>full. NewPartSetFromData H data (of_nat k) = Ret full
    \<and> (\<forall>order. made_of full order \<longrightarrow>
         (\<exists>ps r r'. add_parts H (Some (NewPartSetFromHeader (PartSet_Header (Some full)))) order = Ret (Some ps)
            \<and> PartSet_IsComplete ps \<and> ps_parts ps = ps_parts full \<and> GetReader ps = Ret r
            \<and> psr_Read r (Suc (length data)) = Ret (data, True, r')))"
proof -
  let ?cs = "chunks_of k data"
  obtain full where f: "NewPartSetFromData H data (of_nat k) = Ret full" "ps_total full = of_nat (length ?cs)"
      "ps_hash full = HashFromByteSlices H ?cs" "ps_parts full = map (\<lambda>i. Some (cut_part H ?cs i)) [0..<length ?cs]"
    using NewPartSetFromData_parts [OF assms(1,2)] by blast
  have n: "length ?cs < 2 ^ 32"
    using assms(2) order.strict_trans1 [OF div_le_dividend [of "length data + k - 1" k]] by (simp add: chunks_of_def)
  have ne: "?cs \<noteq> []" using chunks_of_concat [OF assms(1), of data] assms(3) by auto
  let ?new = "NewPartSetFromHeader (PartSet_Header (Some full))"
  have new: "ps_total ?new = of_nat (length ?cs)" "ps_hash ?new = HashFromByteSlices H ?cs"
      "ps_parts ?new = replicate (length ?cs) None"
    using f word_bound [OF n] by (simp_all add: NewPartSetFromHeader_def PartSet_Header_def)
  have "\<exists>ps r r'. add_parts H (Some ?new) order = Ret (Some ps) \<and> PartSet_IsComplete ps \<and> ps_parts ps = ps_parts full
      \<and> GetReader ps = Ret r \<and> psr_Read r (Suc (length data)) = Ret (data, True, r')" if order: "made_of full order" for order
  proof -
    have mem: "p \<in> set order \<longleftrightarrow> (\<exists>i < length ?cs. p = cut_part H ?cs i)" for p
    proof -
      have "Some p \<in> set (map Some order) \<longleftrightarrow> Some p \<in> set (ps_parts full)" using order by (simp only: made_of_def)
      then show ?thesis using f(4) by auto
    qed
    obtain ps where ps: "add_parts H (Some ?new) order = Ret (Some ps)" "wf_partSet ps" "ps_parts ps = ps_parts full"
      using add_parts_fills [OF n NewPartSetFromHeader_wf new mem] f(4) by auto
    have "all_present (ps_parts ps)" "ps_parts ps \<noteq> []" using ps(3) f(4) ne by (auto simp: all_present_def)
    moreover have "content (ps_parts ps) = data"
      using ps(3) f(4) chunks_of_concat [OF assms(1), of data] map_nth [of ?cs] by (simp add: content_def comp_def)
    ultimately show ?thesis using complete_reads_back [OF ps(2)] ps(1,3) by blast
  qed
  then show ?thesis using f(1) by blast
qed

theorem PartSet_roundtrip_witness:
  "\<exists>full. NewPartSetFromData pad_hash [1, 2, 3] (of_nat 2) = Ret full
    \<and> (\<forall>order. made_of full order \<longrightarrow>
         (\<exists>ps r r'. add_parts pad_hash (Some (NewPartSetFromHeader (PartSet_Header (Some full)))) order = Ret (Some ps)
            \<and> PartSet_IsComplete ps \<and> ps_parts ps = ps_parts full \<and> GetReader ps = Ret r
            \<and> psr_Read r (Suc (length [1, 2, 3 :: byte])) = Ret ([1, 2, 3], True, r')))"
  by (rule PartSet_roundtrip) simp_all

text \<open>
  C18. Accepted parts are parts of the data: when the header of an empty part set has the Merkle root of some
  items, then after any sequence of offered parts that pass \<^verbatim>\<open>ValidateBasic\<close> every part that is stored holds
  one of the items, and a part whose proof states the part's own index and the total of the set holds the item
  of that index, unless two different byte strings, one hashed for the root and one hashed in the check of an
  offered part, have the same hash.
\<close>

theorem AddPart_sound:
  assumes "\<forall>x. length (H x) = tmhash_Size" and "items \<noteq> []" and "length items < 2 ^ 32"
    and "\<forall>p \<in> set offered. Part_ValidateBasic p = None"
    and "\<forall>p \<in> set offered. \<not> clash H (root_inputs H items) (proof_inputs H (part_Proof p) (part_Bytes p))"
  shows "\<exists>ps. add_parts H (Some (NewPartSetFromHeader \<lparr>psh_Total = of_nat (length items), psh_Hash = HashFromByteSlices H items\<rparr>)) offered
        = Ret (Some ps)
    \<and> (\<forall>i < length items. \<forall>p. ps_parts ps ! i = Some p \<longrightarrow> part_Bytes p \<in> set items \<and> unat (part_Index p) = i
         \<and> (Index (part_Proof p) = int i \<and> Total (part_Proof p) = int (length items) \<longrightarrow> part_Bytes p = items ! i))"
proof -
  let ?new = "NewPartSetFromHeader \<lparr>psh_Total = of_nat (length items), psh_Hash = HashFromByteSlices H items\<rparr>"
  have new: "ps_hash ?new = HashFromByteSlices H items" "ps_parts ?new = replicate (length items) None"
      "unat (ps_total ?new) = length items"
    using word_bound [OF assms(3)] by (simp_all add: NewPartSetFromHeader_def)
  obtain ps where ps: "add_parts H (Some ?new) offered = Ret (Some ps)" "wf_partSet ps" "ps_total ps = ps_total ?new"
      "\<forall>i < length (ps_parts ps). \<forall>p. ps_parts ps ! i = Some p \<longrightarrow> ps_parts ?new ! i = Some p \<or> (p \<in> set offered \<and> unat (part_Index p) = i
         \<and> Proof_Verify H (part_Proof p) (ps_hash ?new) (part_Bytes p) = None)"
    using add_parts_spec [OF NewPartSetFromHeader_wf] by blast
  have len: "length (ps_parts ps) = length items" using ps(2,3) new(3) by (simp add: wf_partSet_def)
  have "part_Bytes p \<in> set items \<and> unat (part_Index p) = i
      \<and> (Index (part_Proof p) = int i \<and> Total (part_Proof p) = int (length items) \<longrightarrow> part_Bytes p = items ! i)"
    if i: "i < length items" and p: "ps_parts ps ! i = Some p" for i p
  proof -
    have o: "p \<in> set offered" "unat (part_Index p) = i" and v: "Proof_Verify H (part_Proof p) (HashFromByteSlices H items) (part_Bytes p) = None"
      using ps(4) p i len new by auto
    have vb: "Proof_ValidateBasic (part_Proof p) = None"
      using assms(4) o(1) by (auto simp: Part_ValidateBasic_def split: if_splits)
    show ?thesis using Proof_Verify_member [OF assms(1) vb assms(2) v] Proof_Verify_sound [OF assms(1) vb _ v] assms(5) o by auto
  qed
  then show ?thesis using ps(1) by blast
qed


definition ex_part :: Part where
  "ex_part = \<lparr>part_Index = 0, part_Bytes = [1],
     part_Proof = \<lparr>Total = 1, Index = 0, LeafHash = leafHash pad_hash [1], Aunts = []\<rparr>\<rparr>"

theorem AddPart_sound_witness:
  "\<exists>ps. add_parts pad_hash (Some (NewPartSetFromHeader \<lparr>psh_Total = of_nat (length [[1 :: byte]]),
        psh_Hash = HashFromByteSlices pad_hash [[1]]\<rparr>)) [ex_part] = Ret (Some ps)
    \<and> (\<forall>i < length [[1 :: byte]]. \<forall>p. ps_parts ps ! i = Some p \<longrightarrow> part_Bytes p \<in> set [[1]] \<and> unat (part_Index p) = i
         \<and> (Index (part_Proof p) = int i \<and> Total (part_Proof p) = int (length [[1 :: byte]]) \<longrightarrow> part_Bytes p = [[1]] ! i))"
proof (rule AddPart_sound [OF pad_hash_size])
  have "length (leafHash pad_hash [1]) = tmhash_Size" using pad_hash_size by (simp add: leafHash_def)
  then show "\<forall>p \<in> set [ex_part]. Part_ValidateBasic p = None"
    by (simp add: ex_part_def Part_ValidateBasic_def Proof_ValidateBasic_def BlockPartSizeBytes_def)
  show "\<forall>p \<in> set [ex_part]. \<not> clash pad_hash (root_inputs pad_hash [[1]]) (proof_inputs pad_hash (part_Proof p) (part_Bytes p))"
    by (simp add: clash_def root_inputs_def proof_inputs_def ex_part_def tree_inputs.simps aunt_inputs.simps)
qed simp_all

text \<open>
  C19. \<^verbatim>\<open>AddPart\<close> does not compare the index of a part with the index of its proof: for every hash function with hashes of 32
  bytes the two parts of the data \<open>[1, 2]\<close> with their indices exchanged pass \<^verbatim>\<open>Part.ValidateBasic\<close> and are accepted, the part set
  is complete, and its content is \<open>[2, 1]\<close> although its header is the header of \<open>[1, 2]\<close>.
\<close>

theorem AddPart_accepts_misplaced_parts:
  assumes "\<forall>x. length (H x) = tmhash_Size"
  shows "\<exists>full p0 p1 ps. NewPartSetFromData H [1, 2] 1 = Ret full \<and> ps_parts full = [Some p0, Some p1]
     \<and> Part_ValidateBasic (p0\<lparr>part_Index := 1\<rparr>) = None \<and> Part_ValidateBasic (p1\<lparr>part_Index := 0\<rparr>) = None
     \<and> add_parts H (Some (NewPartSetFromHeader (PartSet_Header (Some full)))) [p0\<lparr>part_Index := 1\<rparr>, p1\<lparr>part_Index := 0\<rparr>] = Ret (Some ps)
     \<and> PartSet_IsComplete ps \<and> PartSet_Header (Some ps) = PartSet_Header (Some full) \<and> content (ps_parts ps) = [2, 1]"
proof -
  let ?cs = "chunks_of 1 [1, 2 :: byte]"
  have cs: "?cs = [[1], [2]]" by code_simp
  let ?part = "\<lambda>i. \<lparr>part_Index = of_nat i, part_Bytes = ?cs ! i, part_Proof = snd (ProofsFromByteSlices H ?cs) ! i\<rparr>"
  obtain full where f: "NewPartSetFromData H [1, 2] 1 = Ret full" "ps_total full = 2" "ps_hash full = HashFromByteSlices H ?cs"
      "ps_parts full = [Some (?part 0), Some (?part 1)]"
    using NewPartSetFromData_parts [of 1 "[1, 2]" H] cs by (auto simp: upt_rec)
  let ?new = "NewPartSetFromHeader (PartSet_Header (Some full))" and ?q0 = "(?part 0)\<lparr>part_Index := 1\<rparr>" and ?q1 = "(?part 1)\<lparr>part_Index := 0\<rparr>"
  have ver: "Proof_Verify H (snd (ProofsFromByteSlices H ?cs) ! i) (HashFromByteSlices H ?cs) (?cs ! i) = None" if "i < 2" for i
    using generated_proof_Verify [of i ?cs H] that cs by simp
  have two: "replicate 2 x = [x, x]" for x :: "Part option" by (simp add: numeral_2_eq_2)
  have new: "ps_total ?new = 2" "ps_hash ?new = HashFromByteSlices H ?cs" "ps_parts ?new = [None, None]"
    using f two by (simp_all add: NewPartSetFromHeader_def PartSet_Header_def)
  have small: "\<not> (2 :: uint32) \<le> 1" "\<not> (2 :: uint32) \<le> 0" by (simp_all add: word_le_nat_alt)
  obtain a where a: "AddPart H (Some ?new) (Some ?q0) = Ret (Some a, True, None)" "wf_partSet a" "ps_parts a = [None, Some ?q0]"
      "ps_hash a = HashFromByteSlices H ?cs" "ps_total a = 2"
    using AddPart_spec [OF NewPartSetFromHeader_wf [of "PartSet_Header (Some full)"], of ?q0 H] new ver [of 0] small by (auto simp: occupied_def)
  obtain b where b: "AddPart H (Some a) (Some ?q1) = Ret (Some b, True, None)" "wf_partSet b" "ps_parts b = [Some ?q1, Some ?q0]"
      "ps_hash b = HashFromByteSlices H ?cs" "ps_total b = 2"
    using AddPart_spec [OF a(2), of ?q1 H] a ver [of 1] small by (auto simp: occupied_def)
  have val: "Part_ValidateBasic (?part i\<lparr>part_Index := j\<rparr>) = None" if "i < 2" for i j
  proof -
    have "Proof_ValidateBasic (snd (ProofsFromByteSlices H ?cs) ! i) = None"
      using generated_proof_ValidateBasic [of i ?cs H] that cs assms by (simp add: MaxAunts_def)
    moreover have "length (?cs ! i) \<le> BlockPartSizeBytes" using that cs by (auto simp: less_2_cases_iff BlockPartSizeBytes_def)
    ultimately show ?thesis by (simp add: Part_ValidateBasic_def)
  qed
  have "PartSet_IsComplete b" using complete_iff [OF b(2)] b(3) by (simp add: all_present_def)
  moreover have "content (ps_parts b) = [2, 1]" using b(3) cs by (simp add: content_def)
  moreover have "PartSet_Header (Some b) = PartSet_Header (Some full)" using b(4,5) f(2,3) by (simp add: PartSet_Header_def)
  moreover have "add_parts H (Some ?new) [?q0, ?q1] = Ret (Some b)" using a(1) b(1) by simp
  moreover have "Part_ValidateBasic ?q0 = None" "Part_ValidateBasic ?q1 = None" using val [of 0 1] val [of 1 0] by simp_all
  ultimately show ?thesis using f(1,4) by blast
qed

theorem AddPart_accepts_misplaced_parts_witness:
  "\<exists>full ps. NewPartSetFromData pad_hash [1, 2] 1 = Ret full \<and> PartSet_IsComplete ps
     \<and> PartSet_Header (Some ps) = PartSet_Header (Some full) \<and> content (ps_parts ps) = [2, 1]"
  using AddPart_accepts_misplaced_parts [OF pad_hash_size] by blast

end
