(* ===== verification/Blocks.thy ===== *)
theory Blocks
  imports Evidence Part_Set_Sound
begin

text \<open>
  Blocks (\<^verbatim>\<open>types/block.go\<close>, \<^verbatim>\<open>types/tx.go\<close>): header, transactions, evidence and the commit of the previous block.
  \<^verbatim>\<open>Data\<close>, \<^verbatim>\<open>EvidenceData\<close> and \<^verbatim>\<open>Commit\<close> cache their hashes in volatile fields, and \<^verbatim>\<open>Hash\<close> fills header fields:
  the operations return the changed block. The generated encoders of blocks are parameters.
\<close>

section \<open>Blocks\<close>

record Data =
  d_Txs :: "bytes list"
  d_hash :: "bytes option"

record EvidenceData =
  ed_Evidence :: "Evidence list"
  ed_hash :: "bytes option"
  ed_byteSize :: int64

record Block =
  b_Header :: Header
  b_Data :: Data
  b_Evidence :: EvidenceData
  b_LastCommit :: "Commit option"

record BlockPB =
  bp_Header :: Header
  bp_Txs :: "bytes list"
  bp_Evidence :: "EvidencePB list"
  bp_LastCommit :: "CommitPB option"

record block_lib =
  bl_evidence :: evidence_lib
  bl_EvidenceList_Size :: "EvidencePB list \<Rightarrow> int64"
  bl_Marshal :: "BlockPB \<Rightarrow> bytes option"

abbreviation bl_chain :: "block_lib \<Rightarrow> chain_lib" where
  "bl_chain B \<equiv> el_chain (bl_evidence B)"

abbreviation bl_hash :: "block_lib \<Rightarrow> hashfn" where
  "bl_hash B \<equiv> lib_hash (bl_chain B)"

definition Txs_Hash :: "hashfn \<Rightarrow> bytes list \<Rightarrow> bytes" where
  "Txs_Hash H txs = HashFromByteSlices H (map H txs)"

definition Data_Hash :: "hashfn \<Rightarrow> Data \<Rightarrow> Data \<times> bytes" where
  "Data_Hash H data = (case d_hash data of
       Some h \<Rightarrow> (data, h)
     | None \<Rightarrow> let h = Txs_Hash H (d_Txs data) in (data\<lparr>d_hash := Some h\<rparr>, h))"

definition EvidenceData_Hash :: "evidence_lib \<Rightarrow> EvidenceData \<Rightarrow> (EvidenceData \<times> bytes) go" where
  "EvidenceData_Hash E data = (case ed_hash data of
       Some h \<Rightarrow> Ret (data, h)
     | None \<Rightarrow> do { h \<leftarrow> EvidenceList_Hash E (ed_Evidence data); Ret (data\<lparr>ed_hash := Some h\<rparr>, h) })"

definition Block_fillHeader :: "block_lib \<Rightarrow> Block \<Rightarrow> Block go" where
  "Block_fillHeader B b =
     do {
       b \<leftarrow> (if h_LastCommitHash (b_Header b) = None then
                do {
                  (c, h) \<leftarrow> Commit_Hash (bl_hash B) (lib_CommitSig (bl_chain B)) (b_LastCommit b);
                  Ret (b\<lparr>b_LastCommit := c, b_Header := (b_Header b)\<lparr>h_LastCommitHash := h\<rparr>\<rparr>)
                }
              else Ret b);
       let b = (if h_DataHash (b_Header b) = None then
                  case Data_Hash (bl_hash B) (b_Data b) of
                    (d, h) \<Rightarrow> b\<lparr>b_Data := d, b_Header := (b_Header b)\<lparr>h_DataHash := Some h\<rparr>\<rparr>
                else b);
       (if h_EvidenceHash (b_Header b) = None then
          do {
            (ed, h) \<leftarrow> EvidenceData_Hash (bl_evidence B) (b_Evidence b);
            Ret (b\<lparr>b_Evidence := ed, b_Header := (b_Header b)\<lparr>h_EvidenceHash := Some h\<rparr>\<rparr>)
          }
        else Ret b)
     }"

text \<open>A header of zero values.\<close>

definition zero_Header :: Header where
  "zero_Header = \<lparr>h_Version = \<lparr>ver_Block = 0, ver_App = 0\<rparr>, h_ChainID = [], h_Height = 0, h_Time = 0, h_LastBlockID = zero_BlockID,
     h_LastCommitHash = None, h_DataHash = None, h_VotersHash = [], h_ValidatorsHash = [], h_NextValidatorsHash = [],
     h_ConsensusHash = [], h_AppHash = [], h_LastResultsHash = [], h_EvidenceHash = None, h_ProposerAddress = [], h_Round = 0, h_Proof = []\<rparr>"

definition MakeBlock :: "block_lib \<Rightarrow> int64 \<Rightarrow> bytes list \<Rightarrow> Commit option \<Rightarrow> Evidence list \<Rightarrow> Version \<Rightarrow> Block go" where
  "MakeBlock B height txs lastCommit evidence version =
     Block_fillHeader B \<lparr>b_Header = zero_Header\<lparr>h_Version := version, h_Height := height\<rparr>, b_Data = \<lparr>d_Txs = txs, d_hash = None\<rparr>,
       b_Evidence = \<lparr>ed_Evidence = evidence, ed_hash = None, ed_byteSize = 0\<rparr>, b_LastCommit = lastCommit\<rparr>"

definition Block_Hash :: "block_lib \<Rightarrow> Block option \<Rightarrow> (Block option \<times> bytes option) go" where
  "Block_Hash B bo = (case bo of
       None \<Rightarrow> Ret (None, None)
     | Some b \<Rightarrow>
         if b_LastCommit b = None then Ret (bo, None)
         else do {
           b \<leftarrow> Block_fillHeader B b;
           Ret (Some b, Header_Hash (bl_chain B) (Some (b_Header b)))
         })"

definition HashesTo :: "block_lib \<Rightarrow> Block option \<Rightarrow> bytes \<Rightarrow> (Block option \<times> bool) go" where
  "HashesTo B b hash =
     (if length hash = 0 \<or> b = None then Ret (b, False)
      else do {
        (b', h) \<leftarrow> Block_Hash B b;
        Ret (b', sig_bytes h = hash)
      })"

datatype block_error =
    NilBlock | WrongHeader header_error | NilLastCommit | InvalidLastCommit types_error | LastCommitHashDiffers | DataHashDiffers
  | InvalidEvidence nat evidence_error | EvidenceHashDiffers | BlockEvidence evidence_error | BlockCommit types_error

fun validate_evidence :: "chain_lib \<Rightarrow> nat \<Rightarrow> Evidence list \<Rightarrow> block_error option go" where
  "validate_evidence L i [] = Ret None"
| "validate_evidence L i (ev # evs) =
     do {
       err \<leftarrow> Evidence_ValidateBasic L ev;
       (case err of Some e \<Rightarrow> Ret (Some (InvalidEvidence i e)) | None \<Rightarrow> validate_evidence L (Suc i) evs)
     }"

definition Block_ValidateBasic :: "block_lib \<Rightarrow> Block option \<Rightarrow> (Block option \<times> block_error option) go" where
  "Block_ValidateBasic B bo = (case bo of
       None \<Rightarrow> Ret (None, Some NilBlock)
     | Some b \<Rightarrow>
         (case Header_ValidateBasic (b_Header b) of
            Some err \<Rightarrow> Ret (Some b, Some (WrongHeader err))
          | None \<Rightarrow>
              (case b_LastCommit b of
                 None \<Rightarrow> Ret (Some b, Some NilLastCommit)
               | Some c \<Rightarrow>
                   (case Commit_ValidateBasic c of
                      Some err \<Rightarrow> Ret (Some b, Some (InvalidLastCommit err))
                    | None \<Rightarrow>
                        do {
                          (lc, lch) \<leftarrow> Commit_Hash (bl_hash B) (lib_CommitSig (bl_chain B)) (Some c);
                          let b = b\<lparr>b_LastCommit := lc\<rparr>;
                          if sig_bytes (h_LastCommitHash (b_Header b)) \<noteq> sig_bytes lch then Ret (Some b, Some LastCommitHashDiffers)
                          else do {
                            let (d, dh) = Data_Hash (bl_hash B) (b_Data b);
                            let b = b\<lparr>b_Data := d\<rparr>;
                            if sig_bytes (h_DataHash (b_Header b)) \<noteq> dh then Ret (Some b, Some DataHashDiffers)
                            else do {
                              err \<leftarrow> validate_evidence (bl_chain B) 0 (ed_Evidence (b_Evidence b));
                              if err \<noteq> None then Ret (Some b, err)
                              else do {
                                (ed, eh) \<leftarrow> EvidenceData_Hash (bl_evidence B) (b_Evidence b);
                                let b = b\<lparr>b_Evidence := ed\<rparr>;
                                if sig_bytes (h_EvidenceHash (b_Header b)) \<noteq> eh then Ret (Some b, Some EvidenceHashDiffers)
                                else Ret (Some b, None)
                              }
                            }
                          }
                        }))))"

fun evidence_ToProto :: "Evidence list \<Rightarrow> evidence_error + EvidencePB list" where
  "evidence_ToProto [] = Inr []"
| "evidence_ToProto (ev # evs) = (case EvidenceToProto ev of
       Inl err \<Rightarrow> Inl err
     | Inr p \<Rightarrow> (case evidence_ToProto evs of Inl err \<Rightarrow> Inl err | Inr ps \<Rightarrow> Inr (p # ps)))"

fun evidence_FromProto :: "chain_lib \<Rightarrow> EvidencePB list \<Rightarrow> (evidence_error + Evidence list) go" where
  "evidence_FromProto L [] = Ret (Inr [])"
| "evidence_FromProto L (p # ps) =
     do {
       r \<leftarrow> EvidenceFromProto L p;
       (case r of
          (_, Some err) \<Rightarrow> Ret (Inl err)
        | (None, None) \<Rightarrow> Panic
        | (Some ev, None) \<Rightarrow>
            do {
              rs \<leftarrow> evidence_FromProto L ps;
              Ret (map_sum id ((#) ev) rs)
            })
     }"

text \<open>Encoding the evidence fails only for keys without a message.\<close>

definition EvidenceData_ByteSize :: "block_lib \<Rightarrow> EvidenceData \<Rightarrow> (EvidenceData \<times> int64) go" where
  "EvidenceData_ByteSize B data =
     (if ed_byteSize data = 0 \<and> length (ed_Evidence data) \<noteq> 0 then
        (case evidence_ToProto (ed_Evidence data) of
           Inl err \<Rightarrow> Panic
         | Inr pb \<Rightarrow> let n = bl_EvidenceList_Size B pb in Ret (data\<lparr>ed_byteSize := n\<rparr>, n))
      else Ret (data, ed_byteSize data))"

definition Block_ToProto :: "Block option \<Rightarrow> block_error + BlockPB" where
  "Block_ToProto b = (case b of
       None \<Rightarrow> Inl NilBlock
     | Some b \<Rightarrow>
         (case (Header_ToProto (Some (b_Header b)), evidence_ToProto (ed_Evidence (b_Evidence b))) of
            (None, _) \<Rightarrow> Inl NilBlock
          | (Some h, Inl err) \<Rightarrow> Inl (BlockEvidence err)
          | (Some h, Inr evs) \<Rightarrow> Inr \<lparr>bp_Header = h, bp_Txs = d_Txs (b_Data b), bp_Evidence = evs,
              bp_LastCommit = Commit_ToProto (b_LastCommit b)\<rparr>))"

definition DataFromProto :: "bytes list \<Rightarrow> Data" where
  "DataFromProto txs = \<lparr>d_Txs = txs, d_hash = None\<rparr>"

definition BlockFromProto :: "block_lib \<Rightarrow> BlockPB option \<Rightarrow> (Block option \<times> block_error option) go" where
  "BlockFromProto B bp = (case bp of
       None \<Rightarrow> Ret (None, Some NilBlock)
     | Some p \<Rightarrow>
         (case HeaderFromProto (Some (bp_Header p)) of
            Inl err \<Rightarrow> Ret (None, Some (WrongHeader err))
          | Inr (h, Some err) \<Rightarrow> Ret (None, Some (WrongHeader err))
          | Inr (h, None) \<Rightarrow>
              do {
                evs \<leftarrow> evidence_FromProto (bl_chain B) (bp_Evidence p);
                (case evs of
                   Inl err \<Rightarrow> Ret (None, Some (BlockEvidence err))
                 | Inr evs \<Rightarrow>
                     (case (case bp_LastCommit p of None \<Rightarrow> (None, None) | Some cp \<Rightarrow> CommitFromProto (Some cp)) of
                        (_, Some err) \<Rightarrow> Ret (None, Some (BlockCommit err))
                      | (lc, None) \<Rightarrow>
                          Block_ValidateBasic B (Some \<lparr>b_Header = h, b_Data = DataFromProto (bp_Txs p),
                            b_Evidence = \<lparr>ed_Evidence = evs, ed_hash = None, ed_byteSize = bl_EvidenceList_Size B (bp_Evidence p)\<rparr>,
                            b_LastCommit = lc\<rparr>)))
              }))"

definition MakePartSet :: "block_lib \<Rightarrow> Block option \<Rightarrow> uint32 \<Rightarrow> PartSet option go" where
  "MakePartSet B b partSize = (if b = None then Ret None
     else (case Block_ToProto b of
         Inl err \<Rightarrow> Panic
       | Inr pbb \<Rightarrow>
           do {
             bz \<leftarrow> bl_Marshal B pbb;
             ps \<leftarrow> NewPartSetFromData (lib_hash (bl_chain B)) bz partSize;
             Ret (Some ps)
           }))"

section \<open>Sizes\<close>

definition MaxHeaderBytes :: int64 where
  "MaxHeaderBytes = 626 + (2 + 32 + 1) + (2 + 5) + (2 + int vrf_ProofSize + 1)"

definition MaxOverheadForBlock :: int64 where
  "MaxOverheadForBlock = 11"

fun MaxEvidenceBytes :: "Evidence \<Rightarrow> int64 go" where
  "MaxEvidenceBytes (DuplicateVote dve) =
     do {
       a \<leftarrow> dve_VoteA dve;
       sizeA \<leftarrow> MaxVoteBytes (int (length (sig_bytes (v_Signature a))));
       b \<leftarrow> dve_VoteB dve;
       sizeB \<leftarrow> MaxVoteBytes (int (length (sig_bytes (v_Signature b))));
       Ret ((1 + sizeA + 2) + (1 + sizeB + 2) + (1 + 9) + (1 + 9) + (1 + 17 + 1))
     }"
| "MaxEvidenceBytes (LightClientAttack l) = Ret 0"

definition MaxDataBytes :: "int64 \<Rightarrow> Commit \<Rightarrow> Evidence list \<Rightarrow> int64 go" where
  "MaxDataBytes maxBytes commit evidences =
     do {
       sizes \<leftarrow> map_go MaxEvidenceBytes evidences;
       commitBytes \<leftarrow> Commit_MaxCommitBytes commit;
       let maxDataBytes = wrap64 (maxBytes - MaxOverheadForBlock - MaxHeaderBytes - commitBytes - sum_list sizes);
       if maxDataBytes < 0 then Panic else Ret maxDataBytes
     }"

section \<open>The hash of a block commits to its content\<close>

text \<open>What is hashed into the commit's hash, and the byte strings that are hashed for a block.\<close>

definition commit_leaves :: "chain_lib \<Rightarrow> Commit \<Rightarrow> bytes list go" where
  "commit_leaves L c =
     do {
       bs \<leftarrow> map_go (\<lambda>cs. lib_CommitSig L (CommitSig_ToProto cs)) (c_Signatures c);
       Ret (bs @ [sig_bytes (c_AggregatedSignature c)])
     }"

definition leaves_inputs :: "hashfn \<Rightarrow> bytes list go \<Rightarrow> bytes list" where
  "leaves_inputs H xs = (case xs of None \<Rightarrow> [] | Some xs \<Rightarrow> hash_inputs H xs)"

definition evidence_leaves :: "block_lib \<Rightarrow> Block \<Rightarrow> bytes list go" where
  "evidence_leaves B b = map_go (Evidence_Bytes (bl_evidence B)) (ed_Evidence (b_Evidence b))"

definition block_inputs :: "block_lib \<Rightarrow> Block \<Rightarrow> bytes list" where
  "block_inputs B b =
     header_inputs (bl_chain B) (b_Header b) @ d_Txs (b_Data b) @ hash_inputs (bl_hash B) (map (bl_hash B) (d_Txs (b_Data b)))
     @ leaves_inputs (bl_hash B) (evidence_leaves B b)
     @ (case b_LastCommit b of None \<Rightarrow> [] | Some c \<Rightarrow> leaves_inputs (bl_hash B) (commit_leaves (bl_chain B) c))"

text \<open>The cached hashes of a block are those of its content, where they are set.\<close>

definition caches_ok :: "block_lib \<Rightarrow> Block \<Rightarrow> bool" where
  "caches_ok B b \<longleftrightarrow> (\<forall>h. d_hash (b_Data b) = Some h \<longrightarrow> h = Txs_Hash (bl_hash B) (d_Txs (b_Data b)))
     \<and> (\<forall>h. ed_hash (b_Evidence b) = Some h \<longrightarrow> EvidenceList_Hash (bl_evidence B) (ed_Evidence (b_Evidence b)) = Ret h)
     \<and> (\<forall>c h. b_LastCommit b = Some c \<longrightarrow> c_hash c = Some h \<longrightarrow>
          (\<exists>xs. commit_leaves (bl_chain B) c = Ret xs \<and> h = HashFromByteSlices (bl_hash B) xs))"

lemma hash_nonempty: "\<forall>x. length (H x) = tmhash_Size \<Longrightarrow> HashFromByteSlices H xs \<noteq> []"
  using HashFromByteSlices_length [of H tmhash_Size xs] by (auto simp: tmhash_Size_def)

lemma Data_Hash_ok:
  assumes "caches_ok B b"
  shows "Data_Hash (bl_hash B) (b_Data b)
    = ((b_Data b)\<lparr>d_hash := Some (Txs_Hash (bl_hash B) (d_Txs (b_Data b)))\<rparr>, Txs_Hash (bl_hash B) (d_Txs (b_Data b)))"
  using assms by (cases "b_Data b") (auto simp: Data_Hash_def caches_ok_def Let_def split: option.splits)

lemma EvidenceData_Hash_ok:
  assumes "caches_ok B b" and "EvidenceData_Hash (bl_evidence B) (b_Evidence b) = Ret (ed, h)"
  shows "\<exists>evs. evidence_leaves B b = Ret evs \<and> h = HashFromByteSlices (bl_hash B) evs \<and> ed = (b_Evidence b)\<lparr>ed_hash := Some h\<rparr>"
proof -
  have "EvidenceList_Hash (bl_evidence B) (ed_Evidence (b_Evidence b)) = Ret h" "ed = (b_Evidence b)\<lparr>ed_hash := Some h\<rparr>"
    using assms by (cases "b_Evidence b"; auto simp: EvidenceData_Hash_def caches_ok_def split: option.splits bind_splits)+
  then show ?thesis by (auto simp: EvidenceList_Hash_def evidence_leaves_def split: bind_splits)
qed

lemma Commit_Hash_ok:
  assumes "caches_ok B b" and "b_LastCommit b = Some c" and "Commit_Hash (bl_hash B) (lib_CommitSig (bl_chain B)) (Some c) = Ret (c', h)"
  shows "\<exists>xs. commit_leaves (bl_chain B) c = Ret xs \<and> h = Some (HashFromByteSlices (bl_hash B) xs) \<and> c' = Some (c\<lparr>c_hash := h\<rparr>)"
proof (cases "c_hash c")
  case None
  then show ?thesis using assms(3) by (auto simp: Commit_Hash_def commit_leaves_def Let_def split: bind_splits)
next
  case (Some k)
  then have "h = Some k" "c' = Some (c\<lparr>c_hash := h\<rparr>)" using assms(3) by (cases c; auto simp: Commit_Hash_def)+
  then show ?thesis using assms(1,2) Some by (auto simp: caches_ok_def)
qed

text \<open>A cached hash is returned as it is.\<close>

lemma cached_hashes:
  "Commit_Hash H enc (Some (c\<lparr>c_hash := Some h\<rparr>)) = Ret (Some (c\<lparr>c_hash := Some h\<rparr>), Some h)"
  "Data_Hash H (d\<lparr>d_hash := Some h\<rparr>) = (d\<lparr>d_hash := Some h\<rparr>, h)"
  "EvidenceData_Hash E (ed\<lparr>ed_hash := Some h\<rparr>) = Ret (ed\<lparr>ed_hash := Some h\<rparr>, h)"
  by (simp_all add: Commit_Hash_def Data_Hash_def EvidenceData_Hash_def)

text \<open>The checks of a validation that reports no error.\<close>

definition passes :: "block_lib \<Rightarrow> Block \<Rightarrow> Commit \<Rightarrow> Commit option \<Rightarrow> bytes option \<Rightarrow> EvidenceData \<Rightarrow> bytes \<Rightarrow> bool" where
  "passes B b c c' lch ed eh \<longleftrightarrow> b_LastCommit b = Some c \<and> Header_ValidateBasic (b_Header b) = None \<and> Commit_ValidateBasic c = None
     \<and> Commit_Hash (bl_hash B) (lib_CommitSig (bl_chain B)) (Some c) = Ret (c', lch)
     \<and> sig_bytes (h_LastCommitHash (b_Header b)) = sig_bytes lch
     \<and> sig_bytes (h_DataHash (b_Header b)) = snd (Data_Hash (bl_hash B) (b_Data b))
     \<and> validate_evidence (bl_chain B) 0 (ed_Evidence (b_Evidence b)) = Ret None
     \<and> EvidenceData_Hash (bl_evidence B) (b_Evidence b) = Ret (ed, eh) \<and> sig_bytes (h_EvidenceHash (b_Header b)) = eh"

lemma Block_ValidateBasic_passes:
  assumes "Block_ValidateBasic B (Some b) = Ret (b', None)"
  obtains c c' lch ed eh where "passes B b c c' lch ed eh"
    and "b' = Some (b\<lparr>b_LastCommit := c', b_Data := fst (Data_Hash (bl_hash B) (b_Data b)), b_Evidence := ed\<rparr>)"
  using assms
  by (auto simp: Block_ValidateBasic_def passes_def Let_def split: option.splits bind_splits if_splits prod.splits)

lemma passes_ValidateBasic:
  "passes B b c c' lch ed eh \<Longrightarrow> Block_ValidateBasic B (Some b)
    = Ret (Some (b\<lparr>b_LastCommit := c', b_Data := fst (Data_Hash (bl_hash B) (b_Data b)), b_Evidence := ed\<rparr>), None)"
  by (simp add: Block_ValidateBasic_def passes_def Let_def split_beta)

text \<open>What validation compares, for a block with right caches, and the block it leaves: the same with the caches set.\<close>

lemma Block_ValidateBasic_hashes:
  assumes "Block_ValidateBasic B (Some b) = Ret (b', None)" and "caches_ok B b"
  obtains c xs evs where "b_LastCommit b = Some c" and "commit_leaves (bl_chain B) c = Ret xs"
    and "sig_bytes (h_LastCommitHash (b_Header b)) = HashFromByteSlices (bl_hash B) xs"
    and "sig_bytes (h_DataHash (b_Header b)) = Txs_Hash (bl_hash B) (d_Txs (b_Data b))"
    and "evidence_leaves B b = Ret evs" and "sig_bytes (h_EvidenceHash (b_Header b)) = HashFromByteSlices (bl_hash B) evs"
proof -
  obtain c c' lch ed eh where p: "passes B b c c' lch ed eh" by (rule Block_ValidateBasic_passes [OF assms(1)])
  note c = p [unfolded passes_def]
  show thesis
    using that c Commit_Hash_ok [OF assms(2)] EvidenceData_Hash_ok [OF assms(2)] Data_Hash_ok [OF assms(2)]
    by (fastforce simp: sig_bytes_def)
qed

text \<open>A valid block has its hashes filled in.\<close>

lemma Block_Hash_valid:
  assumes "Block_ValidateBasic B (Some b) = Ret (b', None)" and "caches_ok B b" and "\<forall>x. length (bl_hash B x) = tmhash_Size"
  shows "Block_Hash B (Some b) = Ret (Some b, Header_Hash (bl_chain B) (Some (b_Header b)))"
proof -
  obtain c xs evs where v: "b_LastCommit b = Some c"
      "sig_bytes (h_LastCommitHash (b_Header b)) = HashFromByteSlices (bl_hash B) xs"
      "sig_bytes (h_DataHash (b_Header b)) = Txs_Hash (bl_hash B) (d_Txs (b_Data b))"
      "sig_bytes (h_EvidenceHash (b_Header b)) = HashFromByteSlices (bl_hash B) evs"
    using Block_ValidateBasic_hashes [OF assms(1,2)] by metis
  then have "h_LastCommitHash (b_Header b) \<noteq> None" "h_DataHash (b_Header b) \<noteq> None" "h_EvidenceHash (b_Header b) \<noteq> None"
    using hash_nonempty [OF assms(3)] unfolding Txs_Hash_def by (metis option.simps(4) sig_bytes_def)+
  then show ?thesis using v(1) by (auto simp: Block_Hash_def Block_fillHeader_def Let_def)
qed

text \<open>Validation leaves right caches, and a block that is decoded without error has them and passes validation again.\<close>

lemma Block_ValidateBasic_caches:
  assumes "Block_ValidateBasic B (Some b) = Ret (Some b', None)" and "caches_ok B b"
  shows "caches_ok B b' \<and> Block_ValidateBasic B (Some b') = Ret (Some b', None)"
proof -
  obtain c c' lch ed eh where p: "passes B b c c' lch ed eh"
      and b': "b' = b\<lparr>b_LastCommit := c', b_Data := fst (Data_Hash (bl_hash B) (b_Data b)), b_Evidence := ed\<rparr>"
    using Block_ValidateBasic_passes [OF assms(1)] by (metis option.inject)
  obtain xs where xs: "commit_leaves (bl_chain B) c = Ret xs" "lch = Some (HashFromByteSlices (bl_hash B) xs)" "c' = Some (c\<lparr>c_hash := lch\<rparr>)"
    using Commit_Hash_ok [OF assms(2)] p unfolding passes_def by blast
  obtain evs where evs: "evidence_leaves B b = Ret evs" "eh = HashFromByteSlices (bl_hash B) evs" "ed = (b_Evidence b)\<lparr>ed_hash := Some eh\<rparr>"
    using EvidenceData_Hash_ok [OF assms(2)] p by (auto simp: passes_def)
  note d = Data_Hash_ok [OF assms(2)]
  have cv: "Commit_ValidateBasic (c\<lparr>c_hash := h\<rparr>) = Commit_ValidateBasic c" for h
    by (cases c) (simp add: Commit_ValidateBasic_def Let_def split: option.split)
  have "caches_ok B b'"
    using xs evs by (simp add: caches_ok_def b' d EvidenceList_Hash_def evidence_leaves_def commit_leaves_def)
  moreover have "passes B b' (c\<lparr>c_hash := lch\<rparr>) c' lch ed eh"
    using p xs evs by (simp add: passes_def b' d cv cached_hashes)
  from passes_ValidateBasic [OF this] have "Block_ValidateBasic B (Some b') = Ret (Some b', None)"
    using xs evs by (simp add: b' d cached_hashes)
  ultimately show ?thesis by blast
qed

lemma CommitFromProto_fresh: "CommitFromProto cp = (Some c, err) \<Longrightarrow> c_hash c = None"
  by (auto simp: CommitFromProto_def NewCommit_def Let_def split: option.splits prod.splits sum.splits)

lemma decoded_block:
  assumes "BlockFromProto B (Some p) = Ret (Some b, None)"
  shows "caches_ok B b \<and> Block_ValidateBasic B (Some b) = Ret (Some b, None)"
proof -
  obtain h evs n lc where v: "Block_ValidateBasic B (Some \<lparr>b_Header = h, b_Data = DataFromProto (bp_Txs p),
        b_Evidence = \<lparr>ed_Evidence = evs, ed_hash = None, ed_byteSize = n\<rparr>, b_LastCommit = lc\<rparr>) = Ret (Some b, None)"
      and lc: "\<forall>c. lc = Some c \<longrightarrow> c_hash c = None"
    using assms by (auto simp: BlockFromProto_def split: sum.splits prod.splits option.splits bind_splits)
      (blast dest: CommitFromProto_fresh)
  have "caches_ok B \<lparr>b_Header = h, b_Data = DataFromProto (bp_Txs p),
      b_Evidence = \<lparr>ed_Evidence = evs, ed_hash = None, ed_byteSize = n\<rparr>, b_LastCommit = lc\<rparr>"
    using lc by (simp add: caches_ok_def DataFromProto_def)
  from Block_ValidateBasic_caches [OF v this] show ?thesis .
qed

text \<open>Validation does not notice other transactions in a block whose data hash is cached.\<close>

lemma stale_cache_unnoticed:
  assumes "Block_ValidateBasic B (Some b) = Ret (Some b', None)" and "d_hash (b_Data b) = Some h"
  shows "\<exists>b''. Block_ValidateBasic B (Some (b\<lparr>b_Data := (b_Data b)\<lparr>d_Txs := txs\<rparr>\<rparr>)) = Ret (Some b'', None)"
proof -
  obtain c c' lch ed eh where p: "passes B b c c' lch ed eh" by (rule Block_ValidateBasic_passes [OF assms(1)])
  then have "passes B (b\<lparr>b_Data := (b_Data b)\<lparr>d_Txs := txs\<rparr>\<rparr>) c c' lch ed eh"
    using assms(2) by (simp add: passes_def Data_Hash_def)
  then show ?thesis using passes_ValidateBasic by blast
qed

lemma leaves_binding:
  assumes "HashFromByteSlices H xs = HashFromByteSlices H ys" and "\<forall>x. length (H x) = n" and "\<not> clash H A B"
    and "set (hash_inputs H xs) \<subseteq> set A" and "set (hash_inputs H ys) \<subseteq> set B"
  shows "xs = ys"
  using HashFromByteSlices_binding [OF assms(1,2)] clash_mono [OF _ assms(4,5)] assms(3) by blast

lemma map_hash_binding:
  assumes "map H xs = map H ys" and "\<not> clash H xs ys"
  shows "xs = ys"
proof (rule nth_equalityI)
  show len: "length xs = length ys" using assms(1) by (rule map_eq_imp_length_eq)
  show "xs ! i = ys ! i" if "i < length xs" for i
  proof -
    have "H (xs ! i) = H (ys ! i)" using assms(1) that len by (metis nth_map)
    then show ?thesis using clashI [of "xs ! i" xs "ys ! i" ys H] assms(2) that len by auto
  qed
qed

section \<open>Two blocks with colliding transactions\<close>

definition ex_blocks_lib :: block_lib where
  "ex_blocks_lib = \<lparr>bl_evidence = \<lparr>el_chain = ex_lib pad_hash, el_DuplicateVote = (\<lambda>_. Ret []), el_LightClientAttack = (\<lambda>_. Ret [])\<rparr>,
     bl_EvidenceList_Size = (\<lambda>ps. int (length ps)), bl_Marshal = (\<lambda>_. Some [])\<rparr>"

definition ex_last_commit :: Commit where
  "ex_last_commit = lone_commit 6 ex_block (replicate 20 1) 9 (replicate 64 0)"

definition ex_full_block :: "bytes \<Rightarrow> Block" where
  "ex_full_block tx = \<lparr>b_Header = ex_header 7 9\<lparr>h_LastCommitHash := Some (HashFromByteSlices pad_hash [[], []]),
       h_DataHash := Some (Txs_Hash pad_hash [tx]), h_EvidenceHash := Some (HashFromByteSlices pad_hash [])\<rparr>,
     b_Data = \<lparr>d_Txs = [tx], d_hash = None\<rparr>, b_Evidence = \<lparr>ed_Evidence = [], ed_hash = None, ed_byteSize = 0\<rparr>,
     b_LastCommit = Some ex_last_commit\<rparr>"

lemma ex_full_block_valid: "\<exists>b. Block_ValidateBasic ex_blocks_lib (Some (ex_full_block tx)) = Ret (Some b, None)"
proof -
  have h: "length (HashFromByteSlices pad_hash xs) = 32" for xs
    using HashFromByteSlices_length [OF pad_hash_size] by (simp add: tmhash_Size_def)
  have "Header_ValidateBasic (b_Header (ex_full_block tx)) = None"
    using ex_amnesia_valid(1) h by (simp add: ex_full_block_def Header_ValidateBasic_def ex_header_def ValidateHash_def tmhash_Size_def
        MaxChainIDLen_def sig_bytes_def AddressSize_def TruncatedSize_def ValidateProof_def Txs_Hash_def)
  moreover have "Commit_ValidateBasic ex_last_commit = None" unfolding ex_last_commit_def
    by (rule lone_commit_valid) (simp_all add: ex_block_def tmhash_Size_def AddressSize_def TruncatedSize_def MaxSignatureSize_def)
  moreover have "\<exists>c. Commit_Hash pad_hash (lib_CommitSig (ex_lib pad_hash)) (Some ex_last_commit)
      = Ret (c, Some (HashFromByteSlices pad_hash [[], []]))"
    by (simp add: Commit_Hash_def ex_last_commit_def lone_defs ex_lib_def sig_bytes_def Let_def)
  ultimately have "\<exists>c' lch ed eh. passes ex_blocks_lib (ex_full_block tx) ex_last_commit c' lch ed eh"
    by (auto simp: passes_def ex_blocks_lib_def EvidenceData_Hash_def EvidenceList_Hash_def Data_Hash_def Let_def ex_full_block_def
        sig_bytes_def ex_lib_def)
  then show ?thesis using passes_ValidateBasic by blast
qed

lemma ex_full_block_same_header: "b_Header (ex_full_block [1]) = b_Header (ex_full_block [1, 0])"
proof -
  have "replicate 31 (0 :: byte) = 0 # replicate 30 0" by (simp add: numeral_eq_Suc)
  then show ?thesis by (simp add: ex_full_block_def Txs_Hash_def pad_hash_def)
qed

lemma ex_full_block_caches: "caches_ok B (ex_full_block tx)"
  by (simp add: caches_ok_def ex_full_block_def ex_last_commit_def lone_defs)

lemma ex_full_block_Hash: "\<exists>r. Block_Hash ex_blocks_lib (Some (ex_full_block [1])) = Ret (Some (ex_full_block [1]), Some r)
    \<and> Block_Hash ex_blocks_lib (Some (ex_full_block [1, 0])) = Ret (Some (ex_full_block [1, 0]), Some r)"
proof -
  have size: "\<forall>x. length (bl_hash ex_blocks_lib x) = tmhash_Size"
    using pad_hash_size by (simp add: ex_blocks_lib_def ex_lib_def)
  have "\<exists>r. Header_Hash (bl_chain ex_blocks_lib) (Some (b_Header (ex_full_block [1]))) = Some r"
    by (simp add: Header_Hash_def header_leaves_def ex_blocks_lib_def ex_lib_def ex_full_block_def ex_header_def ex_time_def)
  then show ?thesis
    using Block_Hash_valid [OF _ ex_full_block_caches size] ex_full_block_valid [of "[1]"] ex_full_block_valid [of "[1, 0]"] ex_full_block_same_header
    by fastforce
qed

section \<open>Properties\<close>

text \<open>
  C13. A block hash commits to the block: two valid blocks with the same hash, whose cached hashes are unset or those of their
  content, have the same header fields (nil and empty hashes identified), the same transactions, the same encoded evidence and the
  same encoded commit signatures, or a concrete collision of the hash is among the bytes hashed for them. The condition on caches
  holds of every block that \<^verbatim>\<open>BlockFromProto\<close> decodes without error (lemma \<open>decoded_block\<close>), and cannot be dropped: validation does
  not notice other transactions under a cached hash (lemma \<open>stale_cache_unnoticed\<close>). The hash must have 32 bytes, and height and round must be in the range of their types.
\<close>

theorem Block_Hash_binding:
  assumes "Block_ValidateBasic B (Some a) = Ret (a1, None)" and "Block_ValidateBasic B (Some b) = Ret (b1, None)"
    and "caches_ok B a" and "caches_ok B b"
    and "Block_Hash B (Some a) = Ret (a2, Some r)" and "Block_Hash B (Some b) = Ret (b2, Some r)"
    and "wrapper_laws (bl_chain B)" and "\<forall>x. length (bl_hash B x) = tmhash_Size"
    and "header_in_range (b_Header a)" and "header_in_range (b_Header b)"
  shows "header_content (b_Header a) = header_content (b_Header b) \<and> d_Txs (b_Data a) = d_Txs (b_Data b)
      \<and> evidence_leaves B a = evidence_leaves B b
      \<and> map_option (commit_leaves (bl_chain B)) (b_LastCommit a) = map_option (commit_leaves (bl_chain B)) (b_LastCommit b)
    \<or> clash (bl_hash B) (block_inputs B a) (block_inputs B b)"
proof (rule disjCI)
  let ?H = "bl_hash B"
  assume nc: "\<not> clash ?H (block_inputs B a) (block_inputs B b)"
  have hh: "Header_Hash (bl_chain B) (Some (b_Header a)) = Some r" "Header_Hash (bl_chain B) (Some (b_Header b)) = Some r"
    using assms(5,6) Block_Hash_valid [OF assms(1,3,8)] Block_Hash_valid [OF assms(2,4,8)] by simp_all
  have "\<not> clash ?H (header_inputs (bl_chain B) (b_Header a)) (header_inputs (bl_chain B) (b_Header b))"
    using nc clash_mono by (fastforce simp: block_inputs_def)
  then have hc: "header_content (b_Header a) = header_content (b_Header b)" using Header_Hash_inj [OF assms(7-10) hh] by blast
  then have eq: "sig_bytes (h_LastCommitHash (b_Header a)) = sig_bytes (h_LastCommitHash (b_Header b))"
      "sig_bytes (h_DataHash (b_Header a)) = sig_bytes (h_DataHash (b_Header b))"
      "sig_bytes (h_EvidenceHash (b_Header a)) = sig_bytes (h_EvidenceHash (b_Header b))"
    by (cases "b_Header a"; cases "b_Header b"; simp add: header_content_def)+
  obtain ca xa ea where A: "b_LastCommit a = Some ca" "commit_leaves (bl_chain B) ca = Ret xa"
      "sig_bytes (h_LastCommitHash (b_Header a)) = HashFromByteSlices ?H xa" "sig_bytes (h_DataHash (b_Header a)) = Txs_Hash ?H (d_Txs (b_Data a))"
      "evidence_leaves B a = Ret ea" "sig_bytes (h_EvidenceHash (b_Header a)) = HashFromByteSlices ?H ea"
    by (rule Block_ValidateBasic_hashes [OF assms(1,3)])
  obtain cb xb eb where C: "b_LastCommit b = Some cb" "commit_leaves (bl_chain B) cb = Ret xb"
      "sig_bytes (h_LastCommitHash (b_Header b)) = HashFromByteSlices ?H xb" "sig_bytes (h_DataHash (b_Header b)) = Txs_Hash ?H (d_Txs (b_Data b))"
      "evidence_leaves B b = Ret eb" "sig_bytes (h_EvidenceHash (b_Header b)) = HashFromByteSlices ?H eb"
    by (rule Block_ValidateBasic_hashes [OF assms(2,4)])
  note bind = leaves_binding [OF _ assms(8) nc]
  have in_a: "set (hash_inputs ?H xa) \<subseteq> set (block_inputs B a)" "set (hash_inputs ?H ea) \<subseteq> set (block_inputs B a)"
      "set (hash_inputs ?H (map ?H (d_Txs (b_Data a)))) \<subseteq> set (block_inputs B a)" "set (d_Txs (b_Data a)) \<subseteq> set (block_inputs B a)"
    using A by (auto simp: block_inputs_def leaves_inputs_def)
  have in_b: "set (hash_inputs ?H xb) \<subseteq> set (block_inputs B b)" "set (hash_inputs ?H eb) \<subseteq> set (block_inputs B b)"
      "set (hash_inputs ?H (map ?H (d_Txs (b_Data b)))) \<subseteq> set (block_inputs B b)" "set (d_Txs (b_Data b)) \<subseteq> set (block_inputs B b)"
    using C by (auto simp: block_inputs_def leaves_inputs_def)
  have "xa = xb" "ea = eb" using bind eq A C in_a in_b by metis+
  moreover have "map ?H (d_Txs (b_Data a)) = map ?H (d_Txs (b_Data b))"
    using bind eq A(4) C(4) in_a(3) in_b(3) unfolding Txs_Hash_def by metis
  then have "d_Txs (b_Data a) = d_Txs (b_Data b)" using map_hash_binding nc clash_mono [OF _ in_a(4) in_b(4)] by blast
  ultimately show "header_content (b_Header a) = header_content (b_Header b) \<and> d_Txs (b_Data a) = d_Txs (b_Data b)
      \<and> evidence_leaves B a = evidence_leaves B b
      \<and> map_option (commit_leaves (bl_chain B)) (b_LastCommit a) = map_option (commit_leaves (bl_chain B)) (b_LastCommit b)"
    using hc A C by simp
qed

theorem Block_Hash_binding_witness:
  "clash pad_hash (block_inputs ex_blocks_lib (ex_full_block [1])) (block_inputs ex_blocks_lib (ex_full_block [1, 0]))"
proof -
  obtain r where r: "Block_Hash ex_blocks_lib (Some (ex_full_block [1])) = Ret (Some (ex_full_block [1]), Some r)"
      "Block_Hash ex_blocks_lib (Some (ex_full_block [1, 0])) = Ret (Some (ex_full_block [1, 0]), Some r)"
    using ex_full_block_Hash by blast
  obtain a b where v: "Block_ValidateBasic ex_blocks_lib (Some (ex_full_block [1])) = Ret (Some a, None)"
      "Block_ValidateBasic ex_blocks_lib (Some (ex_full_block [1, 0])) = Ret (Some b, None)"
    using ex_full_block_valid by blast
  have range: "header_in_range (b_Header (ex_full_block tx))" for tx
    by (simp add: header_in_range_def ex_full_block_def ex_header_def in64_def in32_def MinInt64_def MaxInt64_def MinInt32_def MaxInt32_def)
  have lib: "bl_chain ex_blocks_lib = ex_lib pad_hash" "lib_hash (ex_lib pad_hash) = pad_hash"
    by (simp_all add: ex_blocks_lib_def ex_lib_def)
  have "d_Txs (b_Data (ex_full_block [1])) \<noteq> d_Txs (b_Data (ex_full_block [1, 0]))" by (simp add: ex_full_block_def)
  then show ?thesis
    using Block_Hash_binding [OF v ex_full_block_caches ex_full_block_caches r _ _ range range] ex_lib_laws [of pad_hash] pad_hash_size
    by (simp add: lib)
qed

end
