(* ===== verification/Spec2Isabelle.thy ===== *)
theory Spec2Isabelle
  imports Key_Path Height_Vote_Set Priv_Validator_Safety Blocks
begin

text \<open>
  Verification of Ostracon.

  Ostracon is a Byzantine fault tolerant replicated state machine. The validators of a block elect a set of weighted
  voters with a verifiable random seed; one validator proposes a block, which travels in parts; the voters prevote and
  precommit in rounds, and a block is decided by precommits of more than two thirds of the weight, which become the
  commit of the next block. Light clients follow the chain by commits alone. The development models the
  deterministic core of this: arithmetic, hashing, encoding, validators and voters, votes, commits and parts, the
  signer, blocks, the header verification and evidence.

  \<^bold>\<open>Conventions.\<close> \<open>Go_Prelude\<close> fixes how Go is read. A function that may panic returns \<open>'a go\<close>; an error value is part of
  the result; nil is \<open>None\<close> where the code tells it apart from an empty value; int64, int32 and int are integers with
  \<open>wrap64\<close> and \<open>wrap32\<close> written where a result may leave the range; uint64, uint32 and bytes are words; a method with
  a pointer receiver returns the changed object; a map is a partial function; mutexes, logging and printing are left out.
  What the code takes from outside the repository is a parameter: the hash, the signature schemes and addresses
  (\<open>crypto_lib\<close>), the encoder of times, the wrapper messages and generated encoders of other messages (\<open>chain_lib\<close>,
  \<open>evidence_lib\<close>, \<open>block_lib\<close>), the private key, JSON and file system of the signer (\<open>pv_lib\<close>), the random source. What
  is assumed of them is a named predicate (\<open>injective_encoder\<close>, \<open>time_codec\<close>, \<open>wrapper_laws\<close>, \<open>pv_laws\<close>), which a witness satisfies with a concrete
  function. Of the hash at most the length of its results is assumed (32 bytes, or one fixed length, as each theorem states); no
  collision resistance is: where security needs it, the theorems give two different byte strings with the same hash as the
  alternative (\<open>clash\<close>).

  \<^bold>\<open>Arithmetic and data.\<close>
  \<^item> \<open>Safe_Math\<close>: the overflow-checked operations of \<^verbatim>\<open>types/validator_set.go\<close> and \<^verbatim>\<open>libs/math\<close>, and the trust level
    fractions; exactness, saturation, parser and printer.
  \<^item> \<open>Bit_Array\<close>: \<^verbatim>\<open>libs/bits/bit_array.go\<close> on 64-bit words; every operation against the bits it sets, the locale
    \<open>bit_store\<close> for its laws, JSON.
  \<^item> \<open>Encoding\<close>: varints, hexadecimal and percent encoding of the standard library, with their decoders.
  \<^item> \<open>Sampling\<close>: \<^verbatim>\<open>libs/rand/sampling.go\<close>, weighted sampling against a specification by cumulative priorities.
  \<^item> \<open>Pub_Key\<close>: the public keys of \<^verbatim>\<open>crypto\<close>, BLS aggregation and the key codec.

  \<^bold>\<open>Merkle trees.\<close>
  \<^item> \<open>Merkle\<close>, \<open>Merkle_Proof\<close>, \<open>Merkle_Binding\<close>: \<^verbatim>\<open>crypto/merkle\<close>; the iterative and the recursive root agree, generated
    proofs are accepted, accepted proofs are for items of the tree, and a root commits to its items.
  \<^item> \<open>Key_Path\<close>: key paths and proof operators; a verified value is in the map.

  \<^bold>\<open>Validators and voters.\<close>
  \<^item> \<open>Validator_Set\<close>, \<open>Proposer_Priority\<close>, \<open>Validator_Update\<close>: \<^verbatim>\<open>types/validator.go\<close> and \<^verbatim>\<open>types/validator_set.go\<close>; the
    invariant of a validator set, updates as changes of a map from addresses to powers, bounded priorities, proposer selection.
  \<^item> \<open>Voter_Set\<close>, \<open>Voter_Election\<close>: \<^verbatim>\<open>types/voter_set.go\<close>; the election ends and keeps Byzantine coalitions below a third of
    the weight. Its loop terminates because each iteration removes a candidate; no fuel is used.

  \<^bold>\<open>Votes, commits and blocks.\<close>
  \<^item> \<open>Block_Types\<close>, \<open>Sign_Bytes\<close>, \<open>Canonical_Decode\<close>, \<open>Canonical_Roundtrip\<close>: block identifiers, votes, proposals and
    commits of \<^verbatim>\<open>types\<close> with the bytes that are signed and their generated encoders and decoders; sign bytes determine
    what is signed and decode to it. The decoder loops have the length of the buffer as fuel: every iteration reads a byte.
  \<^item> \<open>Commit_Verify\<close>, \<open>Commit_Sound\<close>: the verifiers of commits; an accepted commit is signed by a quorum, except that the light
    verifier counts repeated signatures.
  \<^item> \<open>Vote_Set\<close>, \<open>Vote_Set_Inv\<close>, \<open>Vote_Set_Safety\<close>: \<^verbatim>\<open>types/vote_set.go\<close>; invariant of all reachable vote sets, exact
    majorities, conflicting majorities expose a third of the weight, majorities are reached. Quorums are the locale
    \<open>weighted_quorum\<close>.
  \<^item> \<open>Height_Vote_Set\<close>: \<^verbatim>\<open>consensus/types/height_vote_set.go\<close>; the vote sets of all rounds of a height, for calls of
    \<^verbatim>\<open>SetRound\<close> that do not go back.
  \<^item> \<open>Part_Set\<close>, \<open>Part_Set_Sound\<close>: \<^verbatim>\<open>types/part_set.go\<close>; transport of a block in parts.
  \<^item> \<open>Priv_Validator\<close>, \<open>Priv_Validator_Safety\<close>: \<^verbatim>\<open>privval/file.go\<close>; no double signing across crashes.
  \<^item> \<open>Block_Header\<close>, \<open>Light_Verifier\<close>: headers and light blocks of \<^verbatim>\<open>types\<close> and \<^verbatim>\<open>light/verifier.go\<close>; what an accepted header
    has, and that adjacent verification does not tie the voters to the validators.
  \<^item> \<open>Evidence\<close>: \<^verbatim>\<open>types/evidence.go\<close> and \<^verbatim>\<open>evidence/verify.go\<close>; a reported conflict of votes gives evidence that is
    accepted, accepted evidence proves two signatures of one voter, and evidence of amnesia attacks is rejected once decoded.
  \<^item> \<open>Blocks\<close>: the blocks of \<^verbatim>\<open>types/block.go\<close> with the hash of the transactions of \<^verbatim>\<open>types/tx.go\<close>; a block hash commits to
    header, transactions, evidence and last commit. The hashes that transactions, evidence and commits cache are part of the state:
    the statement is for caches that agree with the content, which decoding establishes.

  \<^bold>\<open>Not modelled.\<close> Goroutines, timers, sockets, files and databases: the reactors, the write-ahead log and replay, the
  peer-to-peer network, RPC, the mempool, the stores and indexers, fast sync and state sync, the evidence pool
  (its checks are modelled), the light client around its verifier, remote signers, the node, configuration and commands.
  Block execution depends on the application behind ABCI. Service libraries (pubsub, events, JSON by reflection, logging) have no
  algorithm of the protocol. Key generation, signing, VRF and symmetric encryption are calls of cryptographic libraries.
  Generated protobuf code is modelled for the signed messages only; other messages are records with a parameter for their
  encoder. Printing, metrics and mocks are left out.
\<close>

end
